theory Spec2Isabelle
  imports Main "HOL-Library.Tree" "HOL-Library.Monad_Syntax" "HOL-Library.Multiset"
begin

section \<open>Memory model\<close>

text \<open>
  The container is a pointer structure: every pair is one heap object \<open>node_t\<close> that
  inherits from \<open>node_tree<left_t, tag_left>\<close> and \<open>node_tree<right_t, tag_right>\<close>, and the
  two treaps link the two base sub-objects independently.  An object is identified by its
  address; the two base sub-objects of the object at address \<open>a\<close> are the values of
  \<open>nodes_left\<close> and \<open>nodes_right\<close> at \<open>a\<close>, so that the casts between \<open>node_left *\<close>,
  \<open>node_t_base *\<close> and \<open>node_right *\<close> (and hence \<open>flip\<close>) are the identity on addresses.
  A pointer is an \<open>addr option\<close>, \<open>None\<close> being \<open>nullptr\<close>.

  Only a \<open>node_t\<close> carries keys: \<open>key_left\<close> and \<open>key_right\<close> are partial, defined exactly at
  the addresses of live \<open>node_t\<close> objects.  The \<open>end_node\<close> of a bimap is a \<open>node_t_base\<close> and
  has none, so reading a key through the end iterator has no result.

  A function of the source that may loop or dereference a pointer returns an option:
  \<open>None\<close> means that the source does not return (it loops forever) or has undefined behaviour
  (it dereferences \<open>nullptr\<close> or reads a key where no \<open>node_t\<close> lives).  C++ exceptions are
  values of type \<open>exn\<close>.
\<close>

type_synonym addr = nat
type_synonym ptr = "addr option"

record node_tree =
  parent :: ptr
  left :: ptr
  right :: ptr
  priority :: int

type_synonym nodes = "addr \<Rightarrow> node_tree"

record ('l, 'r) memory =
  nodes_left :: nodes
  nodes_right :: nodes
  key_left :: "addr \<Rightarrow> 'l option"
  key_right :: "addr \<Rightarrow> 'r option"

datatype exn = out_of_range | bad_alloc

text \<open>The assignments \<open>a->parent = v\<close>, \<open>a->left = v\<close>, \<open>a->right = v\<close>.\<close>

definition assign_parent :: "nodes \<Rightarrow> addr \<Rightarrow> ptr \<Rightarrow> nodes" where
  "assign_parent H a v = H(a := (H a)\<lparr>parent := v\<rparr>)"

definition assign_left :: "nodes \<Rightarrow> addr \<Rightarrow> ptr \<Rightarrow> nodes" where
  "assign_left H a v = H(a := (H a)\<lparr>left := v\<rparr>)"

definition assign_right :: "nodes \<Rightarrow> addr \<Rightarrow> ptr \<Rightarrow> nodes" where
  "assign_right H a v = H(a := (H a)\<lparr>right := v\<rparr>)"

section \<open>node_tree: in-order successor\<close>

text \<open>
  \<open>node_tree::next\<close>.  Its two loops are \<open>next_climb\<close> (\<open>while (par != nullptr && par->right
  == cur)\<close>) and \<open>descend_left\<close> (\<open>while (cur->left != nullptr)\<close>).  The result is a pointer,
  which is \<open>nullptr\<close> when the climb leaves the structure.
\<close>

partial_function (option) next_climb :: "nodes \<Rightarrow> addr \<Rightarrow> ptr \<Rightarrow> ptr option" where
  "next_climb H cur par =
     (case par of
        None \<Rightarrow> Some None
      | Some p \<Rightarrow> if right (H p) = Some cur then next_climb H p (parent (H p)) else Some (Some p))"

partial_function (option) descend_left :: "nodes \<Rightarrow> addr \<Rightarrow> addr option" where
  "descend_left H cur =
     (case left (H cur) of None \<Rightarrow> Some cur | Some l \<Rightarrow> descend_left H l)"

definition node_next :: "nodes \<Rightarrow> addr \<Rightarrow> ptr option" where
  "node_next H this =
     (case right (H this) of
        None \<Rightarrow> next_climb H this (parent (H this))
      | Some r \<Rightarrow> map_option Some (descend_left H r))"

section \<open>treap\<close>

text \<open>
  \<open>treap_storage\<close>: the comparator (the base class) and the pointer to the common end node.
  The functions below take the array of \<open>node_tree\<close> sub-objects of their tag and the
  \<open>getter\<close> that reads the key of a node of that tag.
\<close>

record 'k treap =
  cmp :: "'k \<Rightarrow> 'k \<Rightarrow> bool"
  end_elem :: ptr

definition set_parent :: "nodes \<Rightarrow> ptr \<Rightarrow> ptr \<Rightarrow> nodes" where
  "set_parent H child par = (case child of None \<Rightarrow> H | Some c \<Rightarrow> assign_parent H c par)"

text \<open>\<open>treap::root\<close> is \<open>last()->left\<close>; \<open>treap::last\<close> is \<open>storage.end_elem\<close>.\<close>

definition treap_root :: "'k treap \<Rightarrow> nodes \<Rightarrow> ptr option" where
  "treap_root t H = (case end_elem t of None \<Rightarrow> None | Some e \<Rightarrow> Some (left (H e)))"

definition is_last :: "'k treap \<Rightarrow> ptr \<Rightarrow> bool" where
  "is_last t node = (end_elem t = node)"

definition reconnect_end :: "'k treap \<Rightarrow> nodes \<Rightarrow> nodes option" where
  "reconnect_end t H =
     (case end_elem t of None \<Rightarrow> None | Some e \<Rightarrow> Some (set_parent H (left (H e)) (Some e)))"

partial_function (option) treap_split ::
  "('k \<Rightarrow> 'k \<Rightarrow> bool) \<Rightarrow> (addr \<Rightarrow> 'k option) \<Rightarrow> nodes \<Rightarrow> ptr \<Rightarrow> 'k \<Rightarrow> (nodes \<times> ptr \<times> ptr) option"
where
  "treap_split less_k getter H node key =
     (case node of
        None \<Rightarrow> Some (H, None, None)
      | Some n \<Rightarrow>
          do {
            kn \<leftarrow> getter n;
            if less_k kn key then
              do {
                (H1, split_r_first, split_r_second) \<leftarrow>
                   treap_split less_k getter H (right (H n)) key;
                let H2 = assign_right H1 n split_r_first;
                let H3 = set_parent H2 split_r_first (Some n);
                let H4 = set_parent H3 split_r_second None;
                Some (H4, Some n, split_r_second)
              }
            else
              do {
                (H1, split_l_first, split_l_second) \<leftarrow>
                   treap_split less_k getter H (left (H n)) key;
                let H2 = assign_left H1 n split_l_second;
                let H3 = set_parent H2 split_l_second (Some n);
                let H4 = set_parent H3 split_l_first None;
                Some (H4, split_l_first, Some n)
              }
          })"

partial_function (option) treap_merge :: "nodes \<Rightarrow> ptr \<Rightarrow> ptr \<Rightarrow> (nodes \<times> ptr) option" where
  "treap_merge H tree1 tree2 =
     (case tree2 of
        None \<Rightarrow> Some (H, tree1)
      | Some t2 \<Rightarrow>
         (case tree1 of
            None \<Rightarrow> Some (H, tree2)
          | Some t1 \<Rightarrow>
              if priority (H t1) > priority (H t2) then
                do {
                  (H1, m) \<leftarrow> treap_merge H (right (H t1)) tree2;
                  let H2 = assign_right H1 t1 m;
                  Some (set_parent H2 (right (H2 t1)) (Some t1), Some t1)
                }
              else
                do {
                  (H1, m) \<leftarrow> treap_merge H tree1 (left (H t2));
                  let H2 = assign_left H1 t2 m;
                  Some (set_parent H2 (left (H2 t2)) (Some t2), Some t2)
                }))"

text \<open>
  The recursive \<open>treap::insert(tree, node, getter)\<close>; \<open>node\<close> is expected to be non-null, so it
  is an address, and so is the result.
\<close>

partial_function (option) treap_insert ::
  "('k \<Rightarrow> 'k \<Rightarrow> bool) \<Rightarrow> (addr \<Rightarrow> 'k option) \<Rightarrow> nodes \<Rightarrow> ptr \<Rightarrow> addr \<Rightarrow> (nodes \<times> addr) option"
where
  "treap_insert less_k getter H tree node =
     (case tree of
        None \<Rightarrow> Some (H, node)
      | Some t \<Rightarrow>
          if priority (H node) > priority (H t) then
            do {
              kn \<leftarrow> getter node;
              (H1, split_first, split_second) \<leftarrow> treap_split less_k getter H tree kn;
              let H2 = assign_left H1 node split_first;
              let H3 = set_parent H2 split_first (Some node);
              let H4 = assign_right H3 node split_second;
              let H5 = set_parent H4 split_second (Some node);
              Some (H5, node)
            }
          else
            do {
              kn \<leftarrow> getter node;
              kt \<leftarrow> getter t;
              if less_k kn kt then
                do {
                  (H1, l) \<leftarrow> treap_insert less_k getter H (left (H t)) node;
                  let H2 = assign_left H1 t (Some l);
                  Some (assign_parent H2 l (Some t), t)
                }
              else
                do {
                  (H1, r) \<leftarrow> treap_insert less_k getter H (right (H t)) node;
                  let H2 = assign_right H1 t (Some r);
                  Some (assign_parent H2 r (Some t), t)
                }
            })"

text \<open>\<open>treap::insert(node, getter)\<close>: \<open>last()->left = insert(root(), node, getter); reconnect_end();\<close>\<close>

definition treap_insert_node ::
  "'k treap \<Rightarrow> (addr \<Rightarrow> 'k option) \<Rightarrow> nodes \<Rightarrow> addr \<Rightarrow> nodes option" where
  "treap_insert_node t getter H node =
     do {
       root \<leftarrow> treap_root t H;
       (H1, r) \<leftarrow> treap_insert (cmp t) getter H root node;
       e \<leftarrow> end_elem t;
       reconnect_end t (assign_left H1 e (Some r))
     }"

text \<open>\<open>treap::remove(tree, node)\<close> and \<open>treap::remove(node)\<close>.\<close>

definition treap_remove_from :: "'k treap \<Rightarrow> nodes \<Rightarrow> ptr \<Rightarrow> addr \<Rightarrow> (nodes \<times> ptr) option" where
  "treap_remove_from t H tree node =
     do {
       let par = parent (H node);
       (H1, res) \<leftarrow> treap_merge H (left (H node)) (right (H node));
       let H2 = set_parent H1 res par;
       p \<leftarrow> par;
       if par = end_elem t then Some (assign_left H2 p res, res)
       else if right (H2 p) = Some node then Some (assign_right H2 p res, tree)
       else Some (assign_left H2 p res, tree)
     }"

definition treap_remove :: "'k treap \<Rightarrow> nodes \<Rightarrow> addr \<Rightarrow> (nodes \<times> ptr) option" where
  "treap_remove t H node =
     do {
       res \<leftarrow> node_next H node;
       root \<leftarrow> treap_root t H;
       (H1, r) \<leftarrow> treap_remove_from t H root node;
       e \<leftarrow> end_elem t;
       H2 \<leftarrow> reconnect_end t (assign_left H1 e r);
       Some (H2, res)
     }"

text \<open>\<open>treap::find(key, node, getter)\<close> and \<open>treap::find(key, getter)\<close>.\<close>

partial_function (option) treap_find_from ::
  "'k treap \<Rightarrow> (addr \<Rightarrow> 'k option) \<Rightarrow> nodes \<Rightarrow> 'k \<Rightarrow> ptr \<Rightarrow> ptr option" where
  "treap_find_from t getter H key node =
     (case node of
        None \<Rightarrow> Some (end_elem t)
      | Some n \<Rightarrow>
          do {
            kn \<leftarrow> getter n;
            if cmp t kn key then treap_find_from t getter H key (right (H n))
            else if cmp t key kn then treap_find_from t getter H key (left (H n))
            else Some (Some n)
          })"

definition treap_find :: "'k treap \<Rightarrow> (addr \<Rightarrow> 'k option) \<Rightarrow> nodes \<Rightarrow> 'k \<Rightarrow> ptr option" where
  "treap_find t getter H key = do { root \<leftarrow> treap_root t H; treap_find_from t getter H key root }"

text \<open>
  \<open>treap::lower_bound\<close> and \<open>treap::upper_bound\<close>: the loop carries \<open>res\<close>, and the end node
  replaces a null \<open>res\<close> afterwards.
\<close>

partial_function (option) lower_bound_loop ::
  "'k treap \<Rightarrow> (addr \<Rightarrow> 'k option) \<Rightarrow> nodes \<Rightarrow> 'k \<Rightarrow> ptr \<Rightarrow> ptr \<Rightarrow> ptr option" where
  "lower_bound_loop t getter H key node res =
     (case node of
        None \<Rightarrow> Some res
      | Some n \<Rightarrow>
          do {
            kn \<leftarrow> getter n;
            if \<not> cmp t kn key then lower_bound_loop t getter H key (left (H n)) (Some n)
            else lower_bound_loop t getter H key (right (H n)) res
          })"

definition treap_lower_bound ::
  "'k treap \<Rightarrow> (addr \<Rightarrow> 'k option) \<Rightarrow> nodes \<Rightarrow> 'k \<Rightarrow> ptr option" where
  "treap_lower_bound t getter H key =
     do {
       root \<leftarrow> treap_root t H;
       res \<leftarrow> lower_bound_loop t getter H key root None;
       Some (if res = None then end_elem t else res)
     }"

partial_function (option) upper_bound_loop ::
  "'k treap \<Rightarrow> (addr \<Rightarrow> 'k option) \<Rightarrow> nodes \<Rightarrow> 'k \<Rightarrow> ptr \<Rightarrow> ptr \<Rightarrow> ptr option" where
  "upper_bound_loop t getter H key node res =
     (case node of
        None \<Rightarrow> Some res
      | Some n \<Rightarrow>
          do {
            kn \<leftarrow> getter n;
            if cmp t key kn then upper_bound_loop t getter H key (left (H n)) (Some n)
            else upper_bound_loop t getter H key (right (H n)) res
          })"

definition treap_upper_bound ::
  "'k treap \<Rightarrow> (addr \<Rightarrow> 'k option) \<Rightarrow> nodes \<Rightarrow> 'k \<Rightarrow> ptr option" where
  "treap_upper_bound t getter H key =
     do {
       root \<leftarrow> treap_root t H;
       res \<leftarrow> upper_bound_loop t getter H key root None;
       Some (if res = None then end_elem t else res)
     }"

text \<open>\<open>treap::first\<close>: the leftmost node below (and including) the end node.\<close>

definition treap_first :: "'k treap \<Rightarrow> nodes \<Rightarrow> ptr option" where
  "treap_first t H = do { e \<leftarrow> end_elem t; res \<leftarrow> descend_left H e; Some (Some res) }"

section \<open>bimap\<close>

text \<open>
  A bimap object: its two treaps, \<open>size_\<close> and the address of its embedded \<open>end_node\<close>, whose
  two \<open>node_tree\<close> sub-objects live in the memory at that address like those of every other
  node.  \<open>size_\<close> is a \<open>size_t\<close>, taken as 64 bits wide: \<open>--size_\<close> at zero wraps around
  (\<open>size_dec\<close>).  \<open>++size_\<close> is written without the wrap-around, as \<open>size_\<close> is incremented once for
  each node allocated and fewer than \<open>2^64\<close> nodes fit in the address space.
\<close>

record ('l, 'r) bimap =
  treap_left :: "'l treap"
  treap_right :: "'r treap"
  size_m :: nat
  end_node :: addr

text \<open>
  An iterator is the pointer it holds.  \<open>operator*\<close> reads the key of its tag through
  \<open>key_getter\<close>; \<open>flip\<close> casts the pointer to the other base of the same object and so leaves
  the address as it is; \<open>operator++\<close> is \<open>node_next\<close>.
\<close>

definition deref_left :: "('l, 'r) memory \<Rightarrow> ptr \<Rightarrow> 'l option" where
  "deref_left M it = (case it of None \<Rightarrow> None | Some a \<Rightarrow> key_left M a)"

definition deref_right :: "('l, 'r) memory \<Rightarrow> ptr \<Rightarrow> 'r option" where
  "deref_right M it = (case it of None \<Rightarrow> None | Some a \<Rightarrow> key_right M a)"

definition flip :: "ptr \<Rightarrow> ptr" where
  "flip it = it"

definition incr_left :: "('l, 'r) memory \<Rightarrow> ptr \<Rightarrow> ptr option" where
  "incr_left M it = (case it of None \<Rightarrow> None | Some a \<Rightarrow> node_next (nodes_left M) a)"

definition incr_right :: "('l, 'r) memory \<Rightarrow> ptr \<Rightarrow> ptr option" where
  "incr_right M it = (case it of None \<Rightarrow> None | Some a \<Rightarrow> node_next (nodes_right M) a)"

subsection \<open>Construction\<close>

text \<open>
  \<open>treap(Comparator, node_t_ *end)\<close> stores the comparator and the end pointer and resets the
  end node, giving it the priority \<open>std::numeric_limits<int>::max()\<close>.
\<close>

definition node_tree_init :: "int \<Rightarrow> node_tree" where
  "node_tree_init p = \<lparr>parent = None, left = None, right = None, priority = p\<rparr>"

definition treap_ctor :: "('k \<Rightarrow> 'k \<Rightarrow> bool) \<Rightarrow> addr \<Rightarrow> nodes \<Rightarrow> 'k treap \<times> nodes" where
  "treap_ctor comparator e H =
     (\<lparr>cmp = comparator, end_elem = Some e\<rparr>, H(e := node_tree_init 2147483647))"

definition validate_end :: "addr \<Rightarrow> 'k treap \<Rightarrow> nodes \<Rightarrow> ('k treap \<times> nodes) option" where
  "validate_end base t H =
     do {
       let H1 = assign_parent H base None;
       let H2 = assign_right H1 base None;
       root \<leftarrow> treap_root t H2;
       let H3 = assign_left H2 base root;
       let t' = t\<lparr>end_elem := Some base\<rparr>;
       root' \<leftarrow> treap_root t' H3;
       Some (t', set_parent H3 root' (Some base))
     }"

definition validate_ends ::
  "('l, 'r) memory \<Rightarrow> ('l, 'r) bimap \<Rightarrow> (('l, 'r) memory \<times> ('l, 'r) bimap) option" where
  "validate_ends M b =
     do {
       (tl, HL) \<leftarrow> validate_end (end_node b) (treap_left b) (nodes_left M);
       (tr, HR) \<leftarrow> validate_end (end_node b) (treap_right b) (nodes_right M);
       Some (M\<lparr>nodes_left := HL, nodes_right := HR\<rparr>, b\<lparr>treap_left := tl, treap_right := tr\<rparr>)
     }"

text \<open>
  The members are initialised in the order of their declaration: \<open>treap_left\<close>, \<open>treap_right\<close>,
  \<open>size_\<close>, \<open>end_node\<close>.  So the default member initialisers of \<open>end_node\<close> run after the treap
  constructors have reset it, and leave it with null links and two drawn priorities \<open>pl\<close> and
  \<open>pr\<close> (the results of \<open>random_priority()\<close>).  \<open>e\<close> is the address of the \<open>end_node\<close> of the
  object under construction.
\<close>

definition init_members ::
  "('l, 'r) memory \<Rightarrow> addr \<Rightarrow> ('l \<Rightarrow> 'l \<Rightarrow> bool) \<Rightarrow> ('r \<Rightarrow> 'r \<Rightarrow> bool) \<Rightarrow> int \<times> int \<Rightarrow>
     ('l, 'r) memory \<times> ('l, 'r) bimap" where
  "init_members M e compare_left compare_right ps =
     (let (tl, HL) = treap_ctor compare_left e (nodes_left M);
          (tr, HR) = treap_ctor compare_right e (nodes_right M);
          HL' = HL(e := node_tree_init (fst ps));
          HR' = HR(e := node_tree_init (snd ps))
      in (M\<lparr>nodes_left := HL', nodes_right := HR'\<rparr>,
          \<lparr>treap_left = tl, treap_right = tr, size_m = 0, end_node = e\<rparr>))"

definition bimap_ctor ::
  "('l, 'r) memory \<Rightarrow> addr \<Rightarrow> ('l \<Rightarrow> 'l \<Rightarrow> bool) \<Rightarrow> ('r \<Rightarrow> 'r \<Rightarrow> bool) \<Rightarrow> int \<times> int \<Rightarrow>
     (('l, 'r) memory \<times> ('l, 'r) bimap) option" where
  "bimap_ctor M e compare_left compare_right ps =
     (let (M0, b0) = init_members M e compare_left compare_right ps in validate_ends M0 b0)"

subsection \<open>Queries\<close>

definition begin_left :: "('l, 'r) memory \<Rightarrow> ('l, 'r) bimap \<Rightarrow> ptr option" where
  "begin_left M b = treap_first (treap_left b) (nodes_left M)"

definition end_left :: "('l, 'r) bimap \<Rightarrow> ptr" where
  "end_left b = end_elem (treap_left b)"

definition begin_right :: "('l, 'r) memory \<Rightarrow> ('l, 'r) bimap \<Rightarrow> ptr option" where
  "begin_right M b = treap_first (treap_right b) (nodes_right M)"

definition end_right :: "('l, 'r) bimap \<Rightarrow> ptr" where
  "end_right b = end_elem (treap_right b)"

definition find_left :: "('l, 'r) memory \<Rightarrow> ('l, 'r) bimap \<Rightarrow> 'l \<Rightarrow> ptr option" where
  "find_left M b l = treap_find (treap_left b) (key_left M) (nodes_left M) l"

definition find_right :: "('l, 'r) memory \<Rightarrow> ('l, 'r) bimap \<Rightarrow> 'r \<Rightarrow> ptr option" where
  "find_right M b r = treap_find (treap_right b) (key_right M) (nodes_right M) r"

definition contains_left :: "('l, 'r) memory \<Rightarrow> ('l, 'r) bimap \<Rightarrow> 'l \<Rightarrow> bool option" where
  "contains_left M b l = do { it \<leftarrow> find_left M b l; Some (it \<noteq> end_left b) }"

definition contains_right :: "('l, 'r) memory \<Rightarrow> ('l, 'r) bimap \<Rightarrow> 'r \<Rightarrow> bool option" where
  "contains_right M b r = do { it \<leftarrow> find_right M b r; Some (it \<noteq> end_right b) }"

definition lower_bound_left :: "('l, 'r) memory \<Rightarrow> ('l, 'r) bimap \<Rightarrow> 'l \<Rightarrow> ptr option" where
  "lower_bound_left M b l = treap_lower_bound (treap_left b) (key_left M) (nodes_left M) l"

definition upper_bound_left :: "('l, 'r) memory \<Rightarrow> ('l, 'r) bimap \<Rightarrow> 'l \<Rightarrow> ptr option" where
  "upper_bound_left M b l = treap_upper_bound (treap_left b) (key_left M) (nodes_left M) l"

definition lower_bound_right :: "('l, 'r) memory \<Rightarrow> ('l, 'r) bimap \<Rightarrow> 'r \<Rightarrow> ptr option" where
  "lower_bound_right M b r = treap_lower_bound (treap_right b) (key_right M) (nodes_right M) r"

definition upper_bound_right :: "('l, 'r) memory \<Rightarrow> ('l, 'r) bimap \<Rightarrow> 'r \<Rightarrow> ptr option" where
  "upper_bound_right M b r = treap_upper_bound (treap_right b) (key_right M) (nodes_right M) r"

definition bimap_empty :: "('l, 'r) bimap \<Rightarrow> bool" where
  "bimap_empty b = (size_m b = 0)"

definition bimap_size :: "('l, 'r) bimap \<Rightarrow> nat" where
  "bimap_size b = size_m b"

text \<open>
  \<open>at<Tag>\<close>: \<open>find\<close>, then \<open>std::out_of_range\<close> at the end node, else the key of the other tag in
  the same object.
\<close>

definition at_left :: "('l, 'r) memory \<Rightarrow> ('l, 'r) bimap \<Rightarrow> 'l \<Rightarrow> (exn + 'r) option" where
  "at_left M b key =
     do {
       res \<leftarrow> treap_find (treap_left b) (key_left M) (nodes_left M) key;
       if is_last (treap_left b) res then Some (Inl out_of_range)
       else map_option Inr (deref_right M res)
     }"

definition at_right :: "('l, 'r) memory \<Rightarrow> ('l, 'r) bimap \<Rightarrow> 'r \<Rightarrow> (exn + 'l) option" where
  "at_right M b key =
     do {
       res \<leftarrow> treap_find (treap_right b) (key_right M) (nodes_right M) key;
       if is_last (treap_right b) res then Some (Inl out_of_range)
       else map_option Inr (deref_left M res)
     }"

subsection \<open>Insertion\<close>

text \<open>
  \<open>new node_t(left, right)\<close> is the one place where the environment chooses: the address of the
  new object and the two priorities drawn for its two bases, or no object at all
  (\<open>std::bad_alloc\<close>).  The choice is the argument \<open>alloc\<close>.
\<close>

type_synonym alloc = "(addr \<times> int \<times> int) option"

definition new_node ::
  "('l, 'r) memory \<Rightarrow> addr \<Rightarrow> 'l \<Rightarrow> 'r \<Rightarrow> int \<Rightarrow> int \<Rightarrow> ('l, 'r) memory" where
  "new_node M a l r pl pr =
     M\<lparr>nodes_left := (nodes_left M)(a := node_tree_init pl),
       nodes_right := (nodes_right M)(a := node_tree_init pr),
       key_left := (key_left M)(a := Some l),
       key_right := (key_right M)(a := Some r)\<rparr>"

definition delete_node :: "('l, 'r) memory \<Rightarrow> addr \<Rightarrow> ('l, 'r) memory" where
  "delete_node M a = M\<lparr>key_left := (key_left M)(a := None), key_right := (key_right M)(a := None)\<rparr>"

text \<open>
  \<open>insert_impl\<close>, to which the four \<open>insert\<close> overloads forward.  The result is the memory and
  the object afterwards and either the exception thrown or the iterator returned.
\<close>

definition insert_impl ::
  "('l, 'r) memory \<Rightarrow> ('l, 'r) bimap \<Rightarrow> 'l \<Rightarrow> 'r \<Rightarrow> alloc \<Rightarrow>
     (('l, 'r) memory \<times> ('l, 'r) bimap \<times> (exn + ptr)) option" where
  "insert_impl M b l r alloc =
     do {
       cl \<leftarrow> contains_left M b l;
       cr \<leftarrow> (if cl then Some True else contains_right M b r);
       if cl \<or> cr then Some (M, b, Inr (end_left b))
       else
         (case alloc of
            None \<Rightarrow> Some (M, b, Inl bad_alloc)
          | Some (a, pl, pr) \<Rightarrow>
              do {
                let M1 = new_node M a l r pl pr;
                HL \<leftarrow> treap_insert_node (treap_left b) (key_left M1) (nodes_left M1) a;
                let M2 = M1\<lparr>nodes_left := HL\<rparr>;
                HR \<leftarrow> treap_insert_node (treap_right b) (key_right M2) (nodes_right M2) a;
                let M3 = M2\<lparr>nodes_right := HR\<rparr>;
                Some (M3, b\<lparr>size_m := size_m b + 1\<rparr>, Inr (Some a))
              })
     }"

definition bimap_insert ::
  "('l, 'r) memory \<Rightarrow> ('l, 'r) bimap \<Rightarrow> 'l \<Rightarrow> 'r \<Rightarrow> alloc \<Rightarrow>
     (('l, 'r) memory \<times> ('l, 'r) bimap \<times> (exn + ptr)) option" where
  "bimap_insert M b l r alloc = insert_impl M b l r alloc"

subsection \<open>Erasure\<close>

definition size_dec :: "nat \<Rightarrow> nat" where
  "size_dec n = (if n = 0 then 18446744073709551615 else n - 1)"

text \<open>
  \<open>erase_impl<Tag>(iterator)\<close> removes the object from the right treap, then from the left
  treap, deletes it and decrements \<open>size_\<close>.  Both successors are returned here;
  \<open>erase_left\<close> and \<open>erase_right\<close> pick the one of their tag, as the \<open>if constexpr\<close> does.
\<close>

definition erase_impl ::
  "('l, 'r) memory \<Rightarrow> ('l, 'r) bimap \<Rightarrow> ptr \<Rightarrow>
     (('l, 'r) memory \<times> ('l, 'r) bimap \<times> ptr \<times> ptr) option" where
  "erase_impl M b it =
     do {
       a \<leftarrow> it;
       (HR, res_r) \<leftarrow> treap_remove (treap_right b) (nodes_right M) a;
       (HL, res_l) \<leftarrow> treap_remove (treap_left b) (nodes_left M) a;
       let M1 = delete_node (M\<lparr>nodes_right := HR, nodes_left := HL\<rparr>) a;
       Some (M1, b\<lparr>size_m := size_dec (size_m b)\<rparr>, res_l, res_r)
     }"

definition erase_left ::
  "('l, 'r) memory \<Rightarrow> ('l, 'r) bimap \<Rightarrow> ptr \<Rightarrow> (('l, 'r) memory \<times> ('l, 'r) bimap \<times> ptr) option" where
  "erase_left M b it = map_option (\<lambda>(M1, b1, res_l, res_r). (M1, b1, res_l)) (erase_impl M b it)"

definition erase_right ::
  "('l, 'r) memory \<Rightarrow> ('l, 'r) bimap \<Rightarrow> ptr \<Rightarrow> (('l, 'r) memory \<times> ('l, 'r) bimap \<times> ptr) option" where
  "erase_right M b it = map_option (\<lambda>(M1, b1, res_l, res_r). (M1, b1, res_r)) (erase_impl M b it)"

text \<open>\<open>erase_impl<Tag>(key, tree)\<close>: erase by key, reporting whether a pair was removed.\<close>

definition erase_left_key ::
  "('l, 'r) memory \<Rightarrow> ('l, 'r) bimap \<Rightarrow> 'l \<Rightarrow> (('l, 'r) memory \<times> ('l, 'r) bimap \<times> bool) option" where
  "erase_left_key M b key =
     do {
       node \<leftarrow> treap_find (treap_left b) (key_left M) (nodes_left M) key;
       if is_last (treap_left b) node then Some (M, b, False)
       else do { (M1, b1, res) \<leftarrow> erase_left M b node; Some (M1, b1, True) }
     }"

definition erase_right_key ::
  "('l, 'r) memory \<Rightarrow> ('l, 'r) bimap \<Rightarrow> 'r \<Rightarrow> (('l, 'r) memory \<times> ('l, 'r) bimap \<times> bool) option" where
  "erase_right_key M b key =
     do {
       node \<leftarrow> treap_find (treap_right b) (key_right M) (nodes_right M) key;
       if is_last (treap_right b) node then Some (M, b, False)
       else do { (M1, b1, res) \<leftarrow> erase_right M b node; Some (M1, b1, True) }
     }"

text \<open>\<open>erase_impl<Tag>(first, last)\<close>: \<open>while (first != last) first = erase_impl(first)\<close>.\<close>

partial_function (option) erase_left_range ::
  "('l, 'r) memory \<Rightarrow> ('l, 'r) bimap \<Rightarrow> ptr \<Rightarrow> ptr \<Rightarrow>
     (('l, 'r) memory \<times> ('l, 'r) bimap \<times> ptr) option" where
  "erase_left_range M b first lst =
     (if first \<noteq> lst then
        do { (M1, b1, first1) \<leftarrow> erase_left M b first; erase_left_range M1 b1 first1 lst }
      else Some (M, b, lst))"

partial_function (option) erase_right_range ::
  "('l, 'r) memory \<Rightarrow> ('l, 'r) bimap \<Rightarrow> ptr \<Rightarrow> ptr \<Rightarrow>
     (('l, 'r) memory \<times> ('l, 'r) bimap \<times> ptr) option" where
  "erase_right_range M b first lst =
     (if first \<noteq> lst then
        do { (M1, b1, first1) \<leftarrow> erase_right M b first; erase_right_range M1 b1 first1 lst }
      else Some (M, b, lst))"

definition erase_all ::
  "('l, 'r) memory \<Rightarrow> ('l, 'r) bimap \<Rightarrow> (('l, 'r) memory \<times> ('l, 'r) bimap) option" where
  "erase_all M b =
     do {
       first \<leftarrow> begin_left M b;
       (M1, b1, res) \<leftarrow> erase_left_range M b first (end_left b);
       Some (M1, b1)
     }"

subsection \<open>at\_or\_default\<close>

text \<open>
  \<open>at_or_default<Tag>\<close>; \<open>val\<close> is the value-initialised key of the other side.  For the left
  tag the result is \<open>*insert(key, val).flip()\<close>, for the right tag \<open>*insert(val, key)\<close>.
\<close>

definition at_left_or_default ::
  "('l, 'r) memory \<Rightarrow> ('l, 'r) bimap \<Rightarrow> 'l \<Rightarrow> 'r \<Rightarrow> alloc \<Rightarrow>
     (('l, 'r) memory \<times> ('l, 'r) bimap \<times> (exn + 'r)) option" where
  "at_left_or_default M b key val alloc =
     do {
       c \<leftarrow> contains_left M b key;
       if c then do { res \<leftarrow> at_left M b key; Some (M, b, res) }
       else
         do {
           it \<leftarrow> find_right M b val;
           (M1, b1) \<leftarrow> (if it \<noteq> end_right b
                        then map_option (\<lambda>(M1, b1, res). (M1, b1)) (erase_right M b it)
                        else Some (M, b));
           (M2, b2, ins) \<leftarrow> bimap_insert M1 b1 key val alloc;
           (case ins of
              Inl ex \<Rightarrow> Some (M2, b2, Inl ex)
            | Inr res \<Rightarrow> map_option (\<lambda>v. (M2, b2, Inr v)) (deref_right M2 (flip res)))
         }
     }"

definition at_right_or_default ::
  "('l, 'r) memory \<Rightarrow> ('l, 'r) bimap \<Rightarrow> 'r \<Rightarrow> 'l \<Rightarrow> alloc \<Rightarrow>
     (('l, 'r) memory \<times> ('l, 'r) bimap \<times> (exn + 'l)) option" where
  "at_right_or_default M b key val alloc =
     do {
       c \<leftarrow> contains_right M b key;
       if c then do { res \<leftarrow> at_right M b key; Some (M, b, res) }
       else
         do {
           it \<leftarrow> find_left M b val;
           (M1, b1) \<leftarrow> (if it \<noteq> end_left b
                        then map_option (\<lambda>(M1, b1, res). (M1, b1)) (erase_left M b it)
                        else Some (M, b));
           (M2, b2, ins) \<leftarrow> bimap_insert M1 b1 val key alloc;
           (case ins of
              Inl ex \<Rightarrow> Some (M2, b2, Inl ex)
            | Inr res \<Rightarrow> map_option (\<lambda>v. (M2, b2, Inr v)) (deref_left M2 res))
         }
     }"

subsection \<open>Iteration and comparison\<close>

text \<open>
  The loop \<open>for (it = first; it != last; ++it)\<close> of \<open>insert_all\<close>, of \<open>operator==\<close> and of the
  callers, collecting the nodes it visits.
\<close>

partial_function (option) iterate :: "nodes \<Rightarrow> ptr \<Rightarrow> ptr \<Rightarrow> addr list option" where
  "iterate H it lst =
     (if it \<noteq> lst then
        do { a \<leftarrow> it; it1 \<leftarrow> node_next H a; rest \<leftarrow> iterate H it1 lst; Some (a # rest) }
      else Some [])"

definition left_view :: "('l, 'r) memory \<Rightarrow> ('l, 'r) bimap \<Rightarrow> addr list option" where
  "left_view M b = do { first \<leftarrow> begin_left M b; iterate (nodes_left M) first (end_left b) }"

definition right_view :: "('l, 'r) memory \<Rightarrow> ('l, 'r) bimap \<Rightarrow> addr list option" where
  "right_view M b = do { first \<leftarrow> begin_right M b; iterate (nodes_right M) first (end_right b) }"

text \<open>\<open>operator==\<close>: the loop runs \<open>it1\<close> to the end of \<open>map1\<close> and moves \<open>it2\<close> along.\<close>

partial_function (option) equal_loop ::
  "('l, 'r) memory \<Rightarrow> ptr \<Rightarrow> ptr \<Rightarrow> ptr \<Rightarrow> bool option" where
  "equal_loop M it1 it2 last1 =
     (if it1 \<noteq> last1 then
        do {
          l1 \<leftarrow> deref_left M it1;
          l2 \<leftarrow> deref_left M it2;
          if l1 \<noteq> l2 then Some False
          else
            do {
              r1 \<leftarrow> deref_right M (flip it1);
              r2 \<leftarrow> deref_right M (flip it2);
              if r1 \<noteq> r2 then Some False
              else
                do {
                  n1 \<leftarrow> incr_left M it1;
                  n2 \<leftarrow> incr_left M it2;
                  equal_loop M n1 n2 last1
                }
            }
        }
      else Some True)"

definition bimap_equal ::
  "('l, 'r) memory \<Rightarrow> ('l, 'r) bimap \<Rightarrow> ('l, 'r) bimap \<Rightarrow> bool option" where
  "bimap_equal M m1 m2 =
     (if bimap_size m1 \<noteq> bimap_size m2 then Some False
      else
        do {
          it1 \<leftarrow> begin_left M m1;
          it2 \<leftarrow> begin_left M m2;
          equal_loop M it1 it2 (end_left m1)
        })"

subsection \<open>Copying\<close>

text \<open>
  \<open>insert_all\<close>: the loop over \<open>other\<close> from \<open>begin_left()\<close> to \<open>end_left()\<close>, inserting
  \<open>(*iter, *iter.flip())\<close>.  \<open>allocs\<close> lists what the successive \<open>new node_t\<close> will do; when
  the list is used up, the next one throws.  The loop stops at the first exception and hands
  it on together with the memory and the object as they are then.
\<close>

partial_function (option) insert_all_loop ::
  "('l, 'r) memory \<Rightarrow> ('l, 'r) bimap \<Rightarrow> ptr \<Rightarrow> ptr \<Rightarrow> alloc list \<Rightarrow>
     (('l, 'r) memory \<times> ('l, 'r) bimap \<times> (exn + unit)) option" where
  "insert_all_loop M b iter lst allocs =
     (if iter \<noteq> lst then
        do {
          l \<leftarrow> deref_left M iter;
          r \<leftarrow> deref_right M (flip iter);
          (M1, b1, res) \<leftarrow> bimap_insert M b l r (case allocs of [] \<Rightarrow> None | al # _ \<Rightarrow> al);
          (case res of
             Inl ex \<Rightarrow> Some (M1, b1, Inl ex)
           | Inr it \<Rightarrow>
               do {
                 iter1 \<leftarrow> incr_left M1 iter;
                 insert_all_loop M1 b1 iter1 lst (tl allocs)
               })
        }
      else Some (M, b, Inr ()))"

definition insert_all ::
  "('l, 'r) memory \<Rightarrow> ('l, 'r) bimap \<Rightarrow> ('l, 'r) bimap \<Rightarrow> alloc list \<Rightarrow>
     (('l, 'r) memory \<times> ('l, 'r) bimap \<times> (exn + unit)) option" where
  "insert_all M b other allocs =
     do {
       first \<leftarrow> begin_left M other;
       insert_all_loop M b first (end_left other) allocs
     }"

text \<open>
  The copy constructor takes the comparators of \<open>other\<close>, runs \<open>validate_ends\<close> and
  \<open>insert_all\<close>, and on an exception runs \<open>erase_all\<close> and rethrows.  A constructor that
  throws leaves no object: the result is the memory and either the exception or the new
  object.
\<close>

definition bimap_copy_ctor ::
  "('l, 'r) memory \<Rightarrow> ('l, 'r) bimap \<Rightarrow> addr \<Rightarrow> int \<times> int \<Rightarrow> alloc list \<Rightarrow>
     (('l, 'r) memory \<times> (exn + ('l, 'r) bimap)) option" where
  "bimap_copy_ctor M other e ps allocs =
     (let (M0, b0) = init_members M e (cmp (treap_left other)) (cmp (treap_right other)) ps in
      do {
        (M1, b1) \<leftarrow> validate_ends M0 b0;
        (M2, b2, res) \<leftarrow> insert_all M1 b1 other allocs;
        (case res of
           Inr u \<Rightarrow> Some (M2, Inr b2)
         | Inl ex \<Rightarrow> do { (M3, b3) \<leftarrow> erase_all M2 b2; Some (M3, Inl ex) })
      })"

subsection \<open>Moving\<close>

text \<open>
  \<open>treap_storage::swap\<close> swaps the comparators and the two \<open>end_elem->left\<close>; it dereferences
  both \<open>end_elem\<close>.
\<close>

definition treap_storage_swap ::
  "'k treap \<Rightarrow> 'k treap \<Rightarrow> nodes \<Rightarrow> ('k treap \<times> 'k treap \<times> nodes) option" where
  "treap_storage_swap this other H =
     do {
       e1 \<leftarrow> end_elem this;
       e2 \<leftarrow> end_elem other;
       let tmp = left (H e1);
       let H1 = assign_left H e1 (left (H e2));
       let H2 = assign_left H1 e2 tmp;
       Some (this\<lparr>cmp := cmp other\<rparr>, other\<lparr>cmp := cmp this\<rparr>, H2)
     }"

text \<open>
  \<open>treap(treap &&other)\<close> move-constructs the storage, and the move constructor of
  \<open>treap_storage\<close> is \<open>{ swap(other); }\<close> on a storage whose comparator is default-constructed
  (\<open>default_comparator\<close>) and whose \<open>end_elem\<close> has its default member initialiser \<open>nullptr\<close>.
\<close>

definition treap_move_ctor ::
  "('k \<Rightarrow> 'k \<Rightarrow> bool) \<Rightarrow> 'k treap \<Rightarrow> nodes \<Rightarrow> ('k treap \<times> 'k treap \<times> nodes) option" where
  "treap_move_ctor default_comparator other H =
     treap_storage_swap \<lparr>cmp = default_comparator, end_elem = None\<rparr> other H"

definition bimap_move_ctor ::
  "('l, 'r) memory \<Rightarrow> ('l, 'r) bimap \<Rightarrow> addr \<Rightarrow> ('l \<Rightarrow> 'l \<Rightarrow> bool) \<Rightarrow> ('r \<Rightarrow> 'r \<Rightarrow> bool) \<Rightarrow>
     int \<times> int \<Rightarrow> (('l, 'r) memory \<times> ('l, 'r) bimap \<times> ('l, 'r) bimap) option" where
  "bimap_move_ctor M other e default_left default_right ps =
     do {
       (tl, otl, HL) \<leftarrow> treap_move_ctor default_left (treap_left other) (nodes_left M);
       (tr, otr, HR) \<leftarrow> treap_move_ctor default_right (treap_right other) (nodes_right M);
       let M1 = M\<lparr>nodes_left := HL(e := node_tree_init (fst ps)),
                  nodes_right := HR(e := node_tree_init (snd ps))\<rparr>;
       let this = \<lparr>treap_left = tl, treap_right = tr, size_m = size_m other, end_node = e\<rparr>;
       let other1 = other\<lparr>treap_left := otl, treap_right := otr\<rparr>;
       (M2, this2) \<leftarrow> validate_ends M1 this;
       (M3, other3) \<leftarrow> validate_ends M2 other1;
       Some (M3, this2, other3)
     }"

text \<open>
  The move assignment: \<open>treap::operator=(treap &&)\<close> is \<open>storage.swap(other.storage)\<close> for
  both treaps, then the sizes are swapped.
\<close>

definition bimap_move_assign ::
  "('l, 'r) memory \<Rightarrow> ('l, 'r) bimap \<Rightarrow> ('l, 'r) bimap \<Rightarrow>
     (('l, 'r) memory \<times> ('l, 'r) bimap \<times> ('l, 'r) bimap) option" where
  "bimap_move_assign M this other =
     do {
       (tl, otl, HL) \<leftarrow> treap_storage_swap (treap_left this) (treap_left other) (nodes_left M);
       (tr, otr, HR) \<leftarrow> treap_storage_swap (treap_right this) (treap_right other) (nodes_right M);
       Some (M\<lparr>nodes_left := HL, nodes_right := HR\<rparr>,
             this\<lparr>treap_left := tl, treap_right := tr, size_m := size_m other\<rparr>,
             other\<lparr>treap_left := otl, treap_right := otr, size_m := size_m this\<rparr>)
     }"

text \<open>The destructor is \<open>erase_all()\<close>.\<close>

definition bimap_dtor :: "('l, 'r) memory \<Rightarrow> ('l, 'r) bimap \<Rightarrow> ('l, 'r) memory option" where
  "bimap_dtor M b = map_option fst (erase_all M b)"

text \<open>
  The copy assignment: nothing for \<open>&other == this\<close> (two objects are the same object when
  their end nodes have the same address); otherwise the copy \<open>copied\<close> is constructed (at
  \<open>e\<close>), move-assigned to \<open>this\<close>, and destroyed at the end of the function.
\<close>

definition bimap_copy_assign ::
  "('l, 'r) memory \<Rightarrow> ('l, 'r) bimap \<Rightarrow> ('l, 'r) bimap \<Rightarrow> addr \<Rightarrow> int \<times> int \<Rightarrow> alloc list \<Rightarrow>
     (('l, 'r) memory \<times> ('l, 'r) bimap \<times> (exn + unit)) option" where
  "bimap_copy_assign M this other e ps allocs =
     (if end_node other = end_node this then Some (M, this, Inr ())
      else
        do {
          (M1, res) \<leftarrow> bimap_copy_ctor M other e ps allocs;
          (case res of
             Inl ex \<Rightarrow> Some (M1, this, Inl ex)
           | Inr copied \<Rightarrow>
               do {
                 (M2, this2, copied2) \<leftarrow> bimap_move_assign M1 this copied;
                 M3 \<leftarrow> bimap_dtor M2 copied2;
                 Some (M3, this2, Inr ())
               })
        })"

fun split_shape :: "(addr \<Rightarrow> bool) \<Rightarrow> addr tree \<Rightarrow> addr tree \<times> addr tree" where
  "split_shape lt Leaf = (Leaf, Leaf)"
| "split_shape lt (Node l a r) =
     (if lt a then (let (r1, r2) = split_shape lt r in (Node l a r1, r2))
      else (let (l1, l2) = split_shape lt l in (l1, Node l2 a r)))"

definition child_ok :: "nodes \<Rightarrow> addr \<Rightarrow> ptr \<Rightarrow> bool" where
  "child_ok H a c = (case c of None \<Rightarrow> True | Some x \<Rightarrow> parent (H x) = Some a)"

fun tree_at :: "nodes \<Rightarrow> ptr \<Rightarrow> addr tree \<Rightarrow> bool" where
  "tree_at H p Leaf = (p = None)"
| "tree_at H p (Node l a r) =
     (p = Some a \<and> child_ok H a (left (H a)) \<and> child_ok H a (right (H a)) \<and>
      tree_at H (left (H a)) l \<and> tree_at H (right (H a)) r)"

definition same_outside :: "nodes \<Rightarrow> nodes \<Rightarrow> addr set \<Rightarrow> bool" where
  "same_outside H H' S = (\<forall>a. a \<notin> S \<longrightarrow> H' a = H a)"

definition same_prio :: "nodes \<Rightarrow> nodes \<Rightarrow> bool" where
  "same_prio H H' = (\<forall>a. priority (H' a) = priority (H a))"

fun root_of :: "addr tree \<Rightarrow> ptr" where
  "root_of Leaf = None"
| "root_of (Node l a r) = Some a"

fun merge_shape :: "(addr \<Rightarrow> int) \<Rightarrow> addr tree \<Rightarrow> addr tree \<Rightarrow> addr tree" where
  "merge_shape pr t1 Leaf = t1"
| "merge_shape pr Leaf (Node l2 a2 r2) = Node l2 a2 r2"
| "merge_shape pr (Node l1 a1 r1) (Node l2 a2 r2) =
     (if pr a1 > pr a2 then Node l1 a1 (merge_shape pr r1 (Node l2 a2 r2))
      else Node (merge_shape pr (Node l1 a1 r1) l2) a2 r2)"

fun insert_shape :: "(addr \<Rightarrow> int) \<Rightarrow> (addr \<Rightarrow> addr \<Rightarrow> bool) \<Rightarrow> addr tree \<Rightarrow> addr \<Rightarrow> addr tree" where
  "insert_shape pr lt Leaf n = Node Leaf n Leaf"
| "insert_shape pr lt (Node l a r) n =
     (if pr n > pr a then (let (t1, t2) = split_shape (\<lambda>x. lt x n) (Node l a r) in Node t1 n t2)
      else if lt n a then Node (insert_shape pr lt l n) a r
      else Node l a (insert_shape pr lt r n))"

definition keys_ok :: "(addr \<Rightarrow> 'k option) \<Rightarrow> (addr \<Rightarrow> 'k) \<Rightarrow> addr set \<Rightarrow> bool" where
  "keys_ok getter k S = (\<forall>a\<in>S. getter a = Some (k a))"

definition first_or :: "addr list \<Rightarrow> ptr \<Rightarrow> ptr" where
  "first_or xs d = (case xs of [] \<Rightarrow> d | x # _ \<Rightarrow> Some x)"

fun remove_shape :: "(addr \<Rightarrow> int) \<Rightarrow> addr \<Rightarrow> addr tree \<Rightarrow> addr tree" where
  "remove_shape pr a Leaf = Leaf"
| "remove_shape pr a (Node l x r) =
     (if x = a then merge_shape pr l r else Node (remove_shape pr a l) x (remove_shape pr a r))"

definition treap_wf :: "nodes \<Rightarrow> addr \<Rightarrow> addr tree \<Rightarrow> bool" where
  "treap_wf H e t =
     (tree_at H (Some e) (Node t e Leaf) \<and> parent (H e) = None \<and> distinct (inorder t) \<and>
      e \<notin> set_tree t)"

fun heap_ordered :: "(addr \<Rightarrow> int) \<Rightarrow> addr tree \<Rightarrow> bool" where
  "heap_ordered pr Leaf = True"
| "heap_ordered pr (Node l a r) =
     (heap_ordered pr l \<and> heap_ordered pr r \<and> (\<forall>x\<in>set_tree l \<union> set_tree r. pr x \<le> pr a))"

definition equiv_key :: "('k \<Rightarrow> 'k \<Rightarrow> bool) \<Rightarrow> 'k \<Rightarrow> 'k \<Rightarrow> bool" where
  "equiv_key c x y = (\<not> c x y \<and> \<not> c y x)"

definition treap_inv :: "'k treap \<Rightarrow> (addr \<Rightarrow> 'k option) \<Rightarrow> nodes \<Rightarrow> addr \<Rightarrow> addr tree \<Rightarrow> bool" where
  "treap_inv T getter H e W =
     (end_elem T = Some e \<and> treap_wf H e W \<and> getter e = None \<and>
      (\<forall>a\<in>set_tree W. getter a \<noteq> None) \<and>
      sorted_wrt (\<lambda>x y. cmp T (the (getter x)) (the (getter y))) (inorder W) \<and>
      heap_ordered (\<lambda>a. priority (H a)) W \<and> irreflp (cmp T) \<and> transp (cmp T))"

definition bimap_inv ::
  "('l, 'r) memory \<Rightarrow> ('l, 'r) bimap \<Rightarrow> addr tree \<Rightarrow> addr tree \<Rightarrow> bool" where
  "bimap_inv M b TL TR =
     (treap_inv (treap_left b) (key_left M) (nodes_left M) (end_node b) TL \<and>
      treap_inv (treap_right b) (key_right M) (nodes_right M) (end_node b) TR \<and>
      set_tree TR = set_tree TL \<and> size_m b = length (inorder TL))"

definition dup_left :: "('l, 'r) memory \<Rightarrow> ('l, 'r) bimap \<Rightarrow> addr list \<Rightarrow> 'l \<Rightarrow> bool" where
  "dup_left M b xs l = (\<exists>x\<in>set xs. equiv_key (cmp (treap_left b)) (the (key_left M x)) l)"

definition dup_right :: "('l, 'r) memory \<Rightarrow> ('l, 'r) bimap \<Rightarrow> addr list \<Rightarrow> 'r \<Rightarrow> bool" where
  "dup_right M b xs r = (\<exists>x\<in>set xs. equiv_key (cmp (treap_right b)) (the (key_right M x)) r)"

definition strict_weak_order :: "('k \<Rightarrow> 'k \<Rightarrow> bool) \<Rightarrow> bool" where
  "strict_weak_order c =
     (irreflp c \<and> transp c \<and> (\<forall>x y z. equiv_key c x y \<longrightarrow> equiv_key c y z \<longrightarrow> equiv_key c x z))"

definition fresh :: "('l, 'r) memory \<Rightarrow> ('l, 'r) bimap \<Rightarrow> alloc \<Rightarrow> bool" where
  "fresh M b alloc =
     (case alloc of
        None \<Rightarrow> True
      | Some (a, pl, pr) \<Rightarrow> a \<noteq> end_node b \<and> key_left M a = None \<and> key_right M a = None)"

definition same_at :: "('l, 'r) memory \<Rightarrow> ('l, 'r) memory \<Rightarrow> addr \<Rightarrow> bool" where
  "same_at M M' x =
     (nodes_left M' x = nodes_left M x \<and> nodes_right M' x = nodes_right M x \<and>
      key_left M' x = key_left M x \<and> key_right M' x = key_right M x)"

definition step_ok ::
  "('l, 'r) memory \<Rightarrow> ('l, 'r) bimap \<Rightarrow> ('l, 'r) memory \<Rightarrow> ('l, 'r) bimap \<Rightarrow> bool" where
  "step_ok M b M' b' =
     ((\<exists>TL TR. bimap_inv M' b' TL TR) \<and> treap_left b' = treap_left b \<and>
      treap_right b' = treap_right b \<and> end_node b' = end_node b)"

text \<open>
  The states in which an object is well formed.  \<open>reachable M b\<close> holds of the object \<open>b\<close> in the
  memory \<open>M\<close> when \<open>b\<close> was built by the constructor and then changed only by \<open>insert\<close>, the
  \<open>erase\<close> functions (with a cursor of the object's own view) and \<open>at_or_default\<close>, while the
  rest of the program left the nodes of \<open>b\<close> alone.  There is no rule for copying or moving: the
  move constructor never completes, and the move assignment, which the copy assignment runs,
  can leave an object that is not well formed.  They are evaluated on concrete objects at the
  end of this theory.
\<close>

inductive reachable :: "('l, 'r) memory \<Rightarrow> ('l, 'r) bimap \<Rightarrow> bool" where
  r_ctor:
    "strict_weak_order compare_left \<Longrightarrow> strict_weak_order compare_right \<Longrightarrow>
     key_left M e = None \<Longrightarrow> key_right M e = None \<Longrightarrow>
     bimap_ctor M e compare_left compare_right ps = Some (M', b) \<Longrightarrow> reachable M' b"
| r_insert:
    "reachable M b \<Longrightarrow> fresh M b alloc \<Longrightarrow>
     bimap_insert M b l r alloc = Some (M', b', res) \<Longrightarrow> reachable M' b'"
| r_erase_left:
    "reachable M b \<Longrightarrow> left_view M b = Some xs \<Longrightarrow> a \<in> set xs \<Longrightarrow>
     erase_left M b (Some a) = Some (M', b', it) \<Longrightarrow> reachable M' b'"
| r_erase_right:
    "reachable M b \<Longrightarrow> right_view M b = Some xs \<Longrightarrow> a \<in> set xs \<Longrightarrow>
     erase_right M b (Some a) = Some (M', b', it) \<Longrightarrow> reachable M' b'"
| r_erase_left_key:
    "reachable M b \<Longrightarrow> erase_left_key M b l = Some (M', b', removed) \<Longrightarrow> reachable M' b'"
| r_erase_right_key:
    "reachable M b \<Longrightarrow> erase_right_key M b r = Some (M', b', removed) \<Longrightarrow> reachable M' b'"
| r_erase_left_range:
    "reachable M b \<Longrightarrow> left_view M b = Some (xs @ ys @ zs) \<Longrightarrow>
     erase_left_range M b (first_or (ys @ zs) (end_left b)) (first_or zs (end_left b)) =
       Some (M', b', it) \<Longrightarrow> reachable M' b'"
| r_erase_right_range:
    "reachable M b \<Longrightarrow> right_view M b = Some (xs @ ys @ zs) \<Longrightarrow>
     erase_right_range M b (first_or (ys @ zs) (end_right b)) (first_or zs (end_right b)) =
       Some (M', b', it) \<Longrightarrow> reachable M' b'"
| r_at_left_or_default:
    "reachable M b \<Longrightarrow> fresh M b alloc \<Longrightarrow>
     at_left_or_default M b l val alloc = Some (M', b', v) \<Longrightarrow> reachable M' b'"
| r_at_right_or_default:
    "reachable M b \<Longrightarrow> fresh M b alloc \<Longrightarrow>
     at_right_or_default M b r val' alloc = Some (M', b', v') \<Longrightarrow> reachable M' b'"
| r_frame:
    "reachable M b \<Longrightarrow> left_view M b = Some xs \<Longrightarrow>
     \<forall>x\<in>insert (end_node b) (set xs). same_at M M' x \<Longrightarrow> reachable M' b"

definition bimap_valid :: "('l, 'r) memory \<Rightarrow> ('l, 'r) bimap \<Rightarrow> bool" where
  "bimap_valid M b =
     ((\<exists>TL TR. bimap_inv M b TL TR) \<and> strict_weak_order (cmp (treap_left b)) \<and>
      strict_weak_order (cmp (treap_right b)))"

definition pair_at :: "('l, 'r) memory \<Rightarrow> addr \<Rightarrow> ('l \<times> 'r) option" where
  "pair_at M a =
     do { l \<leftarrow> deref_left M (Some a); r \<leftarrow> deref_right M (flip (Some a)); Some (l, r) }"

definition left_entries :: "('l, 'r) memory \<Rightarrow> ('l, 'r) bimap \<Rightarrow> ('l \<times> 'r) list option" where
  "left_entries M b = do { xs \<leftarrow> left_view M b; those (map (pair_at M) xs) }"

definition mem0 :: "(int, int) memory" where
  "mem0 = \<lparr>nodes_left = (\<lambda>a. node_tree_init 0), nodes_right = (\<lambda>a. node_tree_init 0),
           key_left = (\<lambda>a. None), key_right = (\<lambda>a. None)\<rparr>"

definition new_bimap :: "(int, int) memory \<times> (int, int) bimap" where
  "new_bimap = the (bimap_ctor mem0 0 (<) (<) (11, 12))"

definition do_insert ::
  "('l, 'r) memory \<times> ('l, 'r) bimap \<Rightarrow> 'l \<Rightarrow> 'r \<Rightarrow> addr \<times> int \<times> int \<Rightarrow>
     ('l, 'r) memory \<times> ('l, 'r) bimap" where
  "do_insert s l r al =
     (case bimap_insert (fst s) (snd s) l r (Some al) of
        None \<Rightarrow> s
      | Some (M, b, res) \<Rightarrow> (M, b))"

definition example43 :: "(int, int) memory \<times> (int, int) bimap" where
  "example43 = do_insert new_bimap 4 3 (1, 5, 6)"

definition spec_bound ::
  "('k \<Rightarrow> 'k \<Rightarrow> bool) \<Rightarrow> (addr \<Rightarrow> 'k option) \<Rightarrow> ('k \<Rightarrow> bool) \<Rightarrow> addr list \<Rightarrow> ptr \<Rightarrow> ptr \<Rightarrow> bool"
  where
  "spec_bound c g P xs e res =
     ((res = e \<and> (\<forall>a\<in>set xs. \<not> P (the (g a)))) \<or>
      (\<exists>a\<in>set xs. res = Some a \<and> P (the (g a)) \<and>
         (\<forall>a'\<in>set xs. P (the (g a')) \<longrightarrow> a' = a \<or> c (the (g a)) (the (g a')))))"

definition example5 :: "(int, int) memory \<times> (int, int) bimap" where
  "example5 =
     do_insert (do_insert (do_insert (do_insert (do_insert new_bimap
       1 2 (1, 3, 4)) 2 3 (2, 7, 1)) 3 4 (3, 5, 9)) 8 16 (4, 2, 8)) 32 66 (5, 6, 0)"

definition ok_int :: "(int, int) memory \<times> (int, int) bimap \<Rightarrow> bool" where
  "ok_int s =
     (reachable (fst s) (snd s) \<and> cmp (treap_left (snd s)) = (<) \<and>
      cmp (treap_right (snd s)) = (<))"

definition right_entries :: "('l, 'r) memory \<Rightarrow> ('l, 'r) bimap \<Rightarrow> ('l \<times> 'r) list option" where
  "right_entries M b = do { ys \<leftarrow> right_view M b; those (map (pair_at M) ys) }"

definition example2 :: "(int, int) memory \<times> (int, int) bimap" where
  "example2 = do_insert (do_insert new_bimap 1 2 (1, 3, 4)) 2 3 (2, 7, 1)"

definition example_default :: "(int, int) memory \<times> (int, int) bimap" where
  "example_default = do_insert example2 5 0 (3, 5, 9)"

definition example_moved ::
  "((int, int) memory \<times> (int, int) bimap \<times> (int, int) bimap) option" where
  "example_moved =
     do {
       (M1, c) \<leftarrow> bimap_ctor (fst example43) 10 (<) (<) (13, 14);
       bimap_move_assign M1 c (snd example43)
     }"

definition example_copy_assigned ::
  "((int, int) memory \<times> (int, int) bimap \<times> (exn + unit)) option" where
  "example_copy_assigned =
     do {
       (M1, c) \<leftarrow> bimap_ctor (fst example43) 10 (<) (<) (13, 14);
       (M2, c2, res) \<leftarrow> bimap_insert M1 c 7 8 (Some (11, 2, 3));
       bimap_copy_assign M2 c2 (snd example43) 20 (23, 24) [Some (21, 5, 5)]
     }"

definition example_copy_assigned_empty ::
  "((int, int) memory \<times> (int, int) bimap \<times> (exn + unit)) option" where
  "example_copy_assigned_empty =
     do {
       (M1, c) \<leftarrow> bimap_ctor (fst example43) 10 (<) (<) (13, 14);
       bimap_copy_assign M1 c (snd example43) 20 (23, 24) [Some (21, 5, 5)]
     }"

definition do_ctor ::
  "(int, int) memory \<Rightarrow> addr \<Rightarrow> int \<times> int \<Rightarrow> (int, int) memory \<times> (int, int) bimap" where
  "do_ctor M e ps = the (bimap_ctor M e (<) (<) ps)"

definition example_second :: "(int, int) memory \<times> (int, int) bimap" where
  "example_second =
     do_insert (do_insert (do_ctor (fst example2) 10 (13, 14)) 2 3 (11, 1, 9)) 1 2 (12, 9, 1)"

fun bst_wrt :: "('k \<Rightarrow> 'k \<Rightarrow> bool) \<Rightarrow> (addr \<Rightarrow> 'k) \<Rightarrow> addr tree \<Rightarrow> bool" where
  "bst_wrt c k Leaf = True"
| "bst_wrt c k (Node l a r) =
     (bst_wrt c k l \<and> bst_wrt c k r \<and> (\<forall>x\<in>set_tree l. c (k x) (k a)) \<and>
      (\<forall>x\<in>set_tree r. c (k a) (k x)))"

fun children_below :: "(addr \<Rightarrow> int) \<Rightarrow> addr tree \<Rightarrow> bool" where
  "children_below pr Leaf = True"
| "children_below pr (Node l a r) =
     (children_below pr l \<and> children_below pr r \<and>
      (case l of Leaf \<Rightarrow> True | Node _ x _ \<Rightarrow> pr x \<le> pr a) \<and>
      (case r of Leaf \<Rightarrow> True | Node _ x _ \<Rightarrow> pr x \<le> pr a))"

definition example50_moved ::
  "((int, int) memory \<times> (int, int) bimap \<times> (int, int) bimap) option" where
  "example50_moved =
     do {
       (M1, c) \<leftarrow> bimap_ctor (fst (do_insert new_bimap 5 0 (1, 5, 6))) 10 (<) (<) (13, 14);
       bimap_move_assign M1 c (snd (do_insert new_bimap 5 0 (1, 5, 6)))
     }"

declare next_climb.simps [code]
declare descend_left.simps [code]
declare treap_split.simps [code]
declare treap_merge.simps [code]
declare treap_insert.simps [code]
declare treap_find_from.simps [code]
declare lower_bound_loop.simps [code]
declare upper_bound_loop.simps [code]
declare erase_left_range.simps [code]
declare erase_right_range.simps [code]
declare iterate.simps [code]
declare equal_loop.simps [code]
declare insert_all_loop.simps [code]

lemma tree_at_None [simp]: "tree_at H None t = (t = Leaf)"
  by (cases t) auto

lemma tree_at_Some: "tree_at H (Some a) t \<Longrightarrow> \<exists>l r. t = Node l a r"
  by (cases t) auto

lemma tree_at_root_in: "tree_at H (Some a) t \<Longrightarrow> a \<in> set_tree t"
  by (cases t) auto

lemma tree_at_cong:
  assumes "tree_at H p t"
    and "\<forall>a\<in>set_tree t. left (H' a) = left (H a) \<and> right (H' a) = right (H a)"
    and "\<forall>a\<in>set_tree t. Some a \<noteq> p \<longrightarrow> parent (H' a) = parent (H a)"
    and "distinct (inorder t)"
  shows "tree_at H' p t"
  using assms
proof (induction t arbitrary: p)
  case Leaf
  then show ?case by simp
next
  case (Node l a r)
  from Node.prems(1) have p: "p = Some a" and cl: "child_ok H a (left (H a))"
    and cr: "child_ok H a (right (H a))" and tl: "tree_at H (left (H a)) l"
    and tr: "tree_at H (right (H a)) r" by auto
  have al: "a \<notin> set_tree l" and ar: "a \<notin> set_tree r" using Node.prems(4) by auto
  have la: "left (H' a) = left (H a)" and ra: "right (H' a) = right (H a)"
    using Node.prems(2) by auto
  have "tree_at H' (left (H a)) l"
  proof (rule Node.IH(1)[OF tl])
    show "\<forall>a\<in>set_tree l. left (H' a) = left (H a) \<and> right (H' a) = right (H a)"
      using Node.prems(2) by simp
    show "\<forall>x\<in>set_tree l. Some x \<noteq> left (H a) \<longrightarrow> parent (H' x) = parent (H x)"
      using Node.prems(3) p al by auto
    show "distinct (inorder l)" using Node.prems(4) by simp
  qed
  moreover have "tree_at H' (right (H a)) r"
  proof (rule Node.IH(2)[OF tr])
    show "\<forall>a\<in>set_tree r. left (H' a) = left (H a) \<and> right (H' a) = right (H a)"
      using Node.prems(2) by simp
    show "\<forall>x\<in>set_tree r. Some x \<noteq> right (H a) \<longrightarrow> parent (H' x) = parent (H x)"
      using Node.prems(3) p ar by auto
    show "distinct (inorder r)" using Node.prems(4) by simp
  qed
  moreover have "child_ok H' a (left (H a))"
  proof (cases "left (H a)")
    case None then show ?thesis by (simp add: child_ok_def)
  next
    case (Some c)
    with tl have "c \<in> set_tree l" by (auto dest: tree_at_root_in)
    with al have "c \<noteq> a" by auto
    with Node.prems(3) p \<open>c \<in> set_tree l\<close> have "parent (H' c) = parent (H c)" by auto
    with cl Some show ?thesis by (simp add: child_ok_def)
  qed
  moreover have "child_ok H' a (right (H a))"
  proof (cases "right (H a)")
    case None then show ?thesis by (simp add: child_ok_def)
  next
    case (Some c)
    with tr have "c \<in> set_tree r" by (auto dest: tree_at_root_in)
    with ar have "c \<noteq> a" by auto
    with Node.prems(3) p \<open>c \<in> set_tree r\<close> have "parent (H' c) = parent (H c)" by auto
    with cr Some show ?thesis by (simp add: child_ok_def)
  qed
  ultimately show ?case using p la ra by simp
qed

lemma split_shape_inorder:
  "split_shape lt t = (t1, t2) \<Longrightarrow> inorder t1 @ inorder t2 = inorder t"
  by (induction t arbitrary: t1 t2) (auto split: if_splits prod.splits)

lemma split_shape_set:
  "split_shape lt t = (t1, t2) \<Longrightarrow> set_tree t1 \<union> set_tree t2 = set_tree t"
  using split_shape_inorder[of lt t t1 t2] by (metis set_append set_inorder)

lemma tree_at_root_of: "tree_at H p t \<Longrightarrow> p = root_of t"
  by (cases t) auto

lemma root_of_in: "root_of t = Some a \<Longrightarrow> a \<in> set_tree t"
  by (cases t) auto

lemma child_ok_None [simp]: "child_ok H a None"
  by (simp add: child_ok_def)

lemma child_ok_Some [simp]: "child_ok H a (Some c) = (parent (H c) = Some a)"
  by (simp add: child_ok_def)

lemma treap_split_tree:
  assumes "tree_at H p t" and "distinct (inorder t)"
    and "\<forall>a\<in>set_tree t. getter a = Some (k a)"
    and "split_shape (\<lambda>a. c (k a) key) t = (t1, t2)"
  shows "\<exists>H'. treap_split c getter H p key = Some (H', root_of t1, root_of t2) \<and>
           tree_at H' (root_of t1) t1 \<and> tree_at H' (root_of t2) t2 \<and>
           same_outside H H' (set_tree t) \<and> same_prio H H'"
  using assms
proof (induction t arbitrary: H p t1 t2)
  case Leaf
  then show ?case
    by (simp add: treap_split.simps same_outside_def same_prio_def)
next
  case (Node l a r)
  from Node.prems(1) have p: "p = Some a" and cl: "child_ok H a (left (H a))"
    and cr: "child_ok H a (right (H a))" and tl: "tree_at H (left (H a)) l"
    and tr: "tree_at H (right (H a)) r" by auto
  have al: "a \<notin> set_tree l" and ar: "a \<notin> set_tree r"
    and dl: "distinct (inorder l)" and dr: "distinct (inorder r)"
    and lr: "set_tree l \<inter> set_tree r = {}" using Node.prems(2) by auto
  have ka: "getter a = Some (k a)" using Node.prems(3) by simp
  show ?case
  proof (cases "c (k a) key")
    case True
    obtain r1 r2 where sr: "split_shape (\<lambda>a. c (k a) key) r = (r1, r2)" by fastforce
    with True Node.prems(4) have t1: "t1 = Node l a r1" and t2: "t2 = r2" by auto
    from Node.IH(2)[OF tr dr _ sr] Node.prems(3)
    obtain H1 where s1: "treap_split c getter H (right (H a)) key = Some (H1, root_of r1, root_of r2)"
      and tr1: "tree_at H1 (root_of r1) r1" and tr2: "tree_at H1 (root_of r2) r2"
      and so: "same_outside H H1 (set_tree r)" and sp: "same_prio H H1" by auto
    have sets: "set_tree r1 \<union> set_tree r2 = set_tree r" and
      io: "inorder r1 @ inorder r2 = inorder r"
      using split_shape_set[OF sr] split_shape_inorder[OF sr] by auto
    have d12: "distinct (inorder r1)" "distinct (inorder r2)" "set_tree r1 \<inter> set_tree r2 = {}"
      using dr io by (metis distinct_append set_inorder)+
    define H4 where "H4 = set_parent (set_parent (assign_right H1 a (root_of r1)) (root_of r1) (Some a)) (root_of r2) None"
    have res: "treap_split c getter H p key = Some (H4, Some a, root_of r2)"
      using p ka True s1 by (subst treap_split.simps) (simp add: H4_def)
    have H4_l: "\<forall>x\<in>set_tree l. H4 x = H x"
      using so al lr sets
      by (auto simp: H4_def set_parent_def assign_parent_def assign_right_def same_outside_def
          split: option.splits dest!: root_of_in)
    have ar12: "a \<notin> set_tree r1" "a \<notin> set_tree r2" using ar sets by auto
    have a1: "tree_at H4 (root_of r1) r1"
      by (rule tree_at_cong[OF tr1])
        (use d12 ar12 in \<open>auto simp: H4_def set_parent_def assign_parent_def assign_right_def
          split: option.splits dest!: root_of_in\<close>)
    have a2: "tree_at H4 (root_of r2) r2"
      by (rule tree_at_cong[OF tr2])
        (use d12 ar12 in \<open>auto simp: H4_def set_parent_def assign_parent_def assign_right_def
          split: option.splits dest!: root_of_in\<close>)
    have upd: "left (H4 a) = left (H1 a)" "right (H4 a) = root_of r1"
      "\<And>x. root_of r1 = Some x \<Longrightarrow> parent (H4 x) = Some a"
      using d12(3) ar12
      by (auto simp: H4_def set_parent_def assign_parent_def assign_right_def
          split: option.splits dest!: root_of_in)
    have a3: "tree_at H4 (left (H a)) l"
      by (rule tree_at_cong[OF tl]) (use H4_l dl in auto)
    have H1a: "H1 a = H a" using so ar by (simp add: same_outside_def)
    have a4: "child_ok H4 a (left (H a))"
      using cl H4_l tl by (cases "left (H a)") (auto dest!: tree_at_root_in)
    have "tree_at H4 (Some a) (Node l a r1)"
      using a1 a3 a4 upd H1a by (cases "root_of r1") auto
    moreover have "same_outside H H4 (set_tree (Node l a r))"
      using so sets by (auto simp: H4_def set_parent_def assign_parent_def assign_right_def same_outside_def
          split: option.splits dest!: root_of_in)
    moreover have "same_prio H H4"
      using sp by (auto simp: H4_def set_parent_def assign_parent_def assign_right_def same_prio_def
          split: option.splits)
    ultimately show ?thesis using res a2 t1 t2 by auto
  next
    case False
    obtain l1 l2 where sl: "split_shape (\<lambda>a. c (k a) key) l = (l1, l2)" by fastforce
    with False Node.prems(4) have t1: "t1 = l1" and t2: "t2 = Node l2 a r" by auto
    from Node.IH(1)[OF tl dl _ sl] Node.prems(3)
    obtain H1 where s1: "treap_split c getter H (left (H a)) key = Some (H1, root_of l1, root_of l2)"
      and tl1: "tree_at H1 (root_of l1) l1" and tl2: "tree_at H1 (root_of l2) l2"
      and so: "same_outside H H1 (set_tree l)" and sp: "same_prio H H1" by auto
    have sets: "set_tree l1 \<union> set_tree l2 = set_tree l" and
      io: "inorder l1 @ inorder l2 = inorder l"
      using split_shape_set[OF sl] split_shape_inorder[OF sl] by auto
    have d12: "distinct (inorder l1)" "distinct (inorder l2)" "set_tree l1 \<inter> set_tree l2 = {}"
      using dl io by (metis distinct_append set_inorder)+
    define H4 where "H4 = set_parent (set_parent (assign_left H1 a (root_of l2)) (root_of l2) (Some a)) (root_of l1) None"
    have res: "treap_split c getter H p key = Some (H4, root_of l1, Some a)"
      using p ka False s1 by (subst treap_split.simps) (simp add: H4_def)
    have H4_r: "\<forall>x\<in>set_tree r. H4 x = H x"
      using so ar lr sets
      by (auto simp: H4_def set_parent_def assign_parent_def assign_left_def same_outside_def
          split: option.splits dest!: root_of_in)
    have al12: "a \<notin> set_tree l1" "a \<notin> set_tree l2" using al sets by auto
    have a1: "tree_at H4 (root_of l1) l1"
      by (rule tree_at_cong[OF tl1])
        (use d12 al12 in \<open>auto simp: H4_def set_parent_def assign_parent_def assign_left_def
          split: option.splits dest!: root_of_in\<close>)
    have a2: "tree_at H4 (root_of l2) l2"
      by (rule tree_at_cong[OF tl2])
        (use d12 al12 in \<open>auto simp: H4_def set_parent_def assign_parent_def assign_left_def
          split: option.splits dest!: root_of_in\<close>)
    have upd: "right (H4 a) = right (H1 a)" "left (H4 a) = root_of l2"
      "\<And>x. root_of l2 = Some x \<Longrightarrow> parent (H4 x) = Some a"
      using d12(3) al12
      by (auto simp: H4_def set_parent_def assign_parent_def assign_left_def
          split: option.splits dest!: root_of_in)
    have a3: "tree_at H4 (right (H a)) r"
      by (rule tree_at_cong[OF tr]) (use H4_r dr in auto)
    have H1a: "H1 a = H a" using so al by (simp add: same_outside_def)
    have a4: "child_ok H4 a (right (H a))"
      using cr H4_r tr by (cases "right (H a)") (auto dest!: tree_at_root_in)
    have "tree_at H4 (Some a) (Node l2 a r)"
      using a2 a3 a4 upd H1a by (cases "root_of l2") auto
    moreover have "same_outside H H4 (set_tree (Node l a r))"
      using so sets by (auto simp: H4_def set_parent_def assign_parent_def assign_left_def same_outside_def
          split: option.splits dest!: root_of_in)
    moreover have "same_prio H H4"
      using sp by (auto simp: H4_def set_parent_def assign_parent_def assign_left_def same_prio_def
          split: option.splits)
    ultimately show ?thesis using res a1 t1 t2 by auto
  qed
qed

lemma merge_shape_inorder: "inorder (merge_shape pr t1 t2) = inorder t1 @ inorder t2"
  by (induction pr t1 t2 rule: merge_shape.induct) auto

lemma merge_shape_set: "set_tree (merge_shape pr t1 t2) = set_tree t1 \<union> set_tree t2"
  using merge_shape_inorder[of pr t1 t2] by (metis set_append set_inorder)

lemma treap_merge_tree:
  assumes "tree_at H p1 t1" and "tree_at H p2 t2"
    and "distinct (inorder t1 @ inorder t2)"
    and "\<forall>a. pr a = priority (H a)"
  shows "\<exists>H'. treap_merge H p1 p2 = Some (H', root_of (merge_shape pr t1 t2)) \<and>
           tree_at H' (root_of (merge_shape pr t1 t2)) (merge_shape pr t1 t2) \<and>
           same_outside H H' (set_tree t1 \<union> set_tree t2) \<and> same_prio H H'"
  using assms
proof (induction pr t1 t2 arbitrary: H p1 p2 rule: merge_shape.induct)
  case (1 pr t1)
  then show ?case
    by (auto simp: treap_merge.simps same_outside_def same_prio_def dest: tree_at_root_of)
next
  case (2 pr l2 a2 r2)
  then show ?case
    by (auto simp: treap_merge.simps same_outside_def same_prio_def)
next
  case (3 pr l1 a1 r1 l2 a2 r2)
  let ?T1 = "Node l1 a1 r1" and ?T2 = "Node l2 a2 r2"
  from "3.prems"(1) have p1: "p1 = Some a1" and cl1: "child_ok H a1 (left (H a1))"
    and tl1: "tree_at H (left (H a1)) l1" and tr1: "tree_at H (right (H a1)) r1" by auto
  from "3.prems"(2) have p2: "p2 = Some a2" and cr2: "child_ok H a2 (right (H a2))"
    and tl2: "tree_at H (left (H a2)) l2" and tr2: "tree_at H (right (H a2)) r2" by auto
  have pr: "pr a1 = priority (H a1)" "pr a2 = priority (H a2)" using "3.prems"(4) by auto
  show ?case
  proof (cases "pr a1 > pr a2")
    case True
    let ?m = "merge_shape pr r1 ?T2"
    have d: "distinct (inorder r1 @ inorder ?T2)" using "3.prems"(3) by auto
    from "3.IH"(1)[OF True tr1 "3.prems"(2) d "3.prems"(4)]
    obtain H1 where m1: "treap_merge H (right (H a1)) p2 = Some (H1, root_of ?m)"
      and tm: "tree_at H1 (root_of ?m) ?m"
      and so: "same_outside H H1 (set_tree r1 \<union> set_tree ?T2)" and sp: "same_prio H H1" by auto
    define H3 where "H3 = set_parent (assign_right H1 a1 (root_of ?m)) (root_of ?m) (Some a1)"
    have res: "treap_merge H p1 p2 = Some (H3, Some a1)"
      using p1 p2 True pr m1
      by (subst treap_merge.simps) (simp add: H3_def assign_right_def)
    have sm: "set_tree ?m = set_tree r1 \<union> set_tree ?T2" by (rule merge_shape_set)
    have dm: "distinct (inorder ?m)" using d by (simp add: merge_shape_inorder)
    have a1m: "a1 \<notin> set_tree ?m" and a1l: "a1 \<notin> set_tree l1"
      and l1m: "set_tree l1 \<inter> set_tree ?m = {}"
      using "3.prems"(3) sm by auto
    have H3_l: "\<forall>x\<in>set_tree l1. H3 x = H x"
      using so a1l l1m sm
      by (auto simp: H3_def set_parent_def assign_parent_def assign_right_def same_outside_def
          split: option.splits dest!: root_of_in)
    have b1: "tree_at H3 (root_of ?m) ?m"
      by (rule tree_at_cong[OF tm])
        (use dm a1m in \<open>auto simp: H3_def set_parent_def assign_parent_def assign_right_def
          split: option.splits dest!: root_of_in\<close>)
    have upd: "left (H3 a1) = left (H1 a1)" "right (H3 a1) = root_of ?m"
      "\<And>x. root_of ?m = Some x \<Longrightarrow> parent (H3 x) = Some a1"
      using a1m
      by (auto simp: H3_def set_parent_def assign_parent_def assign_right_def
          split: option.splits dest!: root_of_in)
    have b3: "tree_at H3 (left (H a1)) l1"
      by (rule tree_at_cong[OF tl1]) (use H3_l "3.prems"(3) in auto)
    have H1a: "H1 a1 = H a1" using so "3.prems"(3) by (simp add: same_outside_def)
    have b4: "child_ok H3 a1 (left (H a1))"
      using cl1 H3_l tl1 by (cases "left (H a1)") (auto dest!: tree_at_root_in)
    have "tree_at H3 (Some a1) (Node l1 a1 ?m)"
      using b1 b3 b4 upd H1a by (cases "root_of ?m") auto
    moreover have "same_outside H H3 (set_tree ?T1 \<union> set_tree ?T2)"
      using so sm by (auto simp: H3_def set_parent_def assign_parent_def assign_right_def same_outside_def
          split: option.splits dest!: root_of_in)
    moreover have "same_prio H H3"
      using sp by (auto simp: H3_def set_parent_def assign_parent_def assign_right_def same_prio_def
          split: option.splits)
    ultimately show ?thesis using res True by auto
  next
    case False
    let ?m = "merge_shape pr ?T1 l2"
    have d: "distinct (inorder ?T1 @ inorder l2)" using "3.prems"(3) by auto
    from "3.IH"(2)[OF False "3.prems"(1) tl2 d "3.prems"(4)]
    obtain H1 where m1: "treap_merge H p1 (left (H a2)) = Some (H1, root_of ?m)"
      and tm: "tree_at H1 (root_of ?m) ?m"
      and so: "same_outside H H1 (set_tree ?T1 \<union> set_tree l2)" and sp: "same_prio H H1" by auto
    define H3 where "H3 = set_parent (assign_left H1 a2 (root_of ?m)) (root_of ?m) (Some a2)"
    have res: "treap_merge H p1 p2 = Some (H3, Some a2)"
      using p1 p2 False pr m1
      by (subst treap_merge.simps) (simp add: H3_def assign_left_def)
    have sm: "set_tree ?m = set_tree ?T1 \<union> set_tree l2" by (rule merge_shape_set)
    have dm: "distinct (inorder ?m)" using d by (simp add: merge_shape_inorder)
    have a2m: "a2 \<notin> set_tree ?m" and a2r: "a2 \<notin> set_tree r2"
      and r2m: "set_tree r2 \<inter> set_tree ?m = {}"
      using "3.prems"(3) sm by auto
    have H3_r: "\<forall>x\<in>set_tree r2. H3 x = H x"
      using so a2r r2m sm
      by (auto simp: H3_def set_parent_def assign_parent_def assign_left_def same_outside_def
          split: option.splits dest!: root_of_in)
    have b1: "tree_at H3 (root_of ?m) ?m"
      by (rule tree_at_cong[OF tm])
        (use dm a2m in \<open>auto simp: H3_def set_parent_def assign_parent_def assign_left_def
          split: option.splits dest!: root_of_in\<close>)
    have upd: "right (H3 a2) = right (H1 a2)" "left (H3 a2) = root_of ?m"
      "\<And>x. root_of ?m = Some x \<Longrightarrow> parent (H3 x) = Some a2"
      using a2m
      by (auto simp: H3_def set_parent_def assign_parent_def assign_left_def
          split: option.splits dest!: root_of_in)
    have b3: "tree_at H3 (right (H a2)) r2"
      by (rule tree_at_cong[OF tr2]) (use H3_r "3.prems"(3) in auto)
    have H1a: "H1 a2 = H a2" using so "3.prems"(3) by (simp add: same_outside_def)
    have b4: "child_ok H3 a2 (right (H a2))"
      using cr2 H3_r tr2 by (cases "right (H a2)") (auto dest!: tree_at_root_in)
    have "tree_at H3 (Some a2) (Node ?m a2 r2)"
      using b1 b3 b4 upd H1a by (cases "root_of ?m") auto
    moreover have "same_outside H H3 (set_tree ?T1 \<union> set_tree ?T2)"
      using so sm by (auto simp: H3_def set_parent_def assign_parent_def assign_left_def same_outside_def
          split: option.splits dest!: root_of_in)
    moreover have "same_prio H H3"
      using sp by (auto simp: H3_def set_parent_def assign_parent_def assign_left_def same_prio_def
          split: option.splits)
    ultimately show ?thesis using res False by auto
  qed
qed

lemma insert_shape_inorder:
  "\<exists>xs ys. inorder (insert_shape pr lt t n) = xs @ n # ys \<and> xs @ ys = inorder t"
proof (induction t)
  case Leaf
  then show ?case by simp
next
  case (Node l a r)
  show ?case
  proof (cases "pr n > pr a")
    case True
    obtain t1 t2 where s: "split_shape (\<lambda>x. lt x n) (Node l a r) = (t1, t2)" by fastforce
    from split_shape_inorder[OF s] s True show ?thesis by auto
  next
    case False
    show ?thesis
    proof (cases "lt n a")
      case True
      from Node.IH(1) obtain xs ys where
        "inorder (insert_shape pr lt l n) = xs @ n # ys" "xs @ ys = inorder l" by auto
      then have "inorder (insert_shape pr lt (Node l a r) n) = xs @ n # (ys @ a # inorder r)
          \<and> xs @ (ys @ a # inorder r) = inorder (Node l a r)"
        using True \<open>\<not> pr n > pr a\<close> by auto
      then show ?thesis by blast
    next
      case F: False
      from Node.IH(2) obtain xs ys where
        "inorder (insert_shape pr lt r n) = xs @ n # ys" "xs @ ys = inorder r" by auto
      then have "inorder (insert_shape pr lt (Node l a r) n) = (inorder l @ a # xs) @ n # ys
          \<and> (inorder l @ a # xs) @ ys = inorder (Node l a r)"
        using F \<open>\<not> pr n > pr a\<close> by auto
      then show ?thesis by blast
    qed
  qed
qed

lemma insert_shape_set: "set_tree (insert_shape pr lt t n) = insert n (set_tree t)"
proof -
  from insert_shape_inorder[of pr lt t n] obtain xs ys where
    "inorder (insert_shape pr lt t n) = xs @ n # ys" "xs @ ys = inorder t" by auto
  then have "set (inorder (insert_shape pr lt t n)) = insert n (set (inorder t))"
    by (metis Un_insert_right list.simps(15) set_append)
  then show ?thesis by simp
qed

lemma insert_shape_distinct:
  "distinct (inorder t) \<Longrightarrow> n \<notin> set_tree t \<Longrightarrow> distinct (inorder (insert_shape pr lt t n))"
proof -
  assume d: "distinct (inorder t)" and n: "n \<notin> set_tree t"
  from insert_shape_inorder[of pr lt t n] obtain xs ys where
    i: "inorder (insert_shape pr lt t n) = xs @ n # ys" and x: "xs @ ys = inorder t" by auto
  from d n x have "distinct (xs @ ys)" "n \<notin> set (xs @ ys)" by (simp_all del: set_append)
  then show ?thesis using i by auto
qed

lemma insert_shape_root: "\<exists>l r b. insert_shape pr lt t n = Node l b r"
  by (cases t) (auto split: prod.splits)

lemma treap_insert_tree:
  assumes "tree_at H p t" and "distinct (inorder t)" and "n \<notin> set_tree t"
    and "left (H n) = None" and "right (H n) = None"
    and "\<forall>a\<in>insert n (set_tree t). getter a = Some (k a)"
    and "\<forall>a. pr a = priority (H a)"
  shows "\<exists>H' r. treap_insert c getter H p n = Some (H', r) \<and>
           root_of (insert_shape pr (\<lambda>x y. c (k x) (k y)) t n) = Some r \<and>
           tree_at H' (Some r) (insert_shape pr (\<lambda>x y. c (k x) (k y)) t n) \<and>
           same_outside H H' (insert n (set_tree t)) \<and> same_prio H H'"
  using assms
proof (induction t arbitrary: H p)
  case Leaf
  then show ?case
    by (auto simp: treap_insert.simps same_outside_def same_prio_def)
next
  case (Node l a r)
  let ?lt = "\<lambda>x y. c (k x) (k y)"
  from Node.prems(1) have p: "p = Some a" and cl: "child_ok H a (left (H a))"
    and cr: "child_ok H a (right (H a))" and tl: "tree_at H (left (H a)) l"
    and tr: "tree_at H (right (H a)) r" by auto
  have al: "a \<notin> set_tree l" and ar: "a \<notin> set_tree r"
    and dl: "distinct (inorder l)" and dr: "distinct (inorder r)"
    and lr: "set_tree l \<inter> set_tree r = {}" using Node.prems(2) by auto
  have na: "n \<noteq> a" and nl: "n \<notin> set_tree l" and nr: "n \<notin> set_tree r"
    using Node.prems(3) by auto
  have ka: "getter a = Some (k a)" and kn: "getter n = Some (k n)" using Node.prems(6) by auto
  have pr: "pr n = priority (H n)" "pr a = priority (H a)" using Node.prems(7) by auto
  show ?case
  proof (cases "pr n > pr a")
    case True
    obtain t1 t2 where s: "split_shape (\<lambda>x. c (k x) (k n)) (Node l a r) = (t1, t2)" by fastforce
    have "\<forall>x\<in>set_tree (Node l a r). getter x = Some (k x)" using Node.prems(6) by auto
    from treap_split_tree[where c=c and k=k and key="k n", OF Node.prems(1,2) this s]
    obtain H1 where s1: "treap_split c getter H p (k n) = Some (H1, root_of t1, root_of t2)"
      and tt1: "tree_at H1 (root_of t1) t1" and tt2: "tree_at H1 (root_of t2) t2"
      and so: "same_outside H H1 (set_tree (Node l a r))" and sp: "same_prio H H1" by auto
    have sets: "set_tree t1 \<union> set_tree t2 = set_tree (Node l a r)" and
      io: "inorder t1 @ inorder t2 = inorder (Node l a r)"
      using split_shape_set[OF s] split_shape_inorder[OF s] by auto
    have d12: "distinct (inorder t1)" "distinct (inorder t2)" "set_tree t1 \<inter> set_tree t2 = {}"
      using Node.prems(2) io by (metis distinct_append set_inorder)+
    have n12: "n \<notin> set_tree t1" "n \<notin> set_tree t2" using Node.prems(3) sets by auto
    define H5 where "H5 = set_parent (assign_right (set_parent (assign_left H1 n (root_of t1))
        (root_of t1) (Some n)) n (root_of t2)) (root_of t2) (Some n)"
    have res: "treap_insert c getter H p n = Some (H5, n)"
      using p kn True pr s1 by (subst treap_insert.simps) (simp add: H5_def)
    have b1: "tree_at H5 (root_of t1) t1"
      by (rule tree_at_cong[OF tt1])
        (use d12 n12 in \<open>auto simp: H5_def set_parent_def assign_parent_def assign_left_def
          assign_right_def split: option.splits dest!: root_of_in\<close>)
    have b2: "tree_at H5 (root_of t2) t2"
      by (rule tree_at_cong[OF tt2])
        (use d12 n12 in \<open>auto simp: H5_def set_parent_def assign_parent_def assign_left_def
          assign_right_def split: option.splits dest!: root_of_in\<close>)
    have upd: "left (H5 n) = root_of t1" "right (H5 n) = root_of t2"
      "\<And>x. root_of t1 = Some x \<Longrightarrow> parent (H5 x) = Some n"
      "\<And>x. root_of t2 = Some x \<Longrightarrow> parent (H5 x) = Some n"
      using n12 d12(3)
      by (auto simp: H5_def set_parent_def assign_parent_def assign_left_def assign_right_def
          split: option.splits dest!: root_of_in)
    have "tree_at H5 (Some n) (Node t1 n t2)"
      using b1 b2 upd by (cases "root_of t1"; cases "root_of t2") auto
    moreover have "same_outside H H5 (insert n (set_tree (Node l a r)))"
      using so sets by (auto simp: H5_def set_parent_def assign_parent_def assign_left_def
          assign_right_def same_outside_def split: option.splits dest!: root_of_in)
    moreover have "same_prio H H5"
      using sp by (auto simp: H5_def set_parent_def assign_parent_def assign_left_def
          assign_right_def same_prio_def split: option.splits)
    ultimately show ?thesis using res True s by auto
  next
    case False
    show ?thesis
    proof (cases "c (k n) (k a)")
      case True
      let ?l' = "insert_shape pr ?lt l n"
      from Node.IH(1)[OF tl dl nl Node.prems(4,5) _ Node.prems(7)] Node.prems(6)
      obtain H1 r' where i1: "treap_insert c getter H (left (H a)) n = Some (H1, r')"
        and rr: "root_of ?l' = Some r'" and tl': "tree_at H1 (Some r') ?l'"
        and so: "same_outside H H1 (insert n (set_tree l))" and sp: "same_prio H H1" by auto
      define H3 where "H3 = assign_parent (assign_left H1 a (Some r')) r' (Some a)"
      have res: "treap_insert c getter H p n = Some (H3, a)"
        using p kn ka False True pr i1 by (subst treap_insert.simps) (simp add: H3_def)
      have sl': "set_tree ?l' = insert n (set_tree l)" by (rule insert_shape_set)
      have dl': "distinct (inorder ?l')" using dl nl by (rule insert_shape_distinct)
      have r'in: "r' \<in> insert n (set_tree l)" using rr sl' by (auto dest: root_of_in)
      have al': "a \<notin> set_tree ?l'" using sl' al na by auto
      have H3_r: "\<forall>x\<in>set_tree r. H3 x = H x"
        using so ar lr nr r'in
        by (auto simp: H3_def assign_parent_def assign_left_def same_outside_def)
      have b1: "tree_at H3 (Some r') ?l'"
        by (rule tree_at_cong[OF tl'])
          (use dl' al' in \<open>auto simp: H3_def assign_parent_def assign_left_def\<close>)
      have b3: "tree_at H3 (right (H a)) r"
        by (rule tree_at_cong[OF tr]) (use H3_r dr in auto)
      have H1a: "H1 a = H a" using so al na by (simp add: same_outside_def)
      have b4: "child_ok H3 a (right (H a))"
        using cr H3_r tr by (cases "right (H a)") (auto dest!: tree_at_root_in)
      have upd: "left (H3 a) = Some r'" "right (H3 a) = right (H1 a)" "parent (H3 r') = Some a"
        using al' r'in sl' by (auto simp: H3_def assign_parent_def assign_left_def)
      have "tree_at H3 (Some a) (Node ?l' a r)"
        using b1 b3 b4 upd H1a by auto
      moreover have "same_outside H H3 (insert n (set_tree (Node l a r)))"
        using so r'in by (auto simp: H3_def assign_parent_def assign_left_def same_outside_def)
      moreover have "same_prio H H3"
        using sp by (auto simp: H3_def assign_parent_def assign_left_def same_prio_def)
      ultimately show ?thesis using res False True by auto
    next
      case F: False
      let ?r' = "insert_shape pr ?lt r n"
      from Node.IH(2)[OF tr dr nr Node.prems(4,5) _ Node.prems(7)] Node.prems(6)
      obtain H1 r' where i1: "treap_insert c getter H (right (H a)) n = Some (H1, r')"
        and rr: "root_of ?r' = Some r'" and tr': "tree_at H1 (Some r') ?r'"
        and so: "same_outside H H1 (insert n (set_tree r))" and sp: "same_prio H H1" by auto
      define H3 where "H3 = assign_parent (assign_right H1 a (Some r')) r' (Some a)"
      have res: "treap_insert c getter H p n = Some (H3, a)"
        using p kn ka False F pr i1 by (subst treap_insert.simps) (simp add: H3_def)
      have sr': "set_tree ?r' = insert n (set_tree r)" by (rule insert_shape_set)
      have dr': "distinct (inorder ?r')" using dr nr by (rule insert_shape_distinct)
      have r'in: "r' \<in> insert n (set_tree r)" using rr sr' by (auto dest: root_of_in)
      have ar': "a \<notin> set_tree ?r'" using sr' ar na by auto
      have H3_l: "\<forall>x\<in>set_tree l. H3 x = H x"
        using so al lr nl r'in
        by (auto simp: H3_def assign_parent_def assign_right_def same_outside_def)
      have b1: "tree_at H3 (Some r') ?r'"
        by (rule tree_at_cong[OF tr'])
          (use dr' ar' in \<open>auto simp: H3_def assign_parent_def assign_right_def\<close>)
      have b3: "tree_at H3 (left (H a)) l"
        by (rule tree_at_cong[OF tl]) (use H3_l dl in auto)
      have H1a: "H1 a = H a" using so ar na by (simp add: same_outside_def)
      have b4: "child_ok H3 a (left (H a))"
        using cl H3_l tl by (cases "left (H a)") (auto dest!: tree_at_root_in)
      have upd: "right (H3 a) = Some r'" "left (H3 a) = left (H1 a)" "parent (H3 r') = Some a"
        using ar' r'in sr' by (auto simp: H3_def assign_parent_def assign_right_def)
      have "tree_at H3 (Some a) (Node l a ?r')"
        using b1 b3 b4 upd H1a by auto
      moreover have "same_outside H H3 (insert n (set_tree (Node l a r)))"
        using so r'in by (auto simp: H3_def assign_parent_def assign_right_def same_outside_def)
      moreover have "same_prio H H3"
        using sp by (auto simp: H3_def assign_parent_def assign_right_def same_prio_def)
      ultimately show ?thesis using res False F by auto
    qed
  qed
qed

lemma treap_find_from_tree:
  assumes "tree_at H p t" and "\<forall>a\<in>set_tree t. getter a = Some (k a)"
    and "sorted_wrt (\<lambda>x y. cmp T (k x) (k y)) (inorder t)" and "transp (cmp T)"
  shows "\<exists>res. treap_find_from T getter H key p = Some res \<and>
           ((res = end_elem T \<and> (\<forall>a\<in>set_tree t. cmp T (k a) key \<or> cmp T key (k a))) \<or>
            (\<exists>a\<in>set_tree t. res = Some a \<and> \<not> cmp T (k a) key \<and> \<not> cmp T key (k a)))"
  using assms
proof (induction t arbitrary: p)
  case Leaf
  then show ?case by (simp add: treap_find_from.simps)
next
  case (Node l a r)
  from Node.prems(1) have p: "p = Some a" and tl: "tree_at H (left (H a)) l"
    and tr: "tree_at H (right (H a)) r" by auto
  have ka: "getter a = Some (k a)" using Node.prems(2) by simp
  have sl: "sorted_wrt (\<lambda>x y. cmp T (k x) (k y)) (inorder l)"
    and sr: "sorted_wrt (\<lambda>x y. cmp T (k x) (k y)) (inorder r)"
    and la: "\<forall>x\<in>set_tree l. cmp T (k x) (k a)" and ra: "\<forall>y\<in>set_tree r. cmp T (k a) (k y)"
    using Node.prems(3) by (auto simp: sorted_wrt_append)
  show ?case
  proof (cases "cmp T (k a) key")
    case True
    have "\<forall>x\<in>set_tree l. cmp T (k x) key"
      using la True Node.prems(4) by (auto dest: transpD)
    moreover from Node.IH(2)[OF tr _ sr Node.prems(4)] Node.prems(2)
    obtain res where "treap_find_from T getter H key (right (H a)) = Some res"
      "(res = end_elem T \<and> (\<forall>a\<in>set_tree r. cmp T (k a) key \<or> cmp T key (k a))) \<or>
            (\<exists>a\<in>set_tree r. res = Some a \<and> \<not> cmp T (k a) key \<and> \<not> cmp T key (k a))" by auto
    ultimately show ?thesis using p ka True
      by (subst treap_find_from.simps) auto
  next
    case False
    show ?thesis
    proof (cases "cmp T key (k a)")
      case True
      have "\<forall>x\<in>set_tree r. cmp T key (k x)"
        using ra True Node.prems(4) by (auto dest: transpD)
      moreover from Node.IH(1)[OF tl _ sl Node.prems(4)] Node.prems(2)
      obtain res where "treap_find_from T getter H key (left (H a)) = Some res"
        "(res = end_elem T \<and> (\<forall>a\<in>set_tree l. cmp T (k a) key \<or> cmp T key (k a))) \<or>
            (\<exists>a\<in>set_tree l. res = Some a \<and> \<not> cmp T (k a) key \<and> \<not> cmp T key (k a))" by auto
      ultimately show ?thesis using p ka True False
        by (subst treap_find_from.simps) auto
    next
      case F: False
      then show ?thesis using p ka False
        by (subst treap_find_from.simps) auto
    qed
  qed
qed

lemma first_or_simps [simp]: "first_or [] d = d" "first_or (x # xs) d = Some x"
  by (simp_all add: first_or_def)

lemma first_or_append: "first_or (xs @ ys) d = first_or xs (first_or ys d)"
  by (cases xs) auto

lemma lower_bound_loop_tree:
  assumes "tree_at H p t" and "\<forall>a\<in>set_tree t. getter a = Some (k a)"
    and "sorted_wrt (\<lambda>x y. cmp T (k x) (k y)) (inorder t)" and "transp (cmp T)"
  shows "lower_bound_loop T getter H key p res =
           Some (first_or (filter (\<lambda>a. \<not> cmp T (k a) key) (inorder t)) res)"
  using assms
proof (induction t arbitrary: p res)
  case Leaf
  then show ?case by (simp add: lower_bound_loop.simps)
next
  case (Node l a r)
  from Node.prems(1) have p: "p = Some a" and tl: "tree_at H (left (H a)) l"
    and tr: "tree_at H (right (H a)) r" by auto
  have ka: "getter a = Some (k a)" using Node.prems(2) by simp
  have sl: "sorted_wrt (\<lambda>x y. cmp T (k x) (k y)) (inorder l)"
    and sr: "sorted_wrt (\<lambda>x y. cmp T (k x) (k y)) (inorder r)"
    and la: "\<forall>x\<in>set_tree l. cmp T (k x) (k a)"
    using Node.prems(3) by (auto simp: sorted_wrt_append)
  have kl: "\<forall>a\<in>set_tree l. getter a = Some (k a)" and kr: "\<forall>a\<in>set_tree r. getter a = Some (k a)"
    using Node.prems(2) by auto
  show ?case
  proof (cases "cmp T (k a) key")
    case True
    have "\<forall>x\<in>set_tree l. cmp T (k x) key"
      using la True Node.prems(4) by (auto dest: transpD)
    then have "filter (\<lambda>a. \<not> cmp T (k a) key) (inorder l) = []" by (auto simp: filter_empty_conv)
    then show ?thesis using p ka True Node.IH(2)[OF tr kr sr Node.prems(4)]
      by (subst lower_bound_loop.simps) simp
  next
    case False
    then show ?thesis using p ka Node.IH(1)[OF tl kl sl Node.prems(4)]
      by (subst lower_bound_loop.simps) (simp add: first_or_append)
  qed
qed

lemma upper_bound_loop_tree:
  assumes "tree_at H p t" and "\<forall>a\<in>set_tree t. getter a = Some (k a)"
    and "sorted_wrt (\<lambda>x y. cmp T (k x) (k y)) (inorder t)" and "transp (cmp T)"
  shows "upper_bound_loop T getter H key p res =
           Some (first_or (filter (\<lambda>a. cmp T key (k a)) (inorder t)) res)"
  using assms
proof (induction t arbitrary: p res)
  case Leaf
  then show ?case by (simp add: upper_bound_loop.simps)
next
  case (Node l a r)
  from Node.prems(1) have p: "p = Some a" and tl: "tree_at H (left (H a)) l"
    and tr: "tree_at H (right (H a)) r" by auto
  have ka: "getter a = Some (k a)" using Node.prems(2) by simp
  have sl: "sorted_wrt (\<lambda>x y. cmp T (k x) (k y)) (inorder l)"
    and sr: "sorted_wrt (\<lambda>x y. cmp T (k x) (k y)) (inorder r)"
    and la: "\<forall>x\<in>set_tree l. cmp T (k x) (k a)"
    using Node.prems(3) by (auto simp: sorted_wrt_append)
  have kl: "\<forall>a\<in>set_tree l. getter a = Some (k a)" and kr: "\<forall>a\<in>set_tree r. getter a = Some (k a)"
    using Node.prems(2) by auto
  show ?case
  proof (cases "cmp T key (k a)")
    case False
    have "\<forall>x\<in>set_tree l. \<not> cmp T key (k x)"
      using la False Node.prems(4) by (auto dest: transpD)
    then have "filter (\<lambda>a. cmp T key (k a)) (inorder l) = []" by (auto simp: filter_empty_conv)
    then show ?thesis using p ka False Node.IH(2)[OF tr kr sr Node.prems(4)]
      by (subst upper_bound_loop.simps) simp
  next
    case True
    then show ?thesis using p ka Node.IH(1)[OF tl kl sl Node.prems(4)]
      by (subst upper_bound_loop.simps) (simp add: first_or_append)
  qed
qed

lemma descend_left_tree:
  "tree_at H (Some a) t \<Longrightarrow> descend_left H a = Some (hd (inorder t)) \<and> inorder t \<noteq> []"
proof (induction t arbitrary: a)
  case Leaf
  then show ?case by simp
next
  case (Node l b r)
  then have ab: "a = b" and tl: "tree_at H (left (H a)) l" by auto
  show ?case
  proof (cases "left (H a)")
    case None
    with tl have "l = Leaf" by simp
    then show ?thesis using None ab by (subst descend_left.simps) simp
  next
    case (Some c)
    with Node.IH(1)[of c] tl show ?thesis
      by (subst descend_left.simps) simp
  qed
qed

lemma split_unique:
  "distinct (us @ a # vs) \<Longrightarrow> us @ a # vs = xs @ a # ys \<Longrightarrow> us = xs \<and> vs = ys"
proof (induction us arbitrary: xs)
  case Nil
  then show ?case by (cases xs) auto
next
  case (Cons u us)
  note prems = Cons.prems and IH = Cons.IH
  show ?case
  proof (cases xs)
    case Nil
    with prems show ?thesis by auto
  next
    case c: (Cons x xs')
    from prems(1) have d: "distinct (us @ a # vs)" by simp
    from prems(2) c have ux: "u = x" and eq: "us @ a # vs = xs' @ a # ys" by simp_all
    from IH[OF d eq] ux c show ?thesis by simp
  qed
qed

lemma node_next_tree:
  assumes "tree_at H (Some p) t" and "distinct (inorder t)" and "inorder t = xs @ a # ys"
  shows "node_next H a =
           (case ys of [] \<Rightarrow> next_climb H p (parent (H p)) | y # _ \<Rightarrow> Some (Some y))"
  using assms
proof (induction t arbitrary: p xs ys)
  case Leaf
  then show ?case by simp
next
  case (Node l b r)
  from Node.prems(1) have p: "p = b" and cl: "child_ok H b (left (H b))"
    and cr: "child_ok H b (right (H b))" and tl: "tree_at H (left (H b)) l"
    and tr: "tree_at H (right (H b)) r" by auto
  have bl: "b \<notin> set_tree l" and br: "b \<notin> set_tree r"
    and dl: "distinct (inorder l)" and dr: "distinct (inorder r)"
    and lr: "set_tree l \<inter> set_tree r = {}" using Node.prems(2) by auto
  have io: "inorder l @ b # inorder r = xs @ a # ys" using Node.prems(3) by simp
  have "a \<in> set (inorder l @ b # inorder r)" unfolding io by simp
  then consider (root) "a = b" | (inl) "a \<in> set_tree l" | (inr) "a \<in> set_tree r" by auto
  then show ?case
  proof cases
    case root
    have "distinct (inorder l @ b # inorder r)" using Node.prems(2) by simp
    from split_unique[OF this] io root have xs: "xs = inorder l" and ys: "ys = inorder r"
      by auto
    show ?thesis
    proof (cases r)
      case Leaf
      with tr have "right (H b) = None" by simp
      then show ?thesis using ys Leaf root p by (simp add: node_next_def)
    next
      case (Node rl c rr)
      with tr have rc: "right (H b) = Some c" by simp
      from descend_left_tree[of H c r] tr rc
      have "descend_left H c = Some (hd (inorder r))" "inorder r \<noteq> []" by auto
      then show ?thesis using ys rc root by (cases "inorder r") (auto simp: node_next_def)
    qed
  next
    case inl
    then obtain us vs where l: "inorder l = us @ a # vs" by (metis set_inorder split_list)
    have "distinct (us @ a # (vs @ b # inorder r))" using Node.prems(2) l by simp
    from split_unique[OF this, of xs ys] io l have xs: "xs = us" and ys: "ys = vs @ b # inorder r"
      by auto
    from l tl obtain c where lc: "left (H b) = Some c" by (cases l) auto
    from Node.IH(1)[OF _ dl l, of c] tl lc
    have n: "node_next H a = (case vs of [] \<Rightarrow> next_climb H c (parent (H c)) | y # _ \<Rightarrow> Some (Some y))"
      by simp
    have pc: "parent (H c) = Some b" using cl lc by simp
    have cin: "c \<in> set_tree l" using tl lc by (auto dest: tree_at_root_in)
    have "right (H b) \<noteq> Some c"
    proof
      assume "right (H b) = Some c"
      with tr have "c \<in> set_tree r" by (auto dest: tree_at_root_in)
      with cin lr show False by auto
    qed
    then have "next_climb H c (Some b) = Some (Some b)"
      by (subst next_climb.simps) simp
    then show ?thesis using n ys pc by (cases vs) auto
  next
    case inr
    then obtain us vs where r: "inorder r = us @ a # vs" by (metis set_inorder split_list)
    have "distinct ((inorder l @ b # us) @ a # vs)" using Node.prems(2) r by simp
    from split_unique[OF this, of xs ys] io r have xs: "xs = inorder l @ b # us" and ys: "ys = vs"
      by auto
    from r tr obtain c where rc: "right (H b) = Some c" by (cases r) auto
    from Node.IH(2)[OF _ dr r, of c] tr rc
    have n: "node_next H a = (case vs of [] \<Rightarrow> next_climb H c (parent (H c)) | y # _ \<Rightarrow> Some (Some y))"
      by simp
    have pc: "parent (H c) = Some b" using cr rc by simp
    have "next_climb H c (Some b) = next_climb H b (parent (H b))"
      using rc by (subst next_climb.simps) simp
    then show ?thesis using n ys pc p by (cases vs) auto
  qed
qed

lemma remove_shape_notin: "a \<notin> set_tree t \<Longrightarrow> remove_shape pr a t = t"
  by (induction t) auto

lemma remove_shape_inorder:
  "distinct (inorder t) \<Longrightarrow> inorder (remove_shape pr a t) = removeAll a (inorder t)"
  by (induction t) (auto simp: merge_shape_inorder remove_shape_notin)

lemma tree_at_unique: "tree_at H p t \<Longrightarrow> tree_at H p t' \<Longrightarrow> t = t'"
proof (induction t arbitrary: p t')
  case Leaf
  then show ?case by simp
next
  case (Node l a r)
  then obtain l' r' where t': "t' = Node l' a r'" by (cases t') auto
  with Node.prems have "tree_at H (left (H a)) l" "tree_at H (left (H a)) l'"
    "tree_at H (right (H a)) r" "tree_at H (right (H a)) r'" by auto
  with Node.IH t' show ?case by blast
qed

lemma subtree_facts:
  assumes "tree_at H (Some s) S" and "distinct (inorder S)" and "a \<in> set_tree S" and "a \<noteq> s"
  shows "\<exists>la ra q. tree_at H (left (H a)) la \<and> tree_at H (right (H a)) ra \<and>
           distinct (inorder la @ inorder ra) \<and>
           set_tree la \<union> set_tree ra \<subseteq> set_tree S - {s, a, q} \<and>
           parent (H a) = Some q \<and> q \<in> set_tree S \<and> q \<noteq> a"
  using assms
proof (induction S arbitrary: s)
  case Leaf
  then show ?case by simp
next
  case (Node l b r)
  from Node.prems(1) have s: "s = b" and cl: "child_ok H b (left (H b))"
    and cr: "child_ok H b (right (H b))" and tl: "tree_at H (left (H b)) l"
    and tr: "tree_at H (right (H b)) r" by auto
  have bl: "b \<notin> set_tree l" and br: "b \<notin> set_tree r"
    and dl: "distinct (inorder l)" and dr: "distinct (inorder r)"
    and lr: "set_tree l \<inter> set_tree r = {}" using Node.prems(2) by auto
  from Node.prems(3,4) s consider (inl) "a \<in> set_tree l" | (inr) "a \<in> set_tree r" by auto
  then show ?case
  proof cases
    case inl
    then obtain ll c lr' where l: "l = Node ll c lr'" by (cases l) auto
    with tl have lc: "left (H b) = Some c" by simp
    show ?thesis
    proof (cases "a = c")
      case True
      from tl l True have "tree_at H (left (H a)) ll" "tree_at H (right (H a)) lr'" by auto
      moreover have "distinct (inorder ll @ inorder lr')" using dl l by auto
      moreover have "set_tree ll \<union> set_tree lr' \<subseteq> set_tree (Node l b r) - {s, a, b}"
        using dl l True bl s by auto
      moreover have "parent (H a) = Some b" using cl lc True by simp
      ultimately show ?thesis using True inl bl s by (intro exI[of _ ll] exI[of _ lr'] exI[of _ b]) auto
    next
      case False
      from Node.IH(1)[OF _ dl inl False] tl lc
      obtain la ra q where "tree_at H (left (H a)) la" "tree_at H (right (H a)) ra"
        "distinct (inorder la @ inorder ra)"
        "set_tree la \<union> set_tree ra \<subseteq> set_tree l - {c, a, q}"
        "parent (H a) = Some q" "q \<in> set_tree l" "q \<noteq> a" by auto
      then show ?thesis using bl s
        by (intro exI[of _ la] exI[of _ ra] exI[of _ q]) auto
    qed
  next
    case inr
    then obtain rl c rr where r: "r = Node rl c rr" by (cases r) auto
    with tr have rc: "right (H b) = Some c" by simp
    show ?thesis
    proof (cases "a = c")
      case True
      from tr r True have "tree_at H (left (H a)) rl" "tree_at H (right (H a)) rr" by auto
      moreover have "distinct (inorder rl @ inorder rr)" using dr r by auto
      moreover have "set_tree rl \<union> set_tree rr \<subseteq> set_tree (Node l b r) - {s, a, b}"
        using dr r True br s by auto
      moreover have "parent (H a) = Some b" using cr rc True by simp
      ultimately show ?thesis using True inr br s by (intro exI[of _ rl] exI[of _ rr] exI[of _ b]) auto
    next
      case False
      from Node.IH(2)[OF _ dr inr False] tr rc
      obtain la ra q where "tree_at H (left (H a)) la" "tree_at H (right (H a)) ra"
        "distinct (inorder la @ inorder ra)"
        "set_tree la \<union> set_tree ra \<subseteq> set_tree r - {c, a, q}"
        "parent (H a) = Some q" "q \<in> set_tree r" "q \<noteq> a" by auto
      then show ?thesis using br s
        by (intro exI[of _ la] exI[of _ ra] exI[of _ q]) auto
    qed
  qed
qed

lemma tree_at_remove:
  assumes "tree_at H (Some s) S" and "distinct (inorder S)" and "a \<in> set_tree S" and "a \<noteq> s"
    and "tree_at H (left (H a)) la" and "tree_at H (right (H a)) ra"
    and "parent (H a) = Some q"
    and "tree_at H' (root_of (merge_shape pr la ra)) (merge_shape pr la ra)"
    and "\<forall>x. x \<noteq> a \<longrightarrow> x \<notin> set_tree la \<longrightarrow> x \<notin> set_tree ra \<longrightarrow> x \<noteq> q \<longrightarrow> H' x = H x"
    and "parent (H' q) = parent (H q)"
    and "right (H q) = Some a \<longrightarrow> right (H' q) = root_of (merge_shape pr la ra) \<and> left (H' q) = left (H q)"
    and "right (H q) \<noteq> Some a \<longrightarrow> left (H' q) = root_of (merge_shape pr la ra) \<and> right (H' q) = right (H q)"
    and "\<forall>x. root_of (merge_shape pr la ra) = Some x \<longrightarrow> parent (H' x) = Some q"
  shows "tree_at H' (Some s) (remove_shape pr a S)"
  using assms(1-4)
proof (induction S arbitrary: s)
  case Leaf
  then show ?case by simp
next
  case (Node l b r)
  let ?m = "merge_shape pr la ra"
  note tm = assms(8) and frame = assms(9) and pq = assms(10) and qr = assms(11) and ql = assms(12)
    and rp = assms(13)
  from Node.prems(1) have s: "s = b" and cl: "child_ok H b (left (H b))"
    and cr: "child_ok H b (right (H b))" and tl: "tree_at H (left (H b)) l"
    and tr: "tree_at H (right (H b)) r" by auto
  have bl: "b \<notin> set_tree l" and br: "b \<notin> set_tree r"
    and dl: "distinct (inorder l)" and dr: "distinct (inorder r)"
    and lr: "set_tree l \<inter> set_tree r = {}" using Node.prems(2) by auto
  from Node.prems(3,4) s consider (inl) "a \<in> set_tree l" | (inr) "a \<in> set_tree r" by auto
  then show ?case
  proof cases
    case inl
    then have anr: "a \<notin> set_tree r" using lr by auto
    then have rr: "remove_shape pr a r = r" by (rule remove_shape_notin)
    from inl obtain ll c lr' where l: "l = Node ll c lr'" by (cases l) auto
    with tl have lc: "left (H b) = Some c" by simp
    have cinl: "c \<in> set_tree l" using l by simp
    have rnc: "right (H b) \<noteq> Some a"
    proof
      assume "right (H b) = Some a"
      with tr have "a \<in> set_tree r" by (auto dest: tree_at_root_in)
      with anr show False by simp
    qed
    have sub_l: "set_tree la \<union> set_tree ra \<subseteq> set_tree l - {c, a, q} \<and> q \<in> set_tree l"
      if "a \<noteq> c"
    proof -
      have tc: "tree_at H (Some c) l" using tl lc by simp
      from subtree_facts[OF tc dl inl that] obtain la' ra' q' where
        sf: "tree_at H (left (H a)) la'" "tree_at H (right (H a)) ra'"
        "set_tree la' \<union> set_tree ra' \<subseteq> set_tree l - {c, a, q'}"
        "parent (H a) = Some q'" "q' \<in> set_tree l" by blast
      have "la' = la" by (rule tree_at_unique[OF sf(1) assms(5)])
      moreover have "ra' = ra" by (rule tree_at_unique[OF sf(2) assms(6)])
      moreover have "q' = q" using sf(4) assms(7) by simp
      ultimately show ?thesis using sf(3,5) by simp
    qed
    have in_l: "set_tree la \<union> set_tree ra \<subseteq> set_tree l"
    proof (cases "a = c")
      case True
      with tl l lc have "tree_at H (left (H a)) ll" "tree_at H (right (H a)) lr'" by auto
      then have "la = ll" "ra = lr'" using assms(5,6) by (auto intro: tree_at_unique)
      then show ?thesis using l by auto
    next
      case False
      with sub_l show ?thesis by auto
    qed
    have H'r: "\<forall>x\<in>set_tree r. H' x = H x"
    proof
      fix x assume x: "x \<in> set_tree r"
      have "x \<noteq> a" using x anr by auto
      moreover have "x \<notin> set_tree la" "x \<notin> set_tree ra" using x in_l lr by auto
      moreover have "x \<noteq> q"
      proof (cases "a = c")
        case True
        with cl lc assms(7) have "q = b" by simp
        with x br show ?thesis by auto
      next
        case False
        with sub_l x lr show ?thesis by auto
      qed
      ultimately show "H' x = H x" using frame by simp
    qed
    have t_r: "tree_at H' (right (H b)) r"
      by (rule tree_at_cong[OF tr]) (use H'r dr in auto)
    have c_r: "child_ok H' b (right (H b))"
      using cr H'r tr by (cases "right (H b)") (auto dest!: tree_at_root_in)
    show ?thesis
    proof (cases "a = c")
      case True
      with cl lc assms(7) have qb: "q = b" by simp
      from True tl l lc have "tree_at H (left (H a)) ll" "tree_at H (right (H a)) lr'" by auto
      then have "la = ll" "ra = lr'" using assms(5,6) by (auto intro: tree_at_unique)
      then have rs: "remove_shape pr a l = ?m" using l True by simp
      have "left (H' b) = root_of ?m" "right (H' b) = right (H b)" using ql qb rnc by auto
      moreover have "child_ok H' b (root_of ?m)" using rp qb by (cases "root_of ?m") auto
      ultimately show ?thesis using tm t_r c_r rs rr s True bl inl
        by (cases "root_of ?m") auto
    next
      case False
      from Node.IH(1)[OF _ dl inl False] tl lc
      have t_l: "tree_at H' (Some c) (remove_shape pr a l)" by simp
      have "b \<noteq> a" using inl bl by auto
      moreover have "b \<notin> set_tree la" "b \<notin> set_tree ra" using in_l bl by auto
      moreover have "b \<noteq> q" using sub_l False bl by auto
      ultimately have H'b: "H' b = H b" using frame by simp
      have pc: "parent (H' c) = Some b"
      proof (cases "c = q")
        case True
        then show ?thesis using pq cl lc by simp
      next
        case F: False
        have "c \<noteq> a" using False by simp
        moreover have "c \<notin> set_tree la" "c \<notin> set_tree ra" using sub_l False by auto
        ultimately have "H' c = H c" using frame F by simp
        then show ?thesis using cl lc by simp
      qed
      show ?thesis using t_l t_r c_r H'b lc pc rr s False \<open>b \<noteq> a\<close> by simp
    qed
  next
    case inr
    then have anl: "a \<notin> set_tree l" using lr by auto
    then have rl: "remove_shape pr a l = l" by (rule remove_shape_notin)
    from inr obtain rl' c rr' where r: "r = Node rl' c rr'" by (cases r) auto
    with tr have rc: "right (H b) = Some c" by simp
    have cinr: "c \<in> set_tree r" using r by simp
    have sub_r: "set_tree la \<union> set_tree ra \<subseteq> set_tree r - {c, a, q} \<and> q \<in> set_tree r"
      if "a \<noteq> c"
    proof -
      have tc: "tree_at H (Some c) r" using tr rc by simp
      from subtree_facts[OF tc dr inr that] obtain la' ra' q' where
        sf: "tree_at H (left (H a)) la'" "tree_at H (right (H a)) ra'"
        "set_tree la' \<union> set_tree ra' \<subseteq> set_tree r - {c, a, q'}"
        "parent (H a) = Some q'" "q' \<in> set_tree r" by blast
      have "la' = la" by (rule tree_at_unique[OF sf(1) assms(5)])
      moreover have "ra' = ra" by (rule tree_at_unique[OF sf(2) assms(6)])
      moreover have "q' = q" using sf(4) assms(7) by simp
      ultimately show ?thesis using sf(3,5) by simp
    qed
    have in_r: "set_tree la \<union> set_tree ra \<subseteq> set_tree r"
    proof (cases "a = c")
      case True
      with tr r rc have "tree_at H (left (H a)) rl'" "tree_at H (right (H a)) rr'" by auto
      then have "la = rl'" "ra = rr'" using assms(5,6) by (auto intro: tree_at_unique)
      then show ?thesis using r by auto
    next
      case False
      with sub_r show ?thesis by auto
    qed
    have H'l: "\<forall>x\<in>set_tree l. H' x = H x"
    proof
      fix x assume x: "x \<in> set_tree l"
      have "x \<noteq> a" using x anl by auto
      moreover have "x \<notin> set_tree la" "x \<notin> set_tree ra" using x in_r lr by auto
      moreover have "x \<noteq> q"
      proof (cases "a = c")
        case True
        with cr rc assms(7) have "q = b" by simp
        with x bl show ?thesis by auto
      next
        case False
        with sub_r x lr show ?thesis by auto
      qed
      ultimately show "H' x = H x" using frame by simp
    qed
    have t_l: "tree_at H' (left (H b)) l"
      by (rule tree_at_cong[OF tl]) (use H'l dl in auto)
    have c_l: "child_ok H' b (left (H b))"
      using cl H'l tl by (cases "left (H b)") (auto dest!: tree_at_root_in)
    show ?thesis
    proof (cases "a = c")
      case True
      with cr rc assms(7) have qb: "q = b" by simp
      from True tr r rc have "tree_at H (left (H a)) rl'" "tree_at H (right (H a)) rr'" by auto
      then have "la = rl'" "ra = rr'" using assms(5,6) by (auto intro: tree_at_unique)
      then have rs: "remove_shape pr a r = ?m" using r True by simp
      have "right (H' b) = root_of ?m" "left (H' b) = left (H b)" using qr qb rc True by auto
      moreover have "child_ok H' b (root_of ?m)" using rp qb by (cases "root_of ?m") auto
      ultimately show ?thesis using tm t_l c_l rs rl s True br inr
        by (cases "root_of ?m") auto
    next
      case False
      from Node.IH(2)[OF _ dr inr False] tr rc
      have t_r: "tree_at H' (Some c) (remove_shape pr a r)" by simp
      have "b \<noteq> a" using inr br by auto
      moreover have "b \<notin> set_tree la" "b \<notin> set_tree ra" using in_r br by auto
      moreover have "b \<noteq> q" using sub_r False br by auto
      ultimately have H'b: "H' b = H b" using frame by simp
      have pc: "parent (H' c) = Some b"
      proof (cases "c = q")
        case True
        then show ?thesis using pq cr rc by simp
      next
        case F: False
        have "c \<noteq> a" using False by simp
        moreover have "c \<notin> set_tree la" "c \<notin> set_tree ra" using sub_r False by auto
        ultimately have "H' c = H c" using frame F by simp
        then show ?thesis using cr rc by simp
      qed
      show ?thesis using t_l t_r c_l H'b rc pc rl s False \<open>b \<noteq> a\<close> by simp
    qed
  qed
qed

lemma treap_wf_D:
  assumes "treap_wf H e t"
  shows "left (H e) = root_of t" "right (H e) = None" "parent (H e) = None"
    "tree_at H (root_of t) t" "child_ok H e (root_of t)" "distinct (inorder t)" "e \<notin> set_tree t"
proof -
  from assms have t: "tree_at H (left (H e)) t" and c: "child_ok H e (left (H e))"
    and r: "right (H e) = None" and rest: "parent (H e) = None" "distinct (inorder t)"
      "e \<notin> set_tree t"
    by (auto simp: treap_wf_def)
  from tree_at_root_of[OF t] have l: "left (H e) = root_of t" .
  show "left (H e) = root_of t" "right (H e) = None" "parent (H e) = None"
    "tree_at H (root_of t) t" "child_ok H e (root_of t)" "distinct (inorder t)" "e \<notin> set_tree t"
    using t c r rest l by simp_all
qed

lemma treap_wf_I:
  assumes "left (H e) = root_of t" "right (H e) = None" "parent (H e) = None"
    "tree_at H (root_of t) t" "child_ok H e (root_of t)" "distinct (inorder t)" "e \<notin> set_tree t"
  shows "treap_wf H e t"
  using assms by (auto simp: treap_wf_def)

lemma treap_insert_node_wf:
  assumes wf: "treap_wf H e W" and e: "end_elem T = Some e"
    and n: "n \<notin> set_tree W" "n \<noteq> e" "left (H n) = None" "right (H n) = None"
    and keys: "\<forall>a\<in>insert n (set_tree W). getter a = Some (k a)"
    and pr: "\<forall>a. pr a = priority (H a)"
  shows "\<exists>H'. treap_insert_node T getter H n = Some H' \<and>
           treap_wf H' e (insert_shape pr (\<lambda>x y. cmp T (k x) (k y)) W n) \<and>
           same_outside H H' (insert e (insert n (set_tree W))) \<and> same_prio H H'"
proof -
  let ?W' = "insert_shape pr (\<lambda>x y. cmp T (k x) (k y)) W n"
  note w = treap_wf_D[OF wf]
  from treap_insert_tree[OF w(4) w(6) n(1) n(3,4) keys pr, of "cmp T"]
  obtain H1 r where i1: "treap_insert (cmp T) getter H (root_of W) n = Some (H1, r)"
    and rr: "root_of ?W' = Some r" and tw: "tree_at H1 (Some r) ?W'"
    and so: "same_outside H H1 (insert n (set_tree W))" and sp: "same_prio H H1" by auto
  define H3 where "H3 = assign_parent (assign_left H1 e (Some r)) r (Some e)"
  have sW': "set_tree ?W' = insert n (set_tree W)" by (rule insert_shape_set)
  have dW': "distinct (inorder ?W')" using w(6) n(1) by (rule insert_shape_distinct)
  have rin: "r \<in> insert n (set_tree W)" using rr sW' by (auto dest: root_of_in)
  have re: "r \<noteq> e" using rin n(2) w(7) by auto
  have eW': "e \<notin> set_tree ?W'" using sW' n(2) w(7) by auto
  have H1e: "H1 e = H e" using so n(2) w(7) by (simp add: same_outside_def)
  have res: "treap_insert_node T getter H n = Some H3"
    using e w(1) i1
    by (simp add: treap_insert_node_def treap_root_def reconnect_end_def H3_def set_parent_def
        assign_left_def)
  have t3: "tree_at H3 (Some r) ?W'"
    by (rule tree_at_cong[OF tw])
      (use dW' eW' in \<open>auto simp: H3_def assign_parent_def assign_left_def\<close>)
  have "treap_wf H3 e ?W'"
    by (rule treap_wf_I)
      (use rr re H1e w(2,3) t3 dW' eW' in \<open>auto simp: H3_def assign_parent_def assign_left_def\<close>)
  moreover have "same_outside H H3 (insert e (insert n (set_tree W)))"
    using so rin by (auto simp: H3_def assign_parent_def assign_left_def same_outside_def)
  moreover have "same_prio H H3"
    using sp by (auto simp: H3_def assign_parent_def assign_left_def same_prio_def)
  ultimately show ?thesis using res by auto
qed

lemma node_next_wf:
  assumes wf: "treap_wf H e W" and io: "inorder W = xs @ a # ys"
  shows "node_next H a = Some (first_or ys (Some e))"
proof -
  note w = treap_wf_D[OF wf]
  have t: "tree_at H (Some e) (Node W e Leaf)" using wf by (simp add: treap_wf_def)
  have d: "distinct (inorder (Node W e Leaf))" using w(6,7) by simp
  have "inorder (Node W e Leaf) = xs @ a # (ys @ [e])" using io by simp
  from node_next_tree[OF t d this] show ?thesis by (cases ys) auto
qed

lemma treap_remove_wf:
  assumes wf: "treap_wf H e W" and e: "end_elem T = Some e"
    and io: "inorder W = xs @ a # ys"
    and pr: "\<forall>a. pr a = priority (H a)"
  shows "\<exists>H'. treap_remove T H a = Some (H', first_or ys (Some e)) \<and>
           treap_wf H' e (remove_shape pr a W) \<and>
           same_outside H H' (insert e (set_tree W)) \<and> same_prio H H'"
proof -
  let ?S = "Node W e Leaf"
  note w = treap_wf_D[OF wf]
  have "a \<in> set (inorder W)" unfolding io by simp
  then have aW: "a \<in> set_tree W" by simp
  have ae: "a \<noteq> e" using aW w(7) by auto
  have tS: "tree_at H (Some e) ?S" using wf by (simp add: treap_wf_def)
  have dS: "distinct (inorder ?S)" using w(6,7) by simp
  have aS: "a \<in> set_tree ?S" using aW by simp
  from subtree_facts[OF tS dS aS ae] obtain la ra q where
    tla: "tree_at H (left (H a)) la" and tra: "tree_at H (right (H a)) ra"
    and dlr: "distinct (inorder la @ inorder ra)"
    and sub: "set_tree la \<union> set_tree ra \<subseteq> set_tree ?S - {e, a, q}"
    and pa: "parent (H a) = Some q" and qS: "q \<in> set_tree ?S" and qa: "q \<noteq> a" by blast
  let ?m = "merge_shape pr la ra"
  from treap_merge_tree[OF tla tra dlr pr]
  obtain Hm where mg: "treap_merge H (left (H a)) (right (H a)) = Some (Hm, root_of ?m)"
    and tm: "tree_at Hm (root_of ?m) ?m"
    and so: "same_outside H Hm (set_tree la \<union> set_tree ra)" and sp: "same_prio H Hm" by auto
  have sm: "set_tree ?m = set_tree la \<union> set_tree ra" by (rule merge_shape_set)
  have dm: "distinct (inorder ?m)" using dlr by (simp add: merge_shape_inorder)
  have qm: "q \<notin> set_tree ?m" "e \<notin> set_tree ?m" "a \<notin> set_tree ?m" using sub sm by auto
  define H2 where "H2 = set_parent Hm (root_of ?m) (Some q)"
  define H3 where "H3 = (if right (H q) = Some a then assign_right H2 q (root_of ?m)
                         else assign_left H2 q (root_of ?m))"
  define r where "r = (if q = e then root_of ?m else root_of W)"
  have H2q: "H2 q = H q"
    using so qm sm by (auto simp: H2_def set_parent_def assign_parent_def same_outside_def
        split: option.splits dest!: root_of_in)
  have rf: "treap_remove_from T H (root_of W) a = Some (H3, r)"
    using pa mg e H2q w(2) ae
    by (auto simp: treap_remove_from_def H2_def[symmetric] H3_def r_def)
  have frame: "\<forall>x. x \<noteq> a \<longrightarrow> x \<notin> set_tree la \<longrightarrow> x \<notin> set_tree ra \<longrightarrow> x \<noteq> q \<longrightarrow> H3 x = H x"
    using so sm
    by (auto simp: H3_def H2_def set_parent_def assign_parent_def assign_left_def assign_right_def
        same_outside_def split: option.splits dest!: root_of_in)
  have t3: "tree_at H3 (root_of ?m) ?m"
    by (rule tree_at_cong[OF tm])
      (use dm qm in \<open>auto simp: H3_def H2_def set_parent_def assign_parent_def assign_left_def
          assign_right_def split: option.splits dest!: root_of_in\<close>)
  have pq: "parent (H3 q) = parent (H q)"
    using H2q by (auto simp: H3_def assign_left_def assign_right_def)
  have qr: "right (H q) = Some a \<longrightarrow> right (H3 q) = root_of ?m \<and> left (H3 q) = left (H q)"
    using H2q by (auto simp: H3_def assign_left_def assign_right_def)
  have ql: "right (H q) \<noteq> Some a \<longrightarrow> left (H3 q) = root_of ?m \<and> right (H3 q) = right (H q)"
    using H2q by (auto simp: H3_def assign_left_def assign_right_def)
  have rp: "\<forall>x. root_of ?m = Some x \<longrightarrow> parent (H3 x) = Some q"
    using qm by (auto simp: H3_def H2_def set_parent_def assign_parent_def assign_left_def
        assign_right_def dest!: root_of_in)
  from tree_at_remove[OF tS dS aS ae tla tra pa t3 frame pq qr ql rp]
  have tS3: "tree_at H3 (Some e) (Node (remove_shape pr a W) e Leaf)" using ae by simp
  have pe3: "parent (H3 e) = None"
  proof (cases "q = e")
    case True
    then show ?thesis using pq w(3) by simp
  next
    case False
    then have "H3 e = H e" using frame ae sub by auto
    then show ?thesis using w(3) by simp
  qed
  let ?W' = "remove_shape pr a W"
  have ioW': "inorder ?W' = removeAll a (inorder W)" using w(6) by (rule remove_shape_inorder)
  have wf3: "treap_wf H3 e ?W'"
    using tS3 pe3 w(6,7) ioW' unfolding treap_wf_def
    by (auto simp: distinct_removeAll simp flip: set_inorder)
  note w3 = treap_wf_D[OF wf3]
  have lr: "left (H3 e) = r"
  proof (cases "q = e")
    case True
    then show ?thesis using ql w(2) by (simp add: r_def)
  next
    case False
    then have "H3 e = H e" using frame ae sub by auto
    then show ?thesis using w(1) False by (simp add: r_def)
  qed
  have H4: "assign_left H3 e r = H3"
    using lr by (auto simp: assign_left_def fun_eq_iff)
  have H5: "set_parent H3 r (Some e) = H3"
  proof (cases r)
    case None
    then show ?thesis by (simp add: set_parent_def)
  next
    case (Some c)
    with w3(1) lr have "root_of ?W' = Some c" by simp
    with w3(5) have "parent (H3 c) = Some e" by simp
    then show ?thesis using Some by (auto simp: set_parent_def assign_parent_def fun_eq_iff)
  qed
  have res: "treap_remove T H a = Some (H3, first_or ys (Some e))"
    using node_next_wf[OF wf io] e w(1) rf H4 H5 lr
    by (simp add: treap_remove_def treap_root_def reconnect_end_def)
  have "same_outside H H3 (insert e (set_tree W))"
    using frame sub qS aW by (auto simp: same_outside_def)
  moreover have "same_prio H H3"
    using sp by (auto simp: H3_def H2_def set_parent_def assign_parent_def assign_left_def
        assign_right_def same_prio_def split: option.splits)
  ultimately show ?thesis using res wf3 by auto
qed

lemma split_shape_heap:
  "split_shape P t = (t1, t2) \<Longrightarrow> heap_ordered pr t \<Longrightarrow> heap_ordered pr t1 \<and> heap_ordered pr t2"
proof (induction t arbitrary: t1 t2)
  case Leaf
  then show ?case by simp
next
  case (Node l a r)
  show ?case
  proof (cases "P a")
    case True
    obtain r1 r2 where s: "split_shape P r = (r1, r2)" by fastforce
    from split_shape_set[OF s] have sub: "set_tree r1 \<subseteq> set_tree r" by auto
    have "\<forall>x\<in>set_tree l \<union> set_tree r1. pr x \<le> pr a" using sub Node.prems(2) by auto
    with Node.IH(2)[OF s] Node.prems True s show ?thesis by auto
  next
    case False
    obtain l1 l2 where s: "split_shape P l = (l1, l2)" by fastforce
    from split_shape_set[OF s] have sub: "set_tree l2 \<subseteq> set_tree l" by auto
    have "\<forall>x\<in>set_tree l2 \<union> set_tree r. pr x \<le> pr a" using sub Node.prems(2) by auto
    with Node.IH(1)[OF s] Node.prems False s show ?thesis by auto
  qed
qed

lemma merge_shape_heap:
  "heap_ordered pr t1 \<Longrightarrow> heap_ordered pr t2 \<Longrightarrow> heap_ordered pr (merge_shape pr t1 t2)"
proof (induction pr t1 t2 rule: merge_shape.induct)
  case (3 pr l1 a1 r1 l2 a2 r2)
  show ?case
  proof (cases "pr a1 > pr a2")
    case True
    with "3.IH"(1) "3.prems" have "heap_ordered pr (merge_shape pr r1 (Node l2 a2 r2))" by simp
    moreover have "\<forall>x\<in>set_tree (merge_shape pr r1 (Node l2 a2 r2)). pr x \<le> pr a1"
    proof
      fix x assume "x \<in> set_tree (merge_shape pr r1 (Node l2 a2 r2))"
      then have "x \<in> set_tree r1 \<or> pr x \<le> pr a2" using "3.prems"(2) by (auto simp: merge_shape_set)
      then show "pr x \<le> pr a1" using "3.prems"(1) True by auto
    qed
    ultimately show ?thesis using True "3.prems" by auto
  next
    case False
    with "3.IH"(2) "3.prems" have "heap_ordered pr (merge_shape pr (Node l1 a1 r1) l2)" by simp
    moreover have "\<forall>x\<in>set_tree (merge_shape pr (Node l1 a1 r1) l2). pr x \<le> pr a2"
    proof
      fix x assume "x \<in> set_tree (merge_shape pr (Node l1 a1 r1) l2)"
      then have "x \<in> set_tree l2 \<or> pr x \<le> pr a1" using "3.prems"(1) by (auto simp: merge_shape_set)
      then show "pr x \<le> pr a2" using "3.prems"(2) False by auto
    qed
    ultimately show ?thesis using False "3.prems" by auto
  qed
qed simp_all

lemma heap_ordered_root: "heap_ordered pr t \<Longrightarrow> root_of t = Some c \<Longrightarrow> \<forall>x\<in>set_tree t. pr x \<le> pr c"
  by (cases t) auto

lemma insert_shape_heap:
  "heap_ordered pr t \<Longrightarrow> heap_ordered pr (insert_shape pr lt t n)"
proof (induction t)
  case Leaf
  then show ?case by simp
next
  case (Node l a r)
  show ?case
  proof (cases "pr n > pr a")
    case True
    obtain t1 t2 where s: "split_shape (\<lambda>x. lt x n) (Node l a r) = (t1, t2)" by fastforce
    from split_shape_heap[OF s Node.prems] have "heap_ordered pr t1" "heap_ordered pr t2" by auto
    moreover have "\<forall>x\<in>set_tree (Node l a r). pr x \<le> pr n"
    proof
      fix x assume "x \<in> set_tree (Node l a r)"
      then have "pr x \<le> pr a" using Node.prems by auto
      then show "pr x \<le> pr n" using True by linarith
    qed
    then have "\<forall>x\<in>set_tree t1 \<union> set_tree t2. pr x \<le> pr n"
      unfolding split_shape_set[OF s] .
    ultimately show ?thesis using True s by auto
  next
    case False
    then show ?thesis using Node by (auto simp: insert_shape_set)
  qed
qed

lemma remove_shape_set: "distinct (inorder t) \<Longrightarrow> set_tree (remove_shape pr a t) = set_tree t - {a}"
  using remove_shape_inorder[of t pr a] by (metis set_inorder set_removeAll)

lemma remove_shape_heap:
  "distinct (inorder t) \<Longrightarrow> heap_ordered pr t \<Longrightarrow> heap_ordered pr (remove_shape pr a t)"
proof (induction t)
  case Leaf
  then show ?case by simp
next
  case (Node l x r)
  then show ?case by (auto simp: merge_shape_heap remove_shape_set)
qed

lemma split_shape_sorted:
  assumes "split_shape (\<lambda>x. c (k x) key) t = (t1, t2)"
    and "sorted_wrt (\<lambda>x y. c (k x) (k y)) (inorder t)" and "transp c"
  shows "(\<forall>x\<in>set_tree t1. c (k x) key) \<and> (\<forall>x\<in>set_tree t2. \<not> c (k x) key)"
  using assms
proof (induction t arbitrary: t1 t2)
  case Leaf
  then show ?case by simp
next
  case (Node l a r)
  have sl: "sorted_wrt (\<lambda>x y. c (k x) (k y)) (inorder l)"
    and sr: "sorted_wrt (\<lambda>x y. c (k x) (k y)) (inorder r)"
    and la: "\<forall>x\<in>set_tree l. c (k x) (k a)" and ra: "\<forall>y\<in>set_tree r. c (k a) (k y)"
    using Node.prems(2) by (auto simp: sorted_wrt_append)
  show ?case
  proof (cases "c (k a) key")
    case True
    obtain r1 r2 where s: "split_shape (\<lambda>x. c (k x) key) r = (r1, r2)" by fastforce
    have "\<forall>x\<in>set_tree l. c (k x) key" using la True Node.prems(3) by (auto dest: transpD)
    with Node.IH(2)[OF s sr Node.prems(3)] True s Node.prems(1) show ?thesis by auto
  next
    case False
    obtain l1 l2 where s: "split_shape (\<lambda>x. c (k x) key) l = (l1, l2)" by fastforce
    have "\<forall>x\<in>set_tree r. \<not> c (k x) key" using ra False Node.prems(3) by (auto dest: transpD)
    with Node.IH(1)[OF s sl Node.prems(3)] False s Node.prems(1) show ?thesis by auto
  qed
qed

lemma insert_shape_sorted_inorder:
  assumes "sorted_wrt (\<lambda>x y. c (k x) (k y)) (inorder t)" and "transp c"
    and "\<forall>x\<in>set_tree t. c (k x) (k n) \<or> c (k n) (k x)"
  shows "\<exists>xs ys. inorder (insert_shape pr (\<lambda>x y. c (k x) (k y)) t n) = xs @ n # ys \<and>
           xs @ ys = inorder t \<and> (\<forall>x\<in>set xs. c (k x) (k n)) \<and> (\<forall>y\<in>set ys. c (k n) (k y))"
  using assms
proof (induction t)
  case Leaf
  then show ?case by simp
next
  case (Node l a r)
  let ?lt = "\<lambda>x y. c (k x) (k y)"
  have sl: "sorted_wrt ?lt (inorder l)" and sr: "sorted_wrt ?lt (inorder r)"
    and la: "\<forall>x\<in>set_tree l. c (k x) (k a)" and ra: "\<forall>y\<in>set_tree r. c (k a) (k y)"
    using Node.prems(1) by (auto simp: sorted_wrt_append)
  have cl: "\<forall>x\<in>set_tree l. c (k x) (k n) \<or> c (k n) (k x)"
    and cr: "\<forall>x\<in>set_tree r. c (k x) (k n) \<or> c (k n) (k x)"
    and ca: "c (k a) (k n) \<or> c (k n) (k a)" using Node.prems(3) by auto
  show ?case
  proof (cases "pr n > pr a")
    case True
    obtain t1 t2 where s: "split_shape (\<lambda>x. c (k x) (k n)) (Node l a r) = (t1, t2)" by fastforce
    from split_shape_sorted[OF s Node.prems(1,2)]
    have p: "\<forall>x\<in>set_tree t1. c (k x) (k n)" "\<forall>x\<in>set_tree t2. \<not> c (k x) (k n)" by auto
    have "set_tree t2 \<subseteq> set_tree (Node l a r)" using split_shape_set[OF s] by auto
    with p(2) Node.prems(3) have "\<forall>x\<in>set_tree t2. c (k n) (k x)" by blast
    with p(1) split_shape_inorder[OF s] s True show ?thesis
      by (intro exI[of _ "inorder t1"] exI[of _ "inorder t2"]) auto
  next
    case False
    show ?thesis
    proof (cases "c (k n) (k a)")
      case True
      from Node.IH(1)[OF sl Node.prems(2) cl] obtain xs ys where
        i: "inorder (insert_shape pr ?lt l n) = xs @ n # ys" "xs @ ys = inorder l"
        "\<forall>x\<in>set xs. c (k x) (k n)" "\<forall>y\<in>set ys. c (k n) (k y)" by auto
      have "\<forall>y\<in>set_tree r. c (k n) (k y)" using ra True Node.prems(2) by (auto dest: transpD)
      with i True False show ?thesis
        by (intro exI[of _ xs] exI[of _ "ys @ a # inorder r"]) auto
    next
      case F: False
      with ca have an: "c (k a) (k n)" by simp
      from Node.IH(2)[OF sr Node.prems(2) cr] obtain xs ys where
        i: "inorder (insert_shape pr ?lt r n) = xs @ n # ys" "xs @ ys = inorder r"
        "\<forall>x\<in>set xs. c (k x) (k n)" "\<forall>y\<in>set ys. c (k n) (k y)" by auto
      have "\<forall>x\<in>set_tree l. c (k x) (k n)" using la an Node.prems(2) by (auto dest: transpD)
      with i F False an show ?thesis
        by (intro exI[of _ "inorder l @ a # xs"] exI[of _ ys]) auto
    qed
  qed
qed

lemma sorted_wrt_insert_mid:
  "sorted_wrt P (xs @ ys) \<Longrightarrow> \<forall>x\<in>set xs. P x n \<Longrightarrow> \<forall>y\<in>set ys. P n y \<Longrightarrow>
   sorted_wrt P (xs @ n # ys)"
  by (auto simp: sorted_wrt_append)

lemma heap_ordered_cong:
  "\<forall>x\<in>set_tree t. pr' x = pr x \<Longrightarrow> heap_ordered pr' t = heap_ordered pr t"
  by (induction t) auto

lemma sorted_wrt_cong_set:
  "\<forall>x\<in>set xs. \<forall>y\<in>set xs. P x y = Q x y \<Longrightarrow> sorted_wrt P xs = sorted_wrt Q xs"
  by (induction xs) auto

lemma treap_wf_cong:
  assumes "treap_wf H e W" and "\<forall>x\<in>insert e (set_tree W). H' x = H x"
  shows "treap_wf H' e W"
proof -
  have t: "tree_at H (Some e) (Node W e Leaf)" and d: "distinct (inorder (Node W e Leaf))"
    using assms(1) by (auto simp: treap_wf_def)
  have "tree_at H' (Some e) (Node W e Leaf)"
    by (rule tree_at_cong[OF t]) (use assms(2) d in auto)
  then show ?thesis using assms by (auto simp: treap_wf_def)
qed

lemma treap_inv_cong:
  assumes "treap_inv T g H e W"
    and "\<forall>x\<in>insert e (set_tree W). H' x = H x \<and> g' x = g x"
  shows "treap_inv T g' H' e W"
proof -
  have "treap_wf H' e W" using assms by (auto simp: treap_inv_def intro: treap_wf_cong)
  moreover have "heap_ordered (\<lambda>a. priority (H' a)) W = heap_ordered (\<lambda>a. priority (H a)) W"
    by (rule heap_ordered_cong) (use assms(2) in auto)
  moreover have "sorted_wrt (\<lambda>x y. cmp T (the (g' x)) (the (g' y))) (inorder W) =
      sorted_wrt (\<lambda>x y. cmp T (the (g x)) (the (g y))) (inorder W)"
    by (rule sorted_wrt_cong_set) (use assms(2) in auto)
  ultimately show ?thesis using assms by (auto simp: treap_inv_def)
qed

lemma treap_find_inv:
  assumes "treap_inv T g H e W"
  shows "\<exists>res. treap_find T g H key = Some res \<and>
           ((res = Some e \<and> (\<forall>a\<in>set_tree W. \<not> equiv_key (cmp T) (the (g a)) key)) \<or>
            (\<exists>a\<in>set_tree W. res = Some a \<and> equiv_key (cmp T) (the (g a)) key))"
proof -
  from assms have e: "end_elem T = Some e" and wf: "treap_wf H e W"
    and keys: "\<forall>a\<in>set_tree W. g a = Some (the (g a))"
    and s: "sorted_wrt (\<lambda>x y. cmp T (the (g x)) (the (g y))) (inorder W)" and tr: "transp (cmp T)"
    by (auto simp: treap_inv_def)
  note w = treap_wf_D[OF wf]
  from treap_find_from_tree[OF w(4) keys s tr, of key] e w(1)
  show ?thesis by (auto simp: treap_find_def treap_root_def equiv_key_def)
qed

lemma treap_insert_node_inv:
  assumes inv: "treap_inv T g H e W"
    and n: "n \<noteq> e" "g n = None"
    and cmpb: "\<forall>x\<in>set_tree W. \<not> equiv_key (cmp T) (the (g x)) key"
  shows "\<exists>H' W' xs ys. treap_insert_node T (g(n \<mapsto> key)) (H(n := node_tree_init p)) n = Some H' \<and>
           treap_inv T (g(n \<mapsto> key)) H' e W' \<and>
           inorder W' = xs @ n # ys \<and> xs @ ys = inorder W \<and>
           same_outside (H(n := node_tree_init p)) H' (insert e (insert n (set_tree W)))"
proof -
  let ?g = "g(n \<mapsto> key)" and ?H = "H(n := node_tree_init p)"
  let ?k = "\<lambda>a. the (?g a)" and ?pr = "\<lambda>a. priority (?H a)"
  from inv have e: "end_elem T = Some e" and wf: "treap_wf H e W" and ge: "g e = None"
    and keys: "\<forall>a\<in>set_tree W. g a \<noteq> None"
    and s: "sorted_wrt (\<lambda>x y. cmp T (the (g x)) (the (g y))) (inorder W)"
    and ho: "heap_ordered (\<lambda>a. priority (H a)) W" and ir: "irreflp (cmp T)" and tr: "transp (cmp T)"
    by (auto simp: treap_inv_def)
  have nW: "n \<notin> set_tree W" using keys n(2) by auto
  have wf0: "treap_wf ?H e W" by (rule treap_wf_cong[OF wf]) (use nW n(1) in auto)
  have keys0: "\<forall>a\<in>insert n (set_tree W). ?g a = Some (?k a)" using keys by auto
  have s0: "sorted_wrt (\<lambda>x y. cmp T (?k x) (?k y)) (inorder W)"
    using s nW by (subst sorted_wrt_cong_set[where Q="\<lambda>x y. cmp T (the (g x)) (the (g y))"]) auto
  have ho0: "heap_ordered ?pr W"
    using ho nW by (subst heap_ordered_cong[where pr="\<lambda>a. priority (H a)"]) auto
  have cmpb0: "\<forall>x\<in>set_tree W. cmp T (?k x) (?k n) \<or> cmp T (?k n) (?k x)"
    using cmpb nW by (auto simp: equiv_key_def)
  let ?W' = "insert_shape ?pr (\<lambda>x y. cmp T (?k x) (?k y)) W n"
  have ln: "left (?H n) = None" and rn: "right (?H n) = None" by (simp_all add: node_tree_init_def)
  have prs: "\<forall>a. ?pr a = priority (?H a)" by simp
  from treap_insert_node_wf[OF wf0 e nW n(1) ln rn keys0 prs]
  obtain H' where r: "treap_insert_node T ?g ?H n = Some H'" and wf': "treap_wf H' e ?W'"
    and so: "same_outside ?H H' (insert e (insert n (set_tree W)))" and sp: "same_prio ?H H'"
    by blast
  from insert_shape_sorted_inorder[OF s0 tr cmpb0, of ?pr] obtain xs ys where
    io: "inorder ?W' = xs @ n # ys" "xs @ ys = inorder W"
    "\<forall>x\<in>set xs. cmp T (?k x) (?k n)" "\<forall>y\<in>set ys. cmp T (?k n) (?k y)" by auto
  have "sorted_wrt (\<lambda>x y. cmp T (?k x) (?k y)) (xs @ ys)" using s0 io(2) by simp
  from sorted_wrt_insert_mid[OF this io(3,4)]
  have s': "sorted_wrt (\<lambda>x y. cmp T (?k x) (?k y)) (inorder ?W')" using io(1) by simp
  have "heap_ordered ?pr ?W'" using ho0 by (rule insert_shape_heap)
  then have ho': "heap_ordered (\<lambda>a. priority (H' a)) ?W'"
    using sp by (subst heap_ordered_cong[where pr="?pr"]) (auto simp: same_prio_def)
  have "\<forall>a\<in>set_tree ?W'. ?g a \<noteq> None" using keys by (auto simp: insert_shape_set)
  then have "treap_inv T ?g H' e ?W'"
    using e wf' ge n(1) s' ho' ir tr by (auto simp: treap_inv_def)
  then show ?thesis using r io(1,2) so by blast
qed

lemma treap_remove_inv:
  assumes inv: "treap_inv T g H e W" and io: "inorder W = xs @ a # ys"
  shows "\<exists>H' W'. treap_remove T H a = Some (H', first_or ys (Some e)) \<and>
           treap_inv T g H' e W' \<and> inorder W' = xs @ ys \<and>
           same_outside H H' (insert e (set_tree W))"
proof -
  let ?pr = "\<lambda>a. priority (H a)"
  from inv have e: "end_elem T = Some e" and wf: "treap_wf H e W" and ge: "g e = None"
    and keys: "\<forall>a\<in>set_tree W. g a \<noteq> None"
    and s: "sorted_wrt (\<lambda>x y. cmp T (the (g x)) (the (g y))) (inorder W)"
    and ho: "heap_ordered ?pr W" and ir: "irreflp (cmp T)" and tr: "transp (cmp T)"
    by (auto simp: treap_inv_def)
  note w = treap_wf_D[OF wf]
  let ?W' = "remove_shape ?pr a W"
  have prs: "\<forall>a. ?pr a = priority (H a)" by simp
  from treap_remove_wf[OF wf e io prs]
  obtain H' where r: "treap_remove T H a = Some (H', first_or ys (Some e))"
    and wf': "treap_wf H' e ?W'" and so: "same_outside H H' (insert e (set_tree W))"
    and sp: "same_prio H H'" by blast
  have d: "distinct (xs @ a # ys)" using w(6) io by simp
  have io': "inorder ?W' = xs @ ys"
    using remove_shape_inorder[OF w(6), of ?pr a] io d by (simp add: removeAll_id)
  have s': "sorted_wrt (\<lambda>x y. cmp T (the (g x)) (the (g y))) (inorder ?W')"
    using s io io' by (auto simp: sorted_wrt_append)
  have "heap_ordered ?pr ?W'" using w(6) ho by (rule remove_shape_heap)
  then have ho': "heap_ordered (\<lambda>a. priority (H' a)) ?W'"
    using sp by (subst heap_ordered_cong[where pr="?pr"]) (auto simp: same_prio_def)
  have "set_tree ?W' \<subseteq> set_tree W" using remove_shape_set[OF w(6), of ?pr a] by auto
  with keys have "\<forall>a\<in>set_tree ?W'. g a \<noteq> None" by auto
  then have "treap_inv T g H' e ?W'"
    using e wf' ge s' ho' ir tr by (auto simp: treap_inv_def)
  then show ?thesis using r io' so by blast
qed

lemma treap_first_inv:
  assumes "treap_inv T g H e W"
  shows "treap_first T H = Some (first_or (inorder W) (Some e))"
proof -
  from assms have e: "end_elem T = Some e" and wf: "treap_wf H e W" by (auto simp: treap_inv_def)
  have t: "tree_at H (Some e) (Node W e Leaf)" using wf by (simp add: treap_wf_def)
  from descend_left_tree[OF t] have "descend_left H e = Some (hd (inorder W @ [e]))" by simp
  then show ?thesis using e by (cases "inorder W") (auto simp: treap_first_def)
qed

lemma iterate_inv:
  assumes "treap_inv T g H e W" and "inorder W = xs @ ys"
  shows "iterate H (first_or ys (Some e)) (Some e) = Some ys"
  using assms(2)
proof (induction ys arbitrary: xs)
  case Nil
  then show ?case by (subst iterate.simps) simp
next
  case (Cons y ys)
  from assms(1) have wf: "treap_wf H e W" by (auto simp: treap_inv_def)
  note w = treap_wf_D[OF wf]
  have "y \<in> set (inorder W)" unfolding Cons.prems by simp
  then have "y \<in> set_tree W" by simp
  then have ye: "y \<noteq> e" using w(7) by auto
  have n: "node_next H y = Some (first_or ys (Some e))" using node_next_wf[OF wf Cons.prems] .
  have "inorder W = (xs @ [y]) @ ys" using Cons.prems by simp
  from Cons.IH[OF this] have "iterate H (first_or ys (Some e)) (Some e) = Some ys" .
  then show ?case using ye n by (subst iterate.simps) simp
qed

lemma treap_lower_bound_inv:
  assumes "treap_inv T g H e W"
  shows "treap_lower_bound T g H key =
           Some (first_or (filter (\<lambda>a. \<not> cmp T (the (g a)) key) (inorder W)) (Some e))"
proof -
  from assms have e: "end_elem T = Some e" and wf: "treap_wf H e W"
    and keys: "\<forall>a\<in>set_tree W. g a = Some (the (g a))"
    and s: "sorted_wrt (\<lambda>x y. cmp T (the (g x)) (the (g y))) (inorder W)" and tr: "transp (cmp T)"
    by (auto simp: treap_inv_def)
  note w = treap_wf_D[OF wf]
  from lower_bound_loop_tree[OF w(4) keys s tr, of key None] e w(1)
  show ?thesis
    by (cases "filter (\<lambda>a. \<not> cmp T (the (g a)) key) (inorder W)")
      (auto simp: treap_lower_bound_def treap_root_def)
qed

lemma treap_upper_bound_inv:
  assumes "treap_inv T g H e W"
  shows "treap_upper_bound T g H key =
           Some (first_or (filter (\<lambda>a. cmp T key (the (g a))) (inorder W)) (Some e))"
proof -
  from assms have e: "end_elem T = Some e" and wf: "treap_wf H e W"
    and keys: "\<forall>a\<in>set_tree W. g a = Some (the (g a))"
    and s: "sorted_wrt (\<lambda>x y. cmp T (the (g x)) (the (g y))) (inorder W)" and tr: "transp (cmp T)"
    by (auto simp: treap_inv_def)
  note w = treap_wf_D[OF wf]
  from upper_bound_loop_tree[OF w(4) keys s tr, of key None] e w(1)
  show ?thesis
    by (cases "filter (\<lambda>a. cmp T key (the (g a))) (inorder W)")
      (auto simp: treap_upper_bound_def treap_root_def)
qed

lemma left_view_inv:
  assumes "bimap_inv M b TL TR"
  shows "left_view M b = Some (inorder TL)"
proof -
  from assms have ti: "treap_inv (treap_left b) (key_left M) (nodes_left M) (end_node b) TL"
    by (simp add: bimap_inv_def)
  then have e: "end_left b = Some (end_node b)" by (simp add: treap_inv_def end_left_def)
  from iterate_inv[OF ti, of "[]" "inorder TL"] treap_first_inv[OF ti] e
  show ?thesis by (simp add: left_view_def begin_left_def)
qed

lemma right_view_inv:
  assumes "bimap_inv M b TL TR"
  shows "right_view M b = Some (inorder TR)"
proof -
  from assms have ti: "treap_inv (treap_right b) (key_right M) (nodes_right M) (end_node b) TR"
    by (simp add: bimap_inv_def)
  then have e: "end_right b = Some (end_node b)" by (simp add: treap_inv_def end_right_def)
  from iterate_inv[OF ti, of "[]" "inorder TR"] treap_first_inv[OF ti] e
  show ?thesis by (simp add: right_view_def begin_right_def)
qed

lemma bimap_inv_D:
  assumes "bimap_inv M b TL TR"
  shows "treap_inv (treap_left b) (key_left M) (nodes_left M) (end_node b) TL"
    "treap_inv (treap_right b) (key_right M) (nodes_right M) (end_node b) TR"
    "set_tree TR = set_tree TL" "size_m b = length (inorder TL)"
    "end_left b = Some (end_node b)" "end_right b = Some (end_node b)"
    "end_node b \<notin> set_tree TL" "distinct (inorder TL)" "distinct (inorder TR)"
    "\<forall>a\<in>set_tree TL. key_left M a \<noteq> None \<and> key_right M a \<noteq> None"
    "key_left M (end_node b) = None" "key_right M (end_node b) = None"
  using assms
  by (auto simp: bimap_inv_def treap_inv_def end_left_def end_right_def treap_wf_def)

lemma contains_left_inv:
  assumes "bimap_inv M b TL TR"
  shows "contains_left M b l =
           Some (\<exists>x\<in>set_tree TL. equiv_key (cmp (treap_left b)) (the (key_left M x)) l)"
proof -
  note d = bimap_inv_D[OF assms]
  from treap_find_inv[OF d(1), of l] d(5,7)
  show ?thesis by (auto simp: contains_left_def find_left_def)
qed

lemma contains_right_inv:
  assumes "bimap_inv M b TL TR"
  shows "contains_right M b r =
           Some (\<exists>x\<in>set_tree TL. equiv_key (cmp (treap_right b)) (the (key_right M x)) r)"
proof -
  note d = bimap_inv_D[OF assms]
  from treap_find_inv[OF d(2), of r] d(3,6,7)
  show ?thesis by (auto simp: contains_right_def find_right_def)
qed

lemma insert_impl_dup:
  assumes inv: "bimap_inv M b TL TR"
    and dup: "dup_left M b (inorder TL) l \<or> dup_right M b (inorder TL) r"
  shows "insert_impl M b l r alloc = Some (M, b, Inr (end_left b))"
  using dup contains_left_inv[OF inv, of l] contains_right_inv[OF inv, of r]
  by (auto simp: insert_impl_def dup_left_def dup_right_def)

lemma insert_impl_bad_alloc:
  assumes inv: "bimap_inv M b TL TR"
    and dup: "\<not> dup_left M b (inorder TL) l" "\<not> dup_right M b (inorder TL) r"
  shows "insert_impl M b l r None = Some (M, b, Inl bad_alloc)"
  using dup contains_left_inv[OF inv, of l] contains_right_inv[OF inv, of r]
  by (auto simp: insert_impl_def dup_left_def dup_right_def)

lemma insert_impl_inv:
  assumes inv: "bimap_inv M b TL TR"
    and dup: "\<not> dup_left M b (inorder TL) l" "\<not> dup_right M b (inorder TL) r"
    and fresh: "a \<noteq> end_node b" "key_left M a = None" "key_right M a = None"
  shows "\<exists>M' TL' TR' xs ys us vs.
           insert_impl M b l r (Some (a, pl, pr)) =
             Some (M', b\<lparr>size_m := size_m b + 1\<rparr>, Inr (Some a)) \<and>
           bimap_inv M' (b\<lparr>size_m := size_m b + 1\<rparr>) TL' TR' \<and>
           inorder TL' = xs @ a # ys \<and> xs @ ys = inorder TL \<and>
           inorder TR' = us @ a # vs \<and> us @ vs = inorder TR \<and>
           key_left M' = (key_left M)(a \<mapsto> l) \<and> key_right M' = (key_right M)(a \<mapsto> r) \<and>
           (\<forall>x. x \<notin> insert (end_node b) (insert a (set_tree TL)) \<longrightarrow>
              nodes_left M' x = nodes_left M x \<and> nodes_right M' x = nodes_right M x)"
proof -
  note d = bimap_inv_D[OF inv]
  let ?e = "end_node b"
  have cl: "contains_left M b l = Some False" and cr: "contains_right M b r = Some False"
    using dup contains_left_inv[OF inv, of l] contains_right_inv[OF inv, of r]
    by (auto simp: dup_left_def dup_right_def)
  have nl: "\<forall>x\<in>set_tree TL. \<not> equiv_key (cmp (treap_left b)) (the (key_left M x)) l"
    using dup(1) by (auto simp: dup_left_def)
  have nr: "\<forall>x\<in>set_tree TR. \<not> equiv_key (cmp (treap_right b)) (the (key_right M x)) r"
    using dup(2) d(3) by (auto simp: dup_right_def)
  from treap_insert_node_inv[OF d(1) fresh(1,2) nl, of pl]
  obtain HL TL' xs ys where
    il: "treap_insert_node (treap_left b) ((key_left M)(a \<mapsto> l))
           ((nodes_left M)(a := node_tree_init pl)) a = Some HL"
    and tl: "treap_inv (treap_left b) ((key_left M)(a \<mapsto> l)) HL ?e TL'"
    and iol: "inorder TL' = xs @ a # ys" "xs @ ys = inorder TL"
    and sol: "same_outside ((nodes_left M)(a := node_tree_init pl)) HL (insert ?e (insert a (set_tree TL)))"
    by blast
  from treap_insert_node_inv[OF d(2) fresh(1,3) nr, of pr]
  obtain HR TR' us vs where
    ir: "treap_insert_node (treap_right b) ((key_right M)(a \<mapsto> r))
           ((nodes_right M)(a := node_tree_init pr)) a = Some HR"
    and tr: "treap_inv (treap_right b) ((key_right M)(a \<mapsto> r)) HR ?e TR'"
    and ior: "inorder TR' = us @ a # vs" "us @ vs = inorder TR"
    and sor: "same_outside ((nodes_right M)(a := node_tree_init pr)) HR (insert ?e (insert a (set_tree TR)))"
    by blast
  define M' where "M' = M\<lparr>nodes_left := HL, nodes_right := HR,
      key_left := (key_left M)(a \<mapsto> l), key_right := (key_right M)(a \<mapsto> r)\<rparr>"
  let ?b' = "b\<lparr>size_m := size_m b + 1\<rparr>"
  have res: "insert_impl M b l r (Some (a, pl, pr)) = Some (M', ?b', Inr (Some a))"
    using cl cr il ir by (simp add: insert_impl_def new_node_def M'_def)
  have "set (inorder TL') = insert a (set (inorder TL))" unfolding iol(1) iol(2)[symmetric] by auto
  then have sTL: "set_tree TL' = insert a (set_tree TL)" by simp
  have "set (inorder TR') = insert a (set (inorder TR))" unfolding ior(1) ior(2)[symmetric] by auto
  then have sTR: "set_tree TR' = insert a (set_tree TR)" by simp
  have len: "length (inorder TL') = length (inorder TL) + 1"
    unfolding iol(1) iol(2)[symmetric] by simp
  have "bimap_inv M' ?b' TL' TR'"
    using tl tr sTL sTR d(3,4) len by (simp add: bimap_inv_def M'_def)
  moreover have "\<forall>x. x \<notin> insert ?e (insert a (set_tree TL)) \<longrightarrow>
              nodes_left M' x = nodes_left M x \<and> nodes_right M' x = nodes_right M x"
    using sol sor d(3) by (auto simp: same_outside_def M'_def)
  moreover have "key_left M' = (key_left M)(a \<mapsto> l)" "key_right M' = (key_right M)(a \<mapsto> r)"
    by (simp_all add: M'_def)
  ultimately show ?thesis using res iol ior
    by (intro exI[of _ M'] exI[of _ TL'] exI[of _ TR'] exI[of _ xs] exI[of _ ys] exI[of _ us]
        exI[of _ vs]) simp
qed

lemma erase_impl_inv:
  assumes inv: "bimap_inv M b TL TR"
    and iol: "inorder TL = xs @ a # ys" and ior: "inorder TR = us @ a # vs"
  shows "\<exists>M' TL' TR'.
           erase_impl M b (Some a) =
             Some (M', b\<lparr>size_m := size_m b - 1\<rparr>, first_or ys (Some (end_node b)),
                   first_or vs (Some (end_node b))) \<and>
           bimap_inv M' (b\<lparr>size_m := size_m b - 1\<rparr>) TL' TR' \<and>
           inorder TL' = xs @ ys \<and> inorder TR' = us @ vs \<and>
           key_left M' = (key_left M)(a := None) \<and> key_right M' = (key_right M)(a := None) \<and>
           (\<forall>x. x \<notin> insert (end_node b) (set_tree TL) \<longrightarrow>
              nodes_left M' x = nodes_left M x \<and> nodes_right M' x = nodes_right M x)"
proof -
  note d = bimap_inv_D[OF inv]
  let ?e = "end_node b"
  from treap_remove_inv[OF d(2) ior]
  obtain HR TR' where rr: "treap_remove (treap_right b) (nodes_right M) a = Some (HR, first_or vs (Some ?e))"
    and tr: "treap_inv (treap_right b) (key_right M) HR ?e TR'"
    and ior': "inorder TR' = us @ vs"
    and sor: "same_outside (nodes_right M) HR (insert ?e (set_tree TR))" by blast
  from treap_remove_inv[OF d(1) iol]
  obtain HL TL' where rl: "treap_remove (treap_left b) (nodes_left M) a = Some (HL, first_or ys (Some ?e))"
    and tl: "treap_inv (treap_left b) (key_left M) HL ?e TL'"
    and iol': "inorder TL' = xs @ ys"
    and sol: "same_outside (nodes_left M) HL (insert ?e (set_tree TL))" by blast
  define M' where "M' = M\<lparr>nodes_left := HL, nodes_right := HR,
      key_left := (key_left M)(a := None), key_right := (key_right M)(a := None)\<rparr>"
  let ?b' = "b\<lparr>size_m := size_m b - 1\<rparr>"
  have res: "erase_impl M b (Some a) =
      Some (M', ?b', first_or ys (Some ?e), first_or vs (Some ?e))"
  proof -
    have "size_m b \<noteq> 0" using d(4) iol by simp
    then have "size_dec (size_m b) = size_m b - 1" by (simp add: size_dec_def)
    with rr rl show ?thesis by (simp add: erase_impl_def delete_node_def M'_def)
  qed
  have "a \<in> set (inorder TL)" unfolding iol by simp
  then have aL: "a \<in> set_tree TL" by simp
  have ae: "a \<noteq> ?e" using aL d(7) by auto
  have dl: "distinct (xs @ a # ys)" using d(8) iol by simp
  have dr: "distinct (us @ a # vs)" using d(9) ior by simp
  have "set (inorder TL') = set (inorder TL) - {a}" using iol iol' dl by auto
  then have sL: "set_tree TL' = set_tree TL - {a}" by simp
  have "set (inorder TR') = set (inorder TR) - {a}" using ior ior' dr by auto
  then have sR: "set_tree TR' = set_tree TR - {a}" by simp
  have tl': "treap_inv (treap_left b) ((key_left M)(a := None)) HL ?e TL'"
    by (rule treap_inv_cong[OF tl]) (use sL ae in auto)
  have tr': "treap_inv (treap_right b) ((key_right M)(a := None)) HR ?e TR'"
    by (rule treap_inv_cong[OF tr]) (use sR ae in auto)
  have len: "length (inorder TL') = length (inorder TL) - 1" using iol iol' by simp
  have "bimap_inv M' ?b' TL' TR'"
    using tl' tr' sL sR d(3,4) len by (simp add: bimap_inv_def M'_def)
  moreover have "\<forall>x. x \<notin> insert ?e (set_tree TL) \<longrightarrow>
              nodes_left M' x = nodes_left M x \<and> nodes_right M' x = nodes_right M x"
    using sol sor d(3) by (auto simp: same_outside_def M'_def)
  moreover have "key_left M' = (key_left M)(a := None)" "key_right M' = (key_right M)(a := None)"
    by (simp_all add: M'_def)
  ultimately show ?thesis using res iol' ior'
    by (intro exI[of _ M'] exI[of _ TL'] exI[of _ TR']) simp
qed

lemma bimap_inv_frame:
  assumes "bimap_inv M b TL TR"
    and "\<forall>x\<in>insert (end_node b) (set_tree TL). same_at M M' x"
  shows "bimap_inv M' b TL TR"
proof -
  note d = bimap_inv_D[OF assms(1)]
  have "treap_inv (treap_left b) (key_left M') (nodes_left M') (end_node b) TL"
    by (rule treap_inv_cong[OF d(1)]) (use assms(2) in \<open>auto simp: same_at_def\<close>)
  moreover have "treap_inv (treap_right b) (key_right M') (nodes_right M') (end_node b) TR"
    by (rule treap_inv_cong[OF d(2)]) (use assms(2) d(3) in \<open>auto simp: same_at_def\<close>)
  ultimately show ?thesis using d(3,4) by (simp add: bimap_inv_def)
qed

lemma bimap_ctor_inv:
  assumes "irreflp cl" "transp cl" "irreflp cr" "transp cr"
    and "key_left M e = None" "key_right M e = None"
  shows "\<exists>M' b. bimap_ctor M e cl cr ps = Some (M', b) \<and> bimap_inv M' b Leaf Leaf \<and>
           cmp (treap_left b) = cl \<and> cmp (treap_right b) = cr \<and> end_node b = e \<and>
           key_left M' = key_left M \<and> key_right M' = key_right M \<and>
           (\<forall>x. x \<noteq> e \<longrightarrow> nodes_left M' x = nodes_left M x \<and> nodes_right M' x = nodes_right M x)"
  using assms
  by (simp add: bimap_ctor_def init_members_def treap_ctor_def validate_ends_def validate_end_def
      treap_root_def node_tree_init_def assign_parent_def assign_right_def assign_left_def
      set_parent_def bimap_inv_def treap_inv_def treap_wf_def)

lemma find_left_inv:
  assumes "bimap_inv M b TL TR"
  shows "\<exists>res. find_left M b l = Some res \<and>
           ((res = end_left b \<and> \<not> dup_left M b (inorder TL) l) \<or>
            (\<exists>a\<in>set_tree TL. res = Some a \<and> equiv_key (cmp (treap_left b)) (the (key_left M a)) l))"
proof -
  note d = bimap_inv_D[OF assms]
  from treap_find_inv[OF d(1), of l] d(5)
  show ?thesis by (auto simp: find_left_def dup_left_def)
qed

lemma find_right_inv:
  assumes "bimap_inv M b TL TR"
  shows "\<exists>res. find_right M b r = Some res \<and>
           ((res = end_right b \<and> \<not> dup_right M b (inorder TL) r) \<or>
            (\<exists>a\<in>set_tree TL. res = Some a \<and> equiv_key (cmp (treap_right b)) (the (key_right M a)) r))"
proof -
  note d = bimap_inv_D[OF assms]
  from treap_find_inv[OF d(2), of r] d(3,6)
  show ?thesis by (auto simp: find_right_def dup_right_def)
qed

lemma equiv_unique:
  assumes "sorted_wrt (\<lambda>x y. c (k x) (k y)) xs" and "strict_weak_order c"
    and "a \<in> set xs" "a' \<in> set xs" "equiv_key c (k a) key" "equiv_key c (k a') key"
  shows "a = a'"
proof (rule ccontr)
  assume ne: "a \<noteq> a'"
  have sym: "equiv_key c key (k a')" using assms(6) by (auto simp: equiv_key_def)
  from assms(2,5) sym have e: "equiv_key c (k a) (k a')"
    unfolding strict_weak_order_def by blast
  from assms(1,3,4) ne have "c (k a) (k a') \<or> c (k a') (k a)"
    by (induction xs) auto
  with e show False by (auto simp: equiv_key_def)
qed

lemma in_inorder_split: "a \<in> set_tree t \<Longrightarrow> \<exists>xs ys. inorder t = xs @ a # ys"
  by (metis set_inorder split_list)

lemma erase_left_inv:
  assumes inv: "bimap_inv M b TL TR"
    and iol: "inorder TL = xs @ a # ys" and ior: "inorder TR = us @ a # vs"
  shows "\<exists>M' TL' TR'.
           erase_left M b (Some a) =
             Some (M', b\<lparr>size_m := size_m b - 1\<rparr>, first_or ys (Some (end_node b))) \<and>
           bimap_inv M' (b\<lparr>size_m := size_m b - 1\<rparr>) TL' TR' \<and>
           inorder TL' = xs @ ys \<and> inorder TR' = us @ vs \<and>
           key_left M' = (key_left M)(a := None) \<and> key_right M' = (key_right M)(a := None) \<and>
           (\<forall>x. x \<notin> insert (end_node b) (set_tree TL) \<longrightarrow>
              nodes_left M' x = nodes_left M x \<and> nodes_right M' x = nodes_right M x)"
proof -
  from erase_impl_inv[OF inv iol ior] obtain M' TL' TR' where
    "erase_impl M b (Some a) =
             Some (M', b\<lparr>size_m := size_m b - 1\<rparr>, first_or ys (Some (end_node b)),
                   first_or vs (Some (end_node b)))"
    "bimap_inv M' (b\<lparr>size_m := size_m b - 1\<rparr>) TL' TR'"
    "inorder TL' = xs @ ys" "inorder TR' = us @ vs"
    "key_left M' = (key_left M)(a := None)" "key_right M' = (key_right M)(a := None)"
    "\<forall>x. x \<notin> insert (end_node b) (set_tree TL) \<longrightarrow>
              nodes_left M' x = nodes_left M x \<and> nodes_right M' x = nodes_right M x" by blast
  then show ?thesis
    by (intro exI[of _ M'] exI[of _ TL'] exI[of _ TR']) (simp add: erase_left_def)
qed

lemma erase_right_inv:
  assumes inv: "bimap_inv M b TL TR"
    and iol: "inorder TL = xs @ a # ys" and ior: "inorder TR = us @ a # vs"
  shows "\<exists>M' TL' TR'.
           erase_right M b (Some a) =
             Some (M', b\<lparr>size_m := size_m b - 1\<rparr>, first_or vs (Some (end_node b))) \<and>
           bimap_inv M' (b\<lparr>size_m := size_m b - 1\<rparr>) TL' TR' \<and>
           inorder TL' = xs @ ys \<and> inorder TR' = us @ vs \<and>
           key_left M' = (key_left M)(a := None) \<and> key_right M' = (key_right M)(a := None) \<and>
           (\<forall>x. x \<notin> insert (end_node b) (set_tree TL) \<longrightarrow>
              nodes_left M' x = nodes_left M x \<and> nodes_right M' x = nodes_right M x)"
proof -
  from erase_impl_inv[OF inv iol ior] obtain M' TL' TR' where
    "erase_impl M b (Some a) =
             Some (M', b\<lparr>size_m := size_m b - 1\<rparr>, first_or ys (Some (end_node b)),
                   first_or vs (Some (end_node b)))"
    "bimap_inv M' (b\<lparr>size_m := size_m b - 1\<rparr>) TL' TR'"
    "inorder TL' = xs @ ys" "inorder TR' = us @ vs"
    "key_left M' = (key_left M)(a := None)" "key_right M' = (key_right M)(a := None)"
    "\<forall>x. x \<notin> insert (end_node b) (set_tree TL) \<longrightarrow>
              nodes_left M' x = nodes_left M x \<and> nodes_right M' x = nodes_right M x" by blast
  then show ?thesis
    by (intro exI[of _ M'] exI[of _ TL'] exI[of _ TR']) (simp add: erase_right_def)
qed

lemma step_okI:
  "bimap_inv M' b' TL TR \<Longrightarrow> treap_left b' = treap_left b \<Longrightarrow>
   treap_right b' = treap_right b \<Longrightarrow> end_node b' = end_node b \<Longrightarrow> step_ok M b M' b'"
  by (auto simp: step_ok_def)

lemma step_ok_refl: "bimap_inv M b TL TR \<Longrightarrow> step_ok M b M b"
  by (auto simp: step_ok_def)

lemma erase_left_step:
  assumes inv: "bimap_inv M b TL TR" and a: "a \<in> set_tree TL"
  shows "\<exists>M' b' res. erase_left M b (Some a) = Some (M', b', res) \<and> step_ok M b M' b'"
proof -
  note d = bimap_inv_D[OF inv]
  from a obtain xs ys where iol: "inorder TL = xs @ a # ys" by (auto dest: in_inorder_split)
  from a d(3) have "a \<in> set_tree TR" by simp
  then obtain us vs where ior: "inorder TR = us @ a # vs" by (auto dest: in_inorder_split)
  from erase_left_inv[OF inv iol ior] obtain M' TL' TR' where
    e: "erase_left M b (Some a) =
             Some (M', b\<lparr>size_m := size_m b - 1\<rparr>, first_or ys (Some (end_node b)))"
    and i: "bimap_inv M' (b\<lparr>size_m := size_m b - 1\<rparr>) TL' TR'" by blast
  have "step_ok M b M' (b\<lparr>size_m := size_m b - 1\<rparr>)" by (rule step_okI[OF i]) simp_all
  with e show ?thesis by blast
qed

lemma erase_right_step:
  assumes inv: "bimap_inv M b TL TR" and a: "a \<in> set_tree TL"
  shows "\<exists>M' b' res. erase_right M b (Some a) = Some (M', b', res) \<and> step_ok M b M' b'"
proof -
  note d = bimap_inv_D[OF inv]
  from a obtain xs ys where iol: "inorder TL = xs @ a # ys" by (auto dest: in_inorder_split)
  from a d(3) have "a \<in> set_tree TR" by simp
  then obtain us vs where ior: "inorder TR = us @ a # vs" by (auto dest: in_inorder_split)
  from erase_right_inv[OF inv iol ior] obtain M' TL' TR' where
    e: "erase_right M b (Some a) =
             Some (M', b\<lparr>size_m := size_m b - 1\<rparr>, first_or vs (Some (end_node b)))"
    and i: "bimap_inv M' (b\<lparr>size_m := size_m b - 1\<rparr>) TL' TR'" by blast
  have "step_ok M b M' (b\<lparr>size_m := size_m b - 1\<rparr>)" by (rule step_okI[OF i]) simp_all
  with e show ?thesis by blast
qed

lemma erase_left_key_step:
  assumes inv: "bimap_inv M b TL TR"
  shows "\<exists>M' b' res. erase_left_key M b l = Some (M', b', res) \<and> step_ok M b M' b' \<and>
           res = dup_left M b (inorder TL) l"
proof -
  note d = bimap_inv_D[OF inv]
  from treap_find_inv[OF d(1), of l] obtain res where
    f: "treap_find (treap_left b) (key_left M) (nodes_left M) l = Some res"
    and c: "(res = Some (end_node b) \<and> (\<forall>a\<in>set_tree TL. \<not> equiv_key (cmp (treap_left b)) (the (key_left M a)) l)) \<or>
            (\<exists>a\<in>set_tree TL. res = Some a \<and> equiv_key (cmp (treap_left b)) (the (key_left M a)) l)"
    by blast
  have le: "end_elem (treap_left b) = Some (end_node b)" using d(5) by (simp add: end_left_def)
  from c show ?thesis
  proof
    assume "res = Some (end_node b) \<and> (\<forall>a\<in>set_tree TL. \<not> equiv_key (cmp (treap_left b)) (the (key_left M a)) l)"
    then show ?thesis using f le step_ok_refl[OF inv]
      by (auto simp: erase_left_key_def is_last_def dup_left_def)
  next
    assume "\<exists>a\<in>set_tree TL. res = Some a \<and> equiv_key (cmp (treap_left b)) (the (key_left M a)) l"
    then obtain a where a: "a \<in> set_tree TL" "res = Some a"
      "equiv_key (cmp (treap_left b)) (the (key_left M a)) l" by blast
    have "a \<noteq> end_node b" using a(1) d(7) by auto
    moreover from erase_left_step[OF inv a(1)] obtain M' b' r where
      "erase_left M b (Some a) = Some (M', b', r)" "step_ok M b M' b'" by blast
    ultimately show ?thesis using f le a
      by (auto simp: erase_left_key_def is_last_def dup_left_def)
  qed
qed

lemma erase_right_key_step:
  assumes inv: "bimap_inv M b TL TR"
  shows "\<exists>M' b' res. erase_right_key M b r = Some (M', b', res) \<and> step_ok M b M' b' \<and>
           res = dup_right M b (inorder TL) r"
proof -
  note d = bimap_inv_D[OF inv]
  from treap_find_inv[OF d(2), of r] obtain res where
    f: "treap_find (treap_right b) (key_right M) (nodes_right M) r = Some res"
    and c: "(res = Some (end_node b) \<and> (\<forall>a\<in>set_tree TR. \<not> equiv_key (cmp (treap_right b)) (the (key_right M a)) r)) \<or>
            (\<exists>a\<in>set_tree TR. res = Some a \<and> equiv_key (cmp (treap_right b)) (the (key_right M a)) r)"
    by blast
  have le: "end_elem (treap_right b) = Some (end_node b)" using d(6) by (simp add: end_right_def)
  from c show ?thesis
  proof
    assume "res = Some (end_node b) \<and> (\<forall>a\<in>set_tree TR. \<not> equiv_key (cmp (treap_right b)) (the (key_right M a)) r)"
    then show ?thesis using f le step_ok_refl[OF inv] d(3)
      by (auto simp: erase_right_key_def is_last_def dup_right_def)
  next
    assume "\<exists>a\<in>set_tree TR. res = Some a \<and> equiv_key (cmp (treap_right b)) (the (key_right M a)) r"
    then obtain a where a: "a \<in> set_tree TL" "res = Some a"
      "equiv_key (cmp (treap_right b)) (the (key_right M a)) r" using d(3) by blast
    have "a \<noteq> end_node b" using a(1) d(7) by auto
    moreover from erase_right_step[OF inv a(1)] obtain M' b' r' where
      "erase_right M b (Some a) = Some (M', b', r')" "step_ok M b M' b'" by blast
    ultimately show ?thesis using f le a
      by (auto simp: erase_right_key_def is_last_def dup_right_def)
  qed
qed

lemma step_ok_trans:
  "step_ok M b M1 b1 \<Longrightarrow> step_ok M1 b1 M2 b2 \<Longrightarrow> step_ok M b M2 b2"
  by (auto simp: step_ok_def)

lemma erase_left_range_inv:
  assumes "bimap_inv M b TL TR" and "inorder TL = xs @ ys @ zs"
  shows "\<exists>M' b' TL' TR'.
           erase_left_range M b (first_or (ys @ zs) (Some (end_node b)))
               (first_or zs (Some (end_node b))) =
             Some (M', b', first_or zs (Some (end_node b))) \<and>
           bimap_inv M' b' TL' TR' \<and> inorder TL' = xs @ zs \<and>
           inorder TR' = filter (\<lambda>x. x \<notin> set ys) (inorder TR) \<and>
           key_left M' = (\<lambda>x. if x \<in> set ys then None else key_left M x) \<and>
           key_right M' = (\<lambda>x. if x \<in> set ys then None else key_right M x) \<and>
           b' = b\<lparr>size_m := size_m b - length ys\<rparr> \<and>
           (\<forall>x. x \<notin> insert (end_node b) (set_tree TL) \<longrightarrow>
              nodes_left M' x = nodes_left M x \<and> nodes_right M' x = nodes_right M x)"
  using assms
proof (induction ys arbitrary: M b TL TR xs)
  case Nil
  have r: "erase_left_range M b (first_or ([] @ zs) (Some (end_node b)))
      (first_or zs (Some (end_node b))) = Some (M, b, first_or zs (Some (end_node b)))"
    by (subst erase_left_range.simps) simp
  have io: "inorder TL = xs @ zs" using Nil(2) by simp
  show ?case
    apply (rule exI[of _ M], rule exI[of _ b], rule exI[of _ TL], rule exI[of _ TR])
    apply (intro conjI)
           apply (rule r)
          apply (rule Nil(1))
         apply (rule io)
        apply simp_all
    done
next
  case (Cons y ys)
  note inv = Cons.prems(1) and iol = Cons.prems(2)
  note d = bimap_inv_D[OF inv]
  let ?e = "end_node b"
  have dl: "distinct (xs @ y # ys @ zs)" using d(8) iol by simp
  have "y \<in> set (inorder TL)" unfolding iol by simp
  then have yTL: "y \<in> set_tree TL" by simp
  then have ye: "y \<noteq> ?e" using d(7) by auto
  have ne: "Some y \<noteq> first_or zs (Some ?e)" using dl ye by (cases zs) auto
  from yTL d(3) have "y \<in> set_tree TR" by simp
  then obtain us vs where ior: "inorder TR = us @ y # vs" by (auto dest: in_inorder_split)
  have iol': "inorder TL = xs @ y # (ys @ zs)" using iol by simp
  from erase_left_inv[OF inv iol' ior] obtain M1 TL1 TR1 where
    e1: "erase_left M b (Some y) =
           Some (M1, b\<lparr>size_m := size_m b - 1\<rparr>, first_or (ys @ zs) (Some ?e))"
    and inv1: "bimap_inv M1 (b\<lparr>size_m := size_m b - 1\<rparr>) TL1 TR1"
    and io1: "inorder TL1 = xs @ ys @ zs" "inorder TR1 = us @ vs"
    and k1: "key_left M1 = (key_left M)(y := None)" "key_right M1 = (key_right M)(y := None)"
    and f1: "\<forall>x. x \<notin> insert ?e (set_tree TL) \<longrightarrow>
              nodes_left M1 x = nodes_left M x \<and> nodes_right M1 x = nodes_right M x" by blast
  let ?b1 = "b\<lparr>size_m := size_m b - 1\<rparr>"
  from Cons.IH[OF inv1 io1(1)] obtain M' b' TL' TR' where
    r: "erase_left_range M1 ?b1 (first_or (ys @ zs) (Some ?e)) (first_or zs (Some ?e)) =
          Some (M', b', first_or zs (Some ?e))"
    and inv': "bimap_inv M' b' TL' TR'" and io': "inorder TL' = xs @ zs"
      "inorder TR' = filter (\<lambda>x. x \<notin> set ys) (inorder TR1)"
    and k': "key_left M' = (\<lambda>x. if x \<in> set ys then None else key_left M1 x)"
      "key_right M' = (\<lambda>x. if x \<in> set ys then None else key_right M1 x)"
    and b': "b' = ?b1\<lparr>size_m := size_m ?b1 - length ys\<rparr>"
    and f': "\<forall>x. x \<notin> insert ?e (set_tree TL1) \<longrightarrow>
              nodes_left M' x = nodes_left M1 x \<and> nodes_right M' x = nodes_right M1 x"
    by auto
  have res: "erase_left_range M b (first_or ((y # ys) @ zs) (Some ?e)) (first_or zs (Some ?e)) =
      Some (M', b', first_or zs (Some ?e))"
    using ne e1 r by (subst erase_left_range.simps) simp
  have dr: "distinct (us @ y # vs)" using d(9) ior by simp
  have fu: "filter (\<lambda>x. x \<notin> set (y # ys)) us = filter (\<lambda>x. x \<notin> set ys) us"
    using dr by (intro filter_cong) auto
  have fv: "filter (\<lambda>x. x \<notin> set (y # ys)) vs = filter (\<lambda>x. x \<notin> set ys) vs"
    using dr by (intro filter_cong) auto
  have ior': "inorder TR' = filter (\<lambda>x. x \<notin> set (y # ys)) (inorder TR)"
    unfolding io'(2) io1(2) ior filter_append filter.simps using fu fv by simp
  have sub: "set_tree TL1 \<subseteq> set_tree TL"
  proof -
    have "set (inorder TL1) \<subseteq> set (inorder TL)" unfolding io1 iol by auto
    then show ?thesis by simp
  qed
  have kl: "key_left M' = (\<lambda>x. if x \<in> set (y # ys) then None else key_left M x)"
    and kr: "key_right M' = (\<lambda>x. if x \<in> set (y # ys) then None else key_right M x)"
    using k' k1 by (auto simp: fun_eq_iff)
  have bb: "b' = b\<lparr>size_m := size_m b - length (y # ys)\<rparr>" using b' by simp
  have fr: "\<forall>x. x \<notin> insert ?e (set_tree TL) \<longrightarrow>
              nodes_left M' x = nodes_left M x \<and> nodes_right M' x = nodes_right M x"
    using f1 f' sub by auto
  show ?case using res inv' io'(1) ior' kl kr bb fr
    by (intro exI[of _ M'] exI[of _ b'] exI[of _ TL'] exI[of _ TR']) simp
qed

lemma erase_right_range_inv:
  assumes "bimap_inv M b TL TR" and "inorder TR = xs @ ys @ zs"
  shows "\<exists>M' b' TL' TR'.
           erase_right_range M b (first_or (ys @ zs) (Some (end_node b)))
               (first_or zs (Some (end_node b))) =
             Some (M', b', first_or zs (Some (end_node b))) \<and>
           bimap_inv M' b' TL' TR' \<and> inorder TR' = xs @ zs \<and>
           inorder TL' = filter (\<lambda>x. x \<notin> set ys) (inorder TL) \<and>
           key_left M' = (\<lambda>x. if x \<in> set ys then None else key_left M x) \<and>
           key_right M' = (\<lambda>x. if x \<in> set ys then None else key_right M x) \<and>
           b' = b\<lparr>size_m := size_m b - length ys\<rparr> \<and>
           (\<forall>x. x \<notin> insert (end_node b) (set_tree TL) \<longrightarrow>
              nodes_left M' x = nodes_left M x \<and> nodes_right M' x = nodes_right M x)"
  using assms
proof (induction ys arbitrary: M b TL TR xs)
  case Nil
  have r: "erase_right_range M b (first_or ([] @ zs) (Some (end_node b)))
      (first_or zs (Some (end_node b))) = Some (M, b, first_or zs (Some (end_node b)))"
    by (subst erase_right_range.simps) simp
  have io: "inorder TR = xs @ zs" using Nil(2) by simp
  show ?case
    apply (rule exI[of _ M], rule exI[of _ b], rule exI[of _ TL], rule exI[of _ TR])
    apply (intro conjI)
           apply (rule r)
          apply (rule Nil(1))
         apply (rule io)
        apply simp_all
    done
next
  case (Cons y ys)
  note inv = Cons.prems(1) and ior = Cons.prems(2)
  note d = bimap_inv_D[OF inv]
  let ?e = "end_node b"
  have dr: "distinct (xs @ y # ys @ zs)" using d(9) ior by simp
  have "y \<in> set (inorder TR)" unfolding ior by simp
  then have yTR: "y \<in> set_tree TR" by simp
  then have yTL: "y \<in> set_tree TL" using d(3) by simp
  then have ye: "y \<noteq> ?e" using d(7) by auto
  have ne: "Some y \<noteq> first_or zs (Some ?e)" using dr ye by (cases zs) auto
  from yTL obtain us vs where iol: "inorder TL = us @ y # vs" by (auto dest: in_inorder_split)
  have ior': "inorder TR = xs @ y # (ys @ zs)" using ior by simp
  from erase_right_inv[OF inv iol ior'] obtain M1 TL1 TR1 where
    e1: "erase_right M b (Some y) =
           Some (M1, b\<lparr>size_m := size_m b - 1\<rparr>, first_or (ys @ zs) (Some ?e))"
    and inv1: "bimap_inv M1 (b\<lparr>size_m := size_m b - 1\<rparr>) TL1 TR1"
    and io1: "inorder TL1 = us @ vs" "inorder TR1 = xs @ ys @ zs"
    and k1: "key_left M1 = (key_left M)(y := None)" "key_right M1 = (key_right M)(y := None)"
    and f1: "\<forall>x. x \<notin> insert ?e (set_tree TL) \<longrightarrow>
              nodes_left M1 x = nodes_left M x \<and> nodes_right M1 x = nodes_right M x" by blast
  let ?b1 = "b\<lparr>size_m := size_m b - 1\<rparr>"
  from Cons.IH[OF inv1 io1(2)] obtain M' b' TL' TR' where
    r: "erase_right_range M1 ?b1 (first_or (ys @ zs) (Some ?e)) (first_or zs (Some ?e)) =
          Some (M', b', first_or zs (Some ?e))"
    and inv': "bimap_inv M' b' TL' TR'" and io': "inorder TR' = xs @ zs"
      "inorder TL' = filter (\<lambda>x. x \<notin> set ys) (inorder TL1)"
    and k': "key_left M' = (\<lambda>x. if x \<in> set ys then None else key_left M1 x)"
      "key_right M' = (\<lambda>x. if x \<in> set ys then None else key_right M1 x)"
    and b': "b' = ?b1\<lparr>size_m := size_m ?b1 - length ys\<rparr>"
    and f': "\<forall>x. x \<notin> insert ?e (set_tree TL1) \<longrightarrow>
              nodes_left M' x = nodes_left M1 x \<and> nodes_right M' x = nodes_right M1 x"
    by auto
  have res: "erase_right_range M b (first_or ((y # ys) @ zs) (Some ?e)) (first_or zs (Some ?e)) =
      Some (M', b', first_or zs (Some ?e))"
    using ne e1 r by (subst erase_right_range.simps) simp
  have dl: "distinct (us @ y # vs)" using d(8) iol by simp
  have fu: "filter (\<lambda>x. x \<notin> set (y # ys)) us = filter (\<lambda>x. x \<notin> set ys) us"
    using dl by (intro filter_cong) auto
  have fv: "filter (\<lambda>x. x \<notin> set (y # ys)) vs = filter (\<lambda>x. x \<notin> set ys) vs"
    using dl by (intro filter_cong) auto
  have iol': "inorder TL' = filter (\<lambda>x. x \<notin> set (y # ys)) (inorder TL)"
    unfolding io'(2) io1(1) iol filter_append filter.simps using fu fv by simp
  have sub: "set_tree TL1 \<subseteq> set_tree TL"
  proof -
    have "set (inorder TL1) \<subseteq> set (inorder TL)" unfolding io1 iol by auto
    then show ?thesis by simp
  qed
  have kl: "key_left M' = (\<lambda>x. if x \<in> set (y # ys) then None else key_left M x)"
    and kr: "key_right M' = (\<lambda>x. if x \<in> set (y # ys) then None else key_right M x)"
    using k' k1 by (auto simp: fun_eq_iff)
  have bb: "b' = b\<lparr>size_m := size_m b - length (y # ys)\<rparr>" using b' by simp
  have fr: "\<forall>x. x \<notin> insert ?e (set_tree TL) \<longrightarrow>
              nodes_left M' x = nodes_left M x \<and> nodes_right M' x = nodes_right M x"
    using f1 f' sub by auto
  show ?case using res inv' io'(1) iol' kl kr bb fr
    by (intro exI[of _ M'] exI[of _ b'] exI[of _ TL'] exI[of _ TR']) simp
qed

lemma insert_step:
  assumes inv: "bimap_inv M b TL TR" and fr: "fresh M b alloc"
  shows "\<exists>M' b' res. bimap_insert M b l r alloc = Some (M', b', res) \<and> step_ok M b M' b'"
proof (cases "dup_left M b (inorder TL) l \<or> dup_right M b (inorder TL) r")
  case True
  from insert_impl_dup[OF inv True] step_ok_refl[OF inv] show ?thesis
    by (auto simp: bimap_insert_def)
next
  case False
  then have nd: "\<not> dup_left M b (inorder TL) l" "\<not> dup_right M b (inorder TL) r" by auto
  show ?thesis
  proof (cases alloc)
    case None
    with insert_impl_bad_alloc[OF inv nd] step_ok_refl[OF inv] show ?thesis
      by (auto simp: bimap_insert_def)
  next
    case (Some t)
    obtain a pl pr where t: "t = (a, pl, pr)" by (cases t)
    from fr Some t have f: "a \<noteq> end_node b" "key_left M a = None" "key_right M a = None"
      by (auto simp: fresh_def)
    from insert_impl_inv[OF inv nd f, of pl pr] obtain M' TL' TR' where
      i: "insert_impl M b l r (Some (a, pl, pr)) =
             Some (M', b\<lparr>size_m := size_m b + 1\<rparr>, Inr (Some a))"
      and v: "bimap_inv M' (b\<lparr>size_m := size_m b + 1\<rparr>) TL' TR'" by blast
    have "step_ok M b M' (b\<lparr>size_m := size_m b + 1\<rparr>)" by (rule step_okI[OF v]) simp_all
    with i Some t show ?thesis by (auto simp: bimap_insert_def)
  qed
qed

lemma at_left_inv:
  assumes inv: "bimap_inv M b TL TR" and sw: "strict_weak_order (cmp (treap_left b))"
  shows "a \<in> set_tree TL \<Longrightarrow> equiv_key (cmp (treap_left b)) (the (key_left M a)) key \<Longrightarrow>
           at_left M b key = Some (Inr (the (key_right M a)))"
    and "\<not> dup_left M b (inorder TL) key \<Longrightarrow> at_left M b key = Some (Inl out_of_range)"
proof -
  note d = bimap_inv_D[OF inv]
  have le: "end_elem (treap_left b) = Some (end_node b)" using d(5) by (simp add: end_left_def)
  have s: "sorted_wrt (\<lambda>x y. cmp (treap_left b) (the (key_left M x)) (the (key_left M y))) (inorder TL)"
    using d(1) by (simp add: treap_inv_def)
  from treap_find_inv[OF d(1), of key] obtain res where
    f: "treap_find (treap_left b) (key_left M) (nodes_left M) key = Some res"
    and c: "(res = Some (end_node b) \<and> (\<forall>a\<in>set_tree TL. \<not> equiv_key (cmp (treap_left b)) (the (key_left M a)) key)) \<or>
            (\<exists>a\<in>set_tree TL. res = Some a \<and> equiv_key (cmp (treap_left b)) (the (key_left M a)) key)"
    by blast
  {
    assume a: "a \<in> set_tree TL" "equiv_key (cmp (treap_left b)) (the (key_left M a)) key"
    with c obtain a' where a': "a' \<in> set_tree TL" "res = Some a'"
      "equiv_key (cmp (treap_left b)) (the (key_left M a')) key" by blast
    have "a' = a"
      by (rule equiv_unique[OF s sw _ _ a'(3) a(2)]) (use a a' in auto)
    moreover have "a \<noteq> end_node b" using a(1) d(7) by auto
    moreover have "key_right M a \<noteq> None" using a(1) d(10) by auto
    ultimately show "at_left M b key = Some (Inr (the (key_right M a)))"
      using f a'(2) le by (auto simp: at_left_def is_last_def deref_right_def)
  }
  {
    assume "\<not> dup_left M b (inorder TL) key"
    with c have "res = Some (end_node b)" by (auto simp: dup_left_def)
    then show "at_left M b key = Some (Inl out_of_range)"
      using f le by (simp add: at_left_def is_last_def)
  }
qed

lemma at_right_inv:
  assumes inv: "bimap_inv M b TL TR" and sw: "strict_weak_order (cmp (treap_right b))"
  shows "a \<in> set_tree TL \<Longrightarrow> equiv_key (cmp (treap_right b)) (the (key_right M a)) key \<Longrightarrow>
           at_right M b key = Some (Inr (the (key_left M a)))"
    and "\<not> dup_right M b (inorder TL) key \<Longrightarrow> at_right M b key = Some (Inl out_of_range)"
proof -
  note d = bimap_inv_D[OF inv]
  have le: "end_elem (treap_right b) = Some (end_node b)" using d(6) by (simp add: end_right_def)
  have s: "sorted_wrt (\<lambda>x y. cmp (treap_right b) (the (key_right M x)) (the (key_right M y))) (inorder TR)"
    using d(2) by (simp add: treap_inv_def)
  from treap_find_inv[OF d(2), of key] obtain res where
    f: "treap_find (treap_right b) (key_right M) (nodes_right M) key = Some res"
    and c: "(res = Some (end_node b) \<and> (\<forall>a\<in>set_tree TR. \<not> equiv_key (cmp (treap_right b)) (the (key_right M a)) key)) \<or>
            (\<exists>a\<in>set_tree TR. res = Some a \<and> equiv_key (cmp (treap_right b)) (the (key_right M a)) key)"
    by blast
  {
    assume a: "a \<in> set_tree TL" "equiv_key (cmp (treap_right b)) (the (key_right M a)) key"
    with c d(3) obtain a' where a': "a' \<in> set_tree TR" "res = Some a'"
      "equiv_key (cmp (treap_right b)) (the (key_right M a')) key" by auto
    have "a' = a"
      by (rule equiv_unique[OF s sw _ _ a'(3) a(2)]) (use a a' d(3) in auto)
    moreover have "a \<noteq> end_node b" using a(1) d(7) by auto
    moreover have "key_left M a \<noteq> None" using a(1) d(10) by auto
    ultimately show "at_right M b key = Some (Inr (the (key_left M a)))"
      using f a'(2) le by (auto simp: at_right_def is_last_def deref_left_def)
  }
  {
    assume "\<not> dup_right M b (inorder TL) key"
    with c d(3) have "res = Some (end_node b)" by (auto simp: dup_right_def)
    then show "at_right M b key = Some (Inl out_of_range)"
      using f le by (simp add: at_right_def is_last_def)
  }
qed

lemma filter_remove_unique:
  assumes "distinct (xs @ d # ys)" and "\<not> P d" and "\<forall>x\<in>set (xs @ ys). P x"
  shows "filter P (xs @ d # ys) = xs @ ys"
  using assms by (auto simp: filter_id_conv)

lemma erase_default_right:
  assumes inv: "bimap_inv M b TL TR" and sw: "strict_weak_order (cmp (treap_right b))"
  shows "\<exists>it M1 b1 TL1 TR1.
           find_right M b val = Some it \<and>
           (if it \<noteq> end_right b
            then map_option (\<lambda>(M1, b1, res). (M1, b1)) (erase_right M b it)
            else Some (M, b)) = Some (M1, b1) \<and>
           bimap_inv M1 b1 TL1 TR1 \<and> step_ok M b M1 b1 \<and>
           inorder TL1 =
             filter (\<lambda>a. \<not> equiv_key (cmp (treap_right b)) (the (key_right M a)) val) (inorder TL) \<and>
           inorder TR1 =
             filter (\<lambda>a. \<not> equiv_key (cmp (treap_right b)) (the (key_right M a)) val) (inorder TR) \<and>
           (\<forall>x. key_left M1 x = (if x \<in> set_tree TL - set_tree TL1 then None else key_left M x) \<and>
                key_right M1 x = (if x \<in> set_tree TL - set_tree TL1 then None else key_right M x)) \<and>
           (\<forall>x. x \<notin> insert (end_node b) (set_tree TL) \<longrightarrow>
              nodes_left M1 x = nodes_left M x \<and> nodes_right M1 x = nodes_right M x)"
proof -
  note d = bimap_inv_D[OF inv]
  let ?eq = "\<lambda>a. equiv_key (cmp (treap_right b)) (the (key_right M a)) val"
  have s: "sorted_wrt (\<lambda>x y. cmp (treap_right b) (the (key_right M x)) (the (key_right M y))) (inorder TR)"
    using d(2) by (simp add: treap_inv_def)
  from find_right_inv[OF inv, of val] obtain it where f: "find_right M b val = Some it"
    and c: "(it = end_right b \<and> \<not> dup_right M b (inorder TL) val) \<or>
            (\<exists>a\<in>set_tree TL. it = Some a \<and> ?eq a)" by blast
  from c show ?thesis
  proof
    assume a: "it = end_right b \<and> \<not> dup_right M b (inorder TL) val"
    then have "\<forall>x\<in>set (inorder TL). \<not> ?eq x" by (auto simp: dup_right_def)
    then have fl: "filter (\<lambda>a. \<not> ?eq a) (inorder TL) = inorder TL" by (auto simp: filter_id_conv)
    from a d(3) have "\<forall>x\<in>set (inorder TR). \<not> ?eq x" by (auto simp: dup_right_def)
    then have fr: "filter (\<lambda>a. \<not> ?eq a) (inorder TR) = inorder TR" by (auto simp: filter_id_conv)
    show ?thesis
      by (rule exI[of _ it], rule exI[of _ M], rule exI[of _ b], rule exI[of _ TL],
          rule exI[of _ TR]) (use f a inv step_ok_refl[OF inv] fl fr in simp)
  next
    assume "\<exists>a\<in>set_tree TL. it = Some a \<and> ?eq a"
    then obtain a where a: "a \<in> set_tree TL" "it = Some a" "?eq a" by blast
    have ae: "it \<noteq> end_right b" using a(1,2) d(6,7) by auto
    from a(1) obtain xs ys where iol: "inorder TL = xs @ a # ys" by (auto dest: in_inorder_split)
    from a(1) d(3) have "a \<in> set_tree TR" by simp
    then obtain us vs where ior: "inorder TR = us @ a # vs" by (auto dest: in_inorder_split)
    from erase_right_inv[OF inv iol ior] obtain M1 TL1 TR1 where
      e: "erase_right M b (Some a) =
             Some (M1, b\<lparr>size_m := size_m b - 1\<rparr>, first_or vs (Some (end_node b)))"
      and i1: "bimap_inv M1 (b\<lparr>size_m := size_m b - 1\<rparr>) TL1 TR1"
      and io1: "inorder TL1 = xs @ ys" "inorder TR1 = us @ vs"
      and k1: "key_left M1 = (key_left M)(a := None)" "key_right M1 = (key_right M)(a := None)"
      and f1: "\<forall>x. x \<notin> insert (end_node b) (set_tree TL) \<longrightarrow>
              nodes_left M1 x = nodes_left M x \<and> nodes_right M1 x = nodes_right M x" by blast
    let ?b1 = "b\<lparr>size_m := size_m b - 1\<rparr>"
    have so: "step_ok M b M1 ?b1" by (rule step_okI[OF i1]) simp_all
    have uniq: "\<And>x. x \<in> set_tree TL \<Longrightarrow> ?eq x \<Longrightarrow> x = a"
      by (rule equiv_unique[OF s sw _ _ _ a(3)]) (use a(1) d(3) in auto)
    have dl: "distinct (xs @ a # ys)" using d(8) iol by simp
    have dr: "distinct (us @ a # vs)" using d(9) ior by simp
    have "\<forall>x\<in>set (xs @ ys). \<not> ?eq x"
    proof
      fix x assume x: "x \<in> set (xs @ ys)"
      then have "x \<in> set (inorder TL)" unfolding iol by auto
      then have "x \<in> set_tree TL" by simp
      moreover have "x \<noteq> a" using x dl by auto
      ultimately show "\<not> ?eq x" using uniq by blast
    qed
    from filter_remove_unique[OF dl _ this] a(3)
    have fl: "filter (\<lambda>a. \<not> ?eq a) (inorder TL) = inorder TL1" unfolding iol io1 by simp
    have "\<forall>x\<in>set (us @ vs). \<not> ?eq x"
    proof
      fix x assume x: "x \<in> set (us @ vs)"
      then have "x \<in> set (inorder TR)" unfolding ior by auto
      then have "x \<in> set_tree TL" using d(3) by simp
      moreover have "x \<noteq> a" using x dr by auto
      ultimately show "\<not> ?eq x" using uniq by blast
    qed
    from filter_remove_unique[OF dr _ this] a(3)
    have fr: "filter (\<lambda>a. \<not> ?eq a) (inorder TR) = inorder TR1" unfolding ior io1 by simp
    have "set (inorder TL) - set (inorder TL1) = {a}" unfolding iol io1 using dl by auto
    then have df: "set_tree TL - set_tree TL1 = {a}" by simp
    have keys: "\<forall>x. key_left M1 x = (if x \<in> set_tree TL - set_tree TL1 then None else key_left M x) \<and>
                key_right M1 x = (if x \<in> set_tree TL - set_tree TL1 then None else key_right M x)"
      unfolding df k1 by simp
    show ?thesis
      by (rule exI[of _ it], rule exI[of _ M1], rule exI[of _ ?b1], rule exI[of _ TL1],
          rule exI[of _ TR1]) (use f ae a(2) e i1 so fl fr keys f1 in simp)
  qed
qed

lemma erase_default_left:
  assumes inv: "bimap_inv M b TL TR" and sw: "strict_weak_order (cmp (treap_left b))"
  shows "\<exists>it M1 b1 TL1 TR1.
           find_left M b val = Some it \<and>
           (if it \<noteq> end_left b
            then map_option (\<lambda>(M1, b1, res). (M1, b1)) (erase_left M b it)
            else Some (M, b)) = Some (M1, b1) \<and>
           bimap_inv M1 b1 TL1 TR1 \<and> step_ok M b M1 b1 \<and>
           inorder TL1 =
             filter (\<lambda>a. \<not> equiv_key (cmp (treap_left b)) (the (key_left M a)) val) (inorder TL) \<and>
           inorder TR1 =
             filter (\<lambda>a. \<not> equiv_key (cmp (treap_left b)) (the (key_left M a)) val) (inorder TR) \<and>
           (\<forall>x. key_left M1 x = (if x \<in> set_tree TL - set_tree TL1 then None else key_left M x) \<and>
                key_right M1 x = (if x \<in> set_tree TL - set_tree TL1 then None else key_right M x)) \<and>
           (\<forall>x. x \<notin> insert (end_node b) (set_tree TL) \<longrightarrow>
              nodes_left M1 x = nodes_left M x \<and> nodes_right M1 x = nodes_right M x)"
proof -
  note d = bimap_inv_D[OF inv]
  let ?eq = "\<lambda>a. equiv_key (cmp (treap_left b)) (the (key_left M a)) val"
  have s: "sorted_wrt (\<lambda>x y. cmp (treap_left b) (the (key_left M x)) (the (key_left M y))) (inorder TL)"
    using d(1) by (simp add: treap_inv_def)
  from find_left_inv[OF inv, of val] obtain it where f: "find_left M b val = Some it"
    and c: "(it = end_left b \<and> \<not> dup_left M b (inorder TL) val) \<or>
            (\<exists>a\<in>set_tree TL. it = Some a \<and> ?eq a)" by blast
  from c show ?thesis
  proof
    assume a: "it = end_left b \<and> \<not> dup_left M b (inorder TL) val"
    then have "\<forall>x\<in>set (inorder TL). \<not> ?eq x" by (auto simp: dup_left_def)
    then have fl: "filter (\<lambda>a. \<not> ?eq a) (inorder TL) = inorder TL" by (auto simp: filter_id_conv)
    from a d(3) have "\<forall>x\<in>set (inorder TR). \<not> ?eq x" by (auto simp: dup_left_def)
    then have fr: "filter (\<lambda>a. \<not> ?eq a) (inorder TR) = inorder TR" by (auto simp: filter_id_conv)
    show ?thesis
      by (rule exI[of _ it], rule exI[of _ M], rule exI[of _ b], rule exI[of _ TL],
          rule exI[of _ TR]) (use f a inv step_ok_refl[OF inv] fl fr in simp)
  next
    assume "\<exists>a\<in>set_tree TL. it = Some a \<and> ?eq a"
    then obtain a where a: "a \<in> set_tree TL" "it = Some a" "?eq a" by blast
    have ae: "it \<noteq> end_left b" using a(1,2) d(5,7) by auto
    from a(1) obtain xs ys where iol: "inorder TL = xs @ a # ys" by (auto dest: in_inorder_split)
    from a(1) d(3) have "a \<in> set_tree TR" by simp
    then obtain us vs where ior: "inorder TR = us @ a # vs" by (auto dest: in_inorder_split)
    from erase_left_inv[OF inv iol ior] obtain M1 TL1 TR1 where
      e: "erase_left M b (Some a) =
             Some (M1, b\<lparr>size_m := size_m b - 1\<rparr>, first_or ys (Some (end_node b)))"
      and i1: "bimap_inv M1 (b\<lparr>size_m := size_m b - 1\<rparr>) TL1 TR1"
      and io1: "inorder TL1 = xs @ ys" "inorder TR1 = us @ vs"
      and k1: "key_left M1 = (key_left M)(a := None)" "key_right M1 = (key_right M)(a := None)"
      and f1: "\<forall>x. x \<notin> insert (end_node b) (set_tree TL) \<longrightarrow>
              nodes_left M1 x = nodes_left M x \<and> nodes_right M1 x = nodes_right M x" by blast
    let ?b1 = "b\<lparr>size_m := size_m b - 1\<rparr>"
    have so: "step_ok M b M1 ?b1" by (rule step_okI[OF i1]) simp_all
    have uniq: "\<And>x. x \<in> set_tree TL \<Longrightarrow> ?eq x \<Longrightarrow> x = a"
      by (rule equiv_unique[OF s sw _ _ _ a(3)]) (use a(1) in auto)
    have dl: "distinct (xs @ a # ys)" using d(8) iol by simp
    have dr: "distinct (us @ a # vs)" using d(9) ior by simp
    have "\<forall>x\<in>set (xs @ ys). \<not> ?eq x"
    proof
      fix x assume x: "x \<in> set (xs @ ys)"
      then have "x \<in> set (inorder TL)" unfolding iol by auto
      then have "x \<in> set_tree TL" by simp
      moreover have "x \<noteq> a" using x dl by auto
      ultimately show "\<not> ?eq x" using uniq by blast
    qed
    from filter_remove_unique[OF dl _ this] a(3)
    have fl: "filter (\<lambda>a. \<not> ?eq a) (inorder TL) = inorder TL1" unfolding iol io1 by simp
    have "\<forall>x\<in>set (us @ vs). \<not> ?eq x"
    proof
      fix x assume x: "x \<in> set (us @ vs)"
      then have "x \<in> set (inorder TR)" unfolding ior by auto
      then have "x \<in> set_tree TL" using d(3) by simp
      moreover have "x \<noteq> a" using x dr by auto
      ultimately show "\<not> ?eq x" using uniq by blast
    qed
    from filter_remove_unique[OF dr _ this] a(3)
    have fr: "filter (\<lambda>a. \<not> ?eq a) (inorder TR) = inorder TR1" unfolding ior io1 by simp
    have "set (inorder TL) - set (inorder TL1) = {a}" unfolding iol io1 using dl by auto
    then have df: "set_tree TL - set_tree TL1 = {a}" by simp
    have keys: "\<forall>x. key_left M1 x = (if x \<in> set_tree TL - set_tree TL1 then None else key_left M x) \<and>
                key_right M1 x = (if x \<in> set_tree TL - set_tree TL1 then None else key_right M x)"
      unfolding df k1 by simp
    show ?thesis
      by (rule exI[of _ it], rule exI[of _ M1], rule exI[of _ ?b1], rule exI[of _ TL1],
          rule exI[of _ TR1]) (use f ae a(2) e i1 so fl fr keys f1 in simp)
  qed
qed

lemma after_erase_default_right:
  assumes so1: "step_ok M b M1 b1"
    and io1: "inorder TL1 =
       filter (\<lambda>a. \<not> equiv_key (cmp (treap_right b)) (the (key_right M a)) val) (inorder TL)"
    and k1: "\<forall>x. key_left M1 x = (if x \<in> set_tree TL - set_tree TL1 then None else key_left M x) \<and>
                key_right M1 x = (if x \<in> set_tree TL - set_tree TL1 then None else key_right M x)"
    and nd: "\<not> dup_left M b (inorder TL) key"
  shows "\<not> dup_left M1 b1 (inorder TL1) key" and "\<not> dup_right M1 b1 (inorder TL1) val"
proof -
  let ?eq = "\<lambda>a. equiv_key (cmp (treap_right b)) (the (key_right M a)) val"
  have tb: "treap_left b1 = treap_left b" "treap_right b1 = treap_right b"
    using so1 by (auto simp: step_ok_def)
  have "set (inorder TL1) \<subseteq> set (inorder TL)" unfolding io1 by auto
  then have sub: "set_tree TL1 \<subseteq> set_tree TL" by simp
  have keq: "\<forall>x\<in>set_tree TL1. key_left M1 x = key_left M x \<and> key_right M1 x = key_right M x"
    using k1 by auto
  show "\<not> dup_left M1 b1 (inorder TL1) key"
    using nd sub keq tb by (auto simp: dup_left_def)
  have "\<forall>x\<in>set (inorder TL1). \<not> ?eq x" unfolding io1 by auto
  then show "\<not> dup_right M1 b1 (inorder TL1) val"
    using keq tb by (auto simp: dup_right_def)
qed

lemma at_left_or_default_absent:
  assumes inv: "bimap_inv M b TL TR"
    and swr: "strict_weak_order (cmp (treap_right b))"
    and nd: "\<not> dup_left M b (inorder TL) key"
    and fr: "n \<noteq> end_node b" "key_left M n = None" "key_right M n = None"
  shows "\<exists>M' b' TL' TR' xs ys us vs.
           at_left_or_default M b key val (Some (n, pl, pr)) = Some (M', b', Inr val) \<and>
           bimap_inv M' b' TL' TR' \<and> step_ok M b M' b' \<and>
           inorder TL' = xs @ n # ys \<and>
           xs @ ys = filter (\<lambda>a. \<not> equiv_key (cmp (treap_right b)) (the (key_right M a)) val) (inorder TL) \<and>
           inorder TR' = us @ n # vs \<and>
           us @ vs = filter (\<lambda>a. \<not> equiv_key (cmp (treap_right b)) (the (key_right M a)) val) (inorder TR) \<and>
           (\<forall>x. key_left M' x = (if x = n then Some key else if x \<in> set_tree TL - set (xs @ ys) then None else key_left M x) \<and>
                key_right M' x = (if x = n then Some val else if x \<in> set_tree TL - set (xs @ ys) then None else key_right M x))"
proof -
  note d = bimap_inv_D[OF inv]
  let ?eq = "\<lambda>a. equiv_key (cmp (treap_right b)) (the (key_right M a)) val"
  from erase_default_right[OF inv swr, of val] obtain it M1 b1 TL1 TR1 where
    f: "find_right M b val = Some it"
    and e: "(if it \<noteq> end_right b
            then map_option (\<lambda>(M1, b1, res). (M1, b1)) (erase_right M b it)
            else Some (M, b)) = Some (M1, b1)"
    and i1: "bimap_inv M1 b1 TL1 TR1" and so1: "step_ok M b M1 b1"
    and io1: "inorder TL1 = filter (\<lambda>a. \<not> ?eq a) (inorder TL)"
      "inorder TR1 = filter (\<lambda>a. \<not> ?eq a) (inorder TR)"
    and k1: "\<forall>x. key_left M1 x = (if x \<in> set_tree TL - set_tree TL1 then None else key_left M x) \<and>
                key_right M1 x = (if x \<in> set_tree TL - set_tree TL1 then None else key_right M x)"
    by blast
  have tb: "treap_left b1 = treap_left b" "treap_right b1 = treap_right b" "end_node b1 = end_node b"
    using so1 by (auto simp: step_ok_def)
  note nd1 = after_erase_default_right(1)[OF so1 io1(1) k1 nd]
  note nd2 = after_erase_default_right(2)[OF so1 io1(1) k1 nd]
  have fr1: "n \<noteq> end_node b1" "key_left M1 n = None" "key_right M1 n = None"
    using fr tb k1 by auto
  from insert_impl_inv[OF i1 nd1 nd2 fr1, of pl pr] obtain M' TL' TR' xs ys us vs where
    ins: "insert_impl M1 b1 key val (Some (n, pl, pr)) =
             Some (M', b1\<lparr>size_m := size_m b1 + 1\<rparr>, Inr (Some n))"
    and i': "bimap_inv M' (b1\<lparr>size_m := size_m b1 + 1\<rparr>) TL' TR'"
    and io': "inorder TL' = xs @ n # ys" "xs @ ys = inorder TL1"
      "inorder TR' = us @ n # vs" "us @ vs = inorder TR1"
    and k': "key_left M' = (key_left M1)(n \<mapsto> key)" "key_right M' = (key_right M1)(n \<mapsto> val)"
    by blast
  let ?b' = "b1\<lparr>size_m := size_m b1 + 1\<rparr>"
  have so': "step_ok M b M' ?b'"
    by (rule step_okI[OF i']) (use tb in simp_all)
  have cl: "contains_left M b key = Some False"
    using contains_left_inv[OF inv, of key] nd by (simp add: dup_left_def)
  have res: "at_left_or_default M b key val (Some (n, pl, pr)) = Some (M', ?b', Inr val)"
    using cl f e ins k'
    by (simp add: at_left_or_default_def bimap_insert_def deref_right_def flip_def)
  have st: "set (xs @ ys) = set_tree TL1" unfolding io'(2) by simp
  have keys: "\<forall>x. key_left M' x = (if x = n then Some key else if x \<in> set_tree TL - set (xs @ ys) then None else key_left M x) \<and>
                key_right M' x = (if x = n then Some val else if x \<in> set_tree TL - set (xs @ ys) then None else key_right M x)"
    unfolding st k' using k1 by simp
  show ?thesis
    by (rule exI[of _ M'], rule exI[of _ ?b'], rule exI[of _ TL'], rule exI[of _ TR'],
        rule exI[of _ xs], rule exI[of _ ys], rule exI[of _ us], rule exI[of _ vs])
      (use res i' so' io' io1 keys in simp)
qed

lemma at_left_or_default_step:
  assumes inv: "bimap_inv M b TL TR"
    and swl: "strict_weak_order (cmp (treap_left b))"
    and swr: "strict_weak_order (cmp (treap_right b))"
    and fr: "fresh M b alloc"
  shows "\<exists>M' b' res. at_left_or_default M b key val alloc = Some (M', b', res) \<and>
           step_ok M b M' b'"
proof (cases "dup_left M b (inorder TL) key")
  case True
  then obtain a where a: "a \<in> set_tree TL"
    "equiv_key (cmp (treap_left b)) (the (key_left M a)) key" by (auto simp: dup_left_def)
  have cl: "contains_left M b key = Some True"
    using contains_left_inv[OF inv, of key] a by auto
  from at_left_inv(1)[OF inv swl a] cl step_ok_refl[OF inv] show ?thesis
    by (auto simp: at_left_or_default_def)
next
  case False
  show ?thesis
  proof (cases alloc)
    case (Some t)
    obtain n pl pr where t: "t = (n, pl, pr)" by (cases t)
    from fr Some t have f: "n \<noteq> end_node b" "key_left M n = None" "key_right M n = None"
      by (auto simp: fresh_def)
    from at_left_or_default_absent[OF inv swr False f, of val pl pr] Some t
    show ?thesis by blast
  next
    case None
    from erase_default_right[OF inv swr, of val] obtain it M1 b1 TL1 TR1 where
      f: "find_right M b val = Some it"
      and e: "(if it \<noteq> end_right b
            then map_option (\<lambda>(M1, b1, res). (M1, b1)) (erase_right M b it)
            else Some (M, b)) = Some (M1, b1)"
      and i1: "bimap_inv M1 b1 TL1 TR1" and so1: "step_ok M b M1 b1"
      and io1: "inorder TL1 =
         filter (\<lambda>a. \<not> equiv_key (cmp (treap_right b)) (the (key_right M a)) val) (inorder TL)"
      and k1: "\<forall>x. key_left M1 x = (if x \<in> set_tree TL - set_tree TL1 then None else key_left M x) \<and>
                key_right M1 x = (if x \<in> set_tree TL - set_tree TL1 then None else key_right M x)"
      by blast
    have cl: "contains_left M b key = Some False"
      using contains_left_inv[OF inv, of key] False by (simp add: dup_left_def)
    note nd1 = after_erase_default_right(1)[OF so1 io1 k1 False]
    note nd2 = after_erase_default_right(2)[OF so1 io1 k1 False]
    from insert_impl_bad_alloc[OF i1 nd1 nd2]
    have "at_left_or_default M b key val None = Some (M1, b1, Inl bad_alloc)"
      using cl f e by (simp add: at_left_or_default_def bimap_insert_def)
    then show ?thesis using None so1 by blast
  qed
qed

lemma after_erase_default_left:
  assumes so1: "step_ok M b M1 b1"
    and io1: "inorder TL1 =
       filter (\<lambda>a. \<not> equiv_key (cmp (treap_left b)) (the (key_left M a)) val) (inorder TL)"
    and k1: "\<forall>x. key_left M1 x = (if x \<in> set_tree TL - set_tree TL1 then None else key_left M x) \<and>
                key_right M1 x = (if x \<in> set_tree TL - set_tree TL1 then None else key_right M x)"
    and nd: "\<not> dup_right M b (inorder TL) key"
  shows "\<not> dup_right M1 b1 (inorder TL1) key" and "\<not> dup_left M1 b1 (inorder TL1) val"
proof -
  let ?eq = "\<lambda>a. equiv_key (cmp (treap_left b)) (the (key_left M a)) val"
  have tb: "treap_left b1 = treap_left b" "treap_right b1 = treap_right b"
    using so1 by (auto simp: step_ok_def)
  have "set (inorder TL1) \<subseteq> set (inorder TL)" unfolding io1 by auto
  then have sub: "set_tree TL1 \<subseteq> set_tree TL" by simp
  have keq: "\<forall>x\<in>set_tree TL1. key_left M1 x = key_left M x \<and> key_right M1 x = key_right M x"
    using k1 by auto
  show "\<not> dup_right M1 b1 (inorder TL1) key"
    using nd sub keq tb by (auto simp: dup_right_def)
  have "\<forall>x\<in>set (inorder TL1). \<not> ?eq x" unfolding io1 by auto
  then show "\<not> dup_left M1 b1 (inorder TL1) val"
    using keq tb by (auto simp: dup_left_def)
qed

lemma at_right_or_default_absent:
  assumes inv: "bimap_inv M b TL TR"
    and swl: "strict_weak_order (cmp (treap_left b))"
    and nd: "\<not> dup_right M b (inorder TL) key"
    and fr: "n \<noteq> end_node b" "key_left M n = None" "key_right M n = None"
  shows "\<exists>M' b' TL' TR' xs ys us vs.
           at_right_or_default M b key val (Some (n, pl, pr)) = Some (M', b', Inr val) \<and>
           bimap_inv M' b' TL' TR' \<and> step_ok M b M' b' \<and>
           inorder TL' = xs @ n # ys \<and>
           xs @ ys = filter (\<lambda>a. \<not> equiv_key (cmp (treap_left b)) (the (key_left M a)) val) (inorder TL) \<and>
           inorder TR' = us @ n # vs \<and>
           us @ vs = filter (\<lambda>a. \<not> equiv_key (cmp (treap_left b)) (the (key_left M a)) val) (inorder TR) \<and>
           (\<forall>x. key_left M' x = (if x = n then Some val else if x \<in> set_tree TL - set (xs @ ys) then None else key_left M x) \<and>
                key_right M' x = (if x = n then Some key else if x \<in> set_tree TL - set (xs @ ys) then None else key_right M x))"
proof -
  note d = bimap_inv_D[OF inv]
  let ?eq = "\<lambda>a. equiv_key (cmp (treap_left b)) (the (key_left M a)) val"
  from erase_default_left[OF inv swl, of val] obtain it M1 b1 TL1 TR1 where
    f: "find_left M b val = Some it"
    and e: "(if it \<noteq> end_left b
            then map_option (\<lambda>(M1, b1, res). (M1, b1)) (erase_left M b it)
            else Some (M, b)) = Some (M1, b1)"
    and i1: "bimap_inv M1 b1 TL1 TR1" and so1: "step_ok M b M1 b1"
    and io1: "inorder TL1 = filter (\<lambda>a. \<not> ?eq a) (inorder TL)"
      "inorder TR1 = filter (\<lambda>a. \<not> ?eq a) (inorder TR)"
    and k1: "\<forall>x. key_left M1 x = (if x \<in> set_tree TL - set_tree TL1 then None else key_left M x) \<and>
                key_right M1 x = (if x \<in> set_tree TL - set_tree TL1 then None else key_right M x)"
    by blast
  have tb: "treap_left b1 = treap_left b" "treap_right b1 = treap_right b" "end_node b1 = end_node b"
    using so1 by (auto simp: step_ok_def)
  note nd1 = after_erase_default_left(1)[OF so1 io1(1) k1 nd]
  note nd2 = after_erase_default_left(2)[OF so1 io1(1) k1 nd]
  have fr1: "n \<noteq> end_node b1" "key_left M1 n = None" "key_right M1 n = None"
    using fr tb k1 by auto
  from insert_impl_inv[OF i1 nd2 nd1 fr1, of pl pr] obtain M' TL' TR' xs ys us vs where
    ins: "insert_impl M1 b1 val key (Some (n, pl, pr)) =
             Some (M', b1\<lparr>size_m := size_m b1 + 1\<rparr>, Inr (Some n))"
    and i': "bimap_inv M' (b1\<lparr>size_m := size_m b1 + 1\<rparr>) TL' TR'"
    and io': "inorder TL' = xs @ n # ys" "xs @ ys = inorder TL1"
      "inorder TR' = us @ n # vs" "us @ vs = inorder TR1"
    and k': "key_left M' = (key_left M1)(n \<mapsto> val)" "key_right M' = (key_right M1)(n \<mapsto> key)"
    by blast
  let ?b' = "b1\<lparr>size_m := size_m b1 + 1\<rparr>"
  have so': "step_ok M b M' ?b'"
    by (rule step_okI[OF i']) (use tb in simp_all)
  have cr: "contains_right M b key = Some False"
    using contains_right_inv[OF inv, of key] nd by (simp add: dup_right_def)
  have res: "at_right_or_default M b key val (Some (n, pl, pr)) = Some (M', ?b', Inr val)"
    using cr f e ins k'
    by (simp add: at_right_or_default_def bimap_insert_def deref_left_def)
  have st: "set (xs @ ys) = set_tree TL1" unfolding io'(2) by simp
  have keys: "\<forall>x. key_left M' x = (if x = n then Some val else if x \<in> set_tree TL - set (xs @ ys) then None else key_left M x) \<and>
                key_right M' x = (if x = n then Some key else if x \<in> set_tree TL - set (xs @ ys) then None else key_right M x)"
    unfolding st k' using k1 by simp
  show ?thesis
    by (rule exI[of _ M'], rule exI[of _ ?b'], rule exI[of _ TL'], rule exI[of _ TR'],
        rule exI[of _ xs], rule exI[of _ ys], rule exI[of _ us], rule exI[of _ vs])
      (use res i' so' io' io1 keys in simp)
qed

lemma at_right_or_default_step:
  assumes inv: "bimap_inv M b TL TR"
    and swl: "strict_weak_order (cmp (treap_left b))"
    and swr: "strict_weak_order (cmp (treap_right b))"
    and fr: "fresh M b alloc"
  shows "\<exists>M' b' res. at_right_or_default M b key val alloc = Some (M', b', res) \<and>
           step_ok M b M' b'"
proof (cases "dup_right M b (inorder TL) key")
  case True
  then obtain a where a: "a \<in> set_tree TL"
    "equiv_key (cmp (treap_right b)) (the (key_right M a)) key" by (auto simp: dup_right_def)
  have cr: "contains_right M b key = Some True"
    using contains_right_inv[OF inv, of key] a by auto
  from at_right_inv(1)[OF inv swr a] cr step_ok_refl[OF inv] show ?thesis
    by (auto simp: at_right_or_default_def)
next
  case False
  show ?thesis
  proof (cases alloc)
    case (Some t)
    obtain n pl pr where t: "t = (n, pl, pr)" by (cases t)
    from fr Some t have f: "n \<noteq> end_node b" "key_left M n = None" "key_right M n = None"
      by (auto simp: fresh_def)
    from at_right_or_default_absent[OF inv swl False f, of val pl pr] Some t
    show ?thesis by blast
  next
    case None
    from erase_default_left[OF inv swl, of val] obtain it M1 b1 TL1 TR1 where
      f: "find_left M b val = Some it"
      and e: "(if it \<noteq> end_left b
            then map_option (\<lambda>(M1, b1, res). (M1, b1)) (erase_left M b it)
            else Some (M, b)) = Some (M1, b1)"
      and i1: "bimap_inv M1 b1 TL1 TR1" and so1: "step_ok M b M1 b1"
      and io1: "inorder TL1 =
         filter (\<lambda>a. \<not> equiv_key (cmp (treap_left b)) (the (key_left M a)) val) (inorder TL)"
      and k1: "\<forall>x. key_left M1 x = (if x \<in> set_tree TL - set_tree TL1 then None else key_left M x) \<and>
                key_right M1 x = (if x \<in> set_tree TL - set_tree TL1 then None else key_right M x)"
      by blast
    have cr: "contains_right M b key = Some False"
      using contains_right_inv[OF inv, of key] False by (simp add: dup_right_def)
    note nd1 = after_erase_default_left(1)[OF so1 io1 k1 False]
    note nd2 = after_erase_default_left(2)[OF so1 io1 k1 False]
    from insert_impl_bad_alloc[OF i1 nd2 nd1]
    have "at_right_or_default M b key val None = Some (M1, b1, Inl bad_alloc)"
      using cr f e by (simp add: at_right_or_default_def bimap_insert_def)
    then show ?thesis using None so1 by blast
  qed
qed

lemma step_ok_valid: "bimap_valid M b \<Longrightarrow> step_ok M b M' b' \<Longrightarrow> bimap_valid M' b'"
  by (auto simp: bimap_valid_def step_ok_def)

lemma strict_weak_orderD:
  "strict_weak_order c \<Longrightarrow> irreflp c" "strict_weak_order c \<Longrightarrow> transp c"
  by (auto simp: strict_weak_order_def)

lemma reachable_valid: "reachable M b \<Longrightarrow> bimap_valid M b"
proof (induction rule: reachable.induct)
  case (r_ctor cl cr M e ps M' b)
  from bimap_ctor_inv[OF strict_weak_orderD[OF r_ctor(1)] strict_weak_orderD[OF r_ctor(2)]
      r_ctor(3,4), of ps] r_ctor
  show ?case by (auto simp: bimap_valid_def)
next
  case (r_insert M b alloc l r M' b' res)
  then obtain TL TR where inv: "bimap_inv M b TL TR" by (auto simp: bimap_valid_def)
  from insert_step[OF inv r_insert(2), of l r] r_insert(3,4) show ?case
    by (auto intro: step_ok_valid)
next
  case (r_erase_left M b xs a M' b' it)
  then obtain TL TR where inv: "bimap_inv M b TL TR" by (auto simp: bimap_valid_def)
  from left_view_inv[OF inv] r_erase_left(2,3) have "a \<in> set_tree TL" by simp
  from erase_left_step[OF inv this] r_erase_left(4,5) show ?case
    by (auto intro: step_ok_valid)
next
  case (r_erase_right M b xs a M' b' it)
  then obtain TL TR where inv: "bimap_inv M b TL TR" by (auto simp: bimap_valid_def)
  from right_view_inv[OF inv] r_erase_right(2,3) bimap_inv_D(3)[OF inv]
  have "a \<in> set_tree TL" by auto
  from erase_right_step[OF inv this] r_erase_right(4,5) show ?case
    by (auto intro: step_ok_valid)
next
  case (r_erase_left_key M b l M' b' removed)
  then obtain TL TR where inv: "bimap_inv M b TL TR" by (auto simp: bimap_valid_def)
  from erase_left_key_step[OF inv, of l] r_erase_left_key(2,3) show ?case
    by (auto intro: step_ok_valid)
next
  case (r_erase_right_key M b r M' b' removed)
  then obtain TL TR where inv: "bimap_inv M b TL TR" by (auto simp: bimap_valid_def)
  from erase_right_key_step[OF inv, of r] r_erase_right_key(2,3) show ?case
    by (auto intro: step_ok_valid)
next
  case (r_erase_left_range M b xs ys zs M' b' it)
  then obtain TL TR where inv: "bimap_inv M b TL TR" by (auto simp: bimap_valid_def)
  from left_view_inv[OF inv] r_erase_left_range(2) have io: "inorder TL = xs @ ys @ zs" by simp
  from erase_left_range_inv[OF inv io] obtain M1 b1 TL1 TR1 where
    e: "erase_left_range M b (first_or (ys @ zs) (Some (end_node b)))
               (first_or zs (Some (end_node b))) = Some (M1, b1, first_or zs (Some (end_node b)))"
    and i1: "bimap_inv M1 b1 TL1 TR1" and b1: "b1 = b\<lparr>size_m := size_m b - length ys\<rparr>" by blast
  have "step_ok M b M1 b1" by (rule step_okI[OF i1]) (use b1 in simp_all)
  with e r_erase_left_range(3,4) bimap_inv_D(5)[OF inv] show ?case
    by (auto intro: step_ok_valid)
next
  case (r_erase_right_range M b xs ys zs M' b' it)
  then obtain TL TR where inv: "bimap_inv M b TL TR" by (auto simp: bimap_valid_def)
  from right_view_inv[OF inv] r_erase_right_range(2) have io: "inorder TR = xs @ ys @ zs" by simp
  from erase_right_range_inv[OF inv io] obtain M1 b1 TL1 TR1 where
    e: "erase_right_range M b (first_or (ys @ zs) (Some (end_node b)))
               (first_or zs (Some (end_node b))) = Some (M1, b1, first_or zs (Some (end_node b)))"
    and i1: "bimap_inv M1 b1 TL1 TR1" and b1: "b1 = b\<lparr>size_m := size_m b - length ys\<rparr>" by blast
  have "step_ok M b M1 b1" by (rule step_okI[OF i1]) (use b1 in simp_all)
  with e r_erase_right_range(3,4) bimap_inv_D(6)[OF inv] show ?case
    by (auto intro: step_ok_valid)
next
  case (r_at_left_or_default M b alloc l val M' b' v)
  then obtain TL TR where inv: "bimap_inv M b TL TR"
    and sw: "strict_weak_order (cmp (treap_left b))" "strict_weak_order (cmp (treap_right b))"
    by (auto simp: bimap_valid_def)
  from at_left_or_default_step[OF inv sw r_at_left_or_default(2), of l val]
    r_at_left_or_default(3,4) show ?case
    by (auto intro: step_ok_valid)
next
  case (r_at_right_or_default M b alloc r val' M' b' v')
  then obtain TL TR where inv: "bimap_inv M b TL TR"
    and sw: "strict_weak_order (cmp (treap_left b))" "strict_weak_order (cmp (treap_right b))"
    by (auto simp: bimap_valid_def)
  from at_right_or_default_step[OF inv sw r_at_right_or_default(2), of r val']
    r_at_right_or_default(3,4) show ?case
    by (auto intro: step_ok_valid)
next
  case (r_frame M b xs M')
  then obtain TL TR where inv: "bimap_inv M b TL TR"
    and sw: "strict_weak_order (cmp (treap_left b))" "strict_weak_order (cmp (treap_right b))"
    by (auto simp: bimap_valid_def)
  from left_view_inv[OF inv] r_frame(2) have "xs = inorder TL" by simp
  with r_frame(3) have "\<forall>x\<in>insert (end_node b) (set_tree TL). same_at M M' x" by simp
  from bimap_inv_frame[OF inv this] sw show ?case by (auto simp: bimap_valid_def)
qed

lemma strict_weak_order_int: "strict_weak_order ((<) :: int \<Rightarrow> int \<Rightarrow> bool)"
  by (auto simp: strict_weak_order_def equiv_key_def irreflp_def transp_def)

lemma new_bimap_reachable:
  "reachable (fst new_bimap) (snd new_bimap)"
  "cmp (treap_left (snd new_bimap)) = (<)" "cmp (treap_right (snd new_bimap)) = (<)"
proof -
  have k: "key_left mem0 0 = None" "key_right mem0 0 = None" by (simp_all add: mem0_def)
  from bimap_ctor_inv[OF strict_weak_orderD[OF strict_weak_order_int]
      strict_weak_orderD[OF strict_weak_order_int] k, of "(11, 12)"]
  obtain M' b where c: "bimap_ctor mem0 0 (<) (<) (11, 12) = Some (M', b)"
    and cc: "cmp (treap_left b) = (<)" "cmp (treap_right b) = (<)" by blast
  then have e: "fst new_bimap = M'" "snd new_bimap = b" by (simp_all add: new_bimap_def)
  show "reachable (fst new_bimap) (snd new_bimap)" unfolding e
    by (rule r_ctor[OF strict_weak_order_int strict_weak_order_int k c])
  show "cmp (treap_left (snd new_bimap)) = (<)" "cmp (treap_right (snd new_bimap)) = (<)"
    unfolding e by (rule cc)+
qed

lemma do_insert_reachable:
  assumes "reachable (fst s) (snd s)" and "fresh (fst s) (snd s) (Some al)"
  shows "reachable (fst (do_insert s l r al)) (snd (do_insert s l r al))"
    and "treap_left (snd (do_insert s l r al)) = treap_left (snd s)"
    and "treap_right (snd (do_insert s l r al)) = treap_right (snd s)"
proof -
  from reachable_valid[OF assms(1)] obtain TL TR where inv: "bimap_inv (fst s) (snd s) TL TR"
    by (auto simp: bimap_valid_def)
  from insert_step[OF inv assms(2), of l r] obtain M' b' res where
    i: "bimap_insert (fst s) (snd s) l r (Some al) = Some (M', b', res)"
    and st: "step_ok (fst s) (snd s) M' b'" by blast
  then have e: "fst (do_insert s l r al) = M'" "snd (do_insert s l r al) = b'"
    by (simp_all add: do_insert_def)
  show "reachable (fst (do_insert s l r al)) (snd (do_insert s l r al))"
    unfolding e by (rule r_insert[OF assms i])
  show "treap_left (snd (do_insert s l r al)) = treap_left (snd s)"
    "treap_right (snd (do_insert s l r al)) = treap_right (snd s)"
    unfolding e using st by (simp_all add: step_ok_def)
qed

lemma those_map_Some:
  "(\<And>a. a \<in> set xs \<Longrightarrow> f a = Some (g a)) \<Longrightarrow> those (map f xs) = Some (map g xs)"
  by (induction xs) simp_all

lemma left_entries_inv:
  assumes "bimap_inv M b TL TR"
  shows "left_entries M b =
           Some (map (\<lambda>a. (the (key_left M a), the (key_right M a))) (inorder TL))"
proof -
  note D = bimap_inv_D[OF assms]
  have "pair_at M a = Some (the (key_left M a), the (key_right M a))"
    if "a \<in> set (inorder TL)" for a
    using that D(10) by (auto simp: pair_at_def deref_left_def deref_right_def flip_def)
  then have "those (map (pair_at M) (inorder TL)) =
      Some (map (\<lambda>a. (the (key_left M a), the (key_right M a))) (inorder TL))"
    by (rule those_map_Some)
  then show ?thesis by (simp add: left_entries_def left_view_inv[OF assms])
qed

text \<open>
  Claim C7.  In every state that satisfies \<open>reachable\<close> (built by the constructor, \<open>insert\<close>,
  \<open>erase\<close> and \<open>at_or_default\<close>; no assignment), where iterating the left view yields the pairs
  \<open>ps\<close>: \<open>at_left k\<close> returns the right component of a stored pair whose left
  component is equivalent to \<open>k\<close>, \<open>at_right k'\<close> returns the left component of a stored pair
  whose right component is equivalent to \<open>k'\<close>, and when no stored pair has an equivalent
  component the call ends with the exception \<open>out_of_range\<close>.  Both functions are \<open>const\<close> and
  the model gives them no resulting memory, so the container is the same afterwards.
\<close>

theorem at_returns_pair_or_out_of_range:
  assumes "reachable M b" and "left_entries M b = Some ps"
  shows "(\<forall>(l, r)\<in>set ps.
            (equiv_key (cmp (treap_left b)) l k \<longrightarrow> at_left M b k = Some (Inr r)) \<and>
            (equiv_key (cmp (treap_right b)) r k' \<longrightarrow> at_right M b k' = Some (Inr l))) \<and>
         ((\<forall>(l, r)\<in>set ps. \<not> equiv_key (cmp (treap_left b)) l k) \<longrightarrow>
            at_left M b k = Some (Inl out_of_range)) \<and>
         ((\<forall>(l, r)\<in>set ps. \<not> equiv_key (cmp (treap_right b)) r k') \<longrightarrow>
            at_right M b k' = Some (Inl out_of_range))"
proof -
  from reachable_valid[OF assms(1)] obtain TL TR where inv: "bimap_inv M b TL TR"
    and swl: "strict_weak_order (cmp (treap_left b))"
    and swr: "strict_weak_order (cmp (treap_right b))"
    by (auto simp: bimap_valid_def)
  from assms(2) left_entries_inv[OF inv]
  have ps: "ps = map (\<lambda>a. (the (key_left M a), the (key_right M a))) (inorder TL)" by simp
  note L = at_left_inv[OF inv swl] and R = at_right_inv[OF inv swr]
  have 1: "at_left M b k = Some (Inr r)"
    if "(l, r) \<in> set ps" "equiv_key (cmp (treap_left b)) l k" for l r
  proof -
    from that(1) obtain a where "a \<in> set_tree TL" "l = the (key_left M a)"
      "r = the (key_right M a)" unfolding ps by auto
    with L(1)[of a k] that(2) show ?thesis by simp
  qed
  have 2: "at_right M b k' = Some (Inr l)"
    if "(l, r) \<in> set ps" "equiv_key (cmp (treap_right b)) r k'" for l r
  proof -
    from that(1) obtain a where "a \<in> set_tree TL" "l = the (key_left M a)"
      "r = the (key_right M a)" unfolding ps by auto
    with R(1)[of a k'] that(2) show ?thesis by simp
  qed
  have 3: "at_left M b k = Some (Inl out_of_range)"
    if "\<forall>(l, r)\<in>set ps. \<not> equiv_key (cmp (treap_left b)) l k"
  proof -
    from that have "\<not> dup_left M b (inorder TL) k" unfolding ps dup_left_def by auto
    then show ?thesis by (rule L(2))
  qed
  have 4: "at_right M b k' = Some (Inl out_of_range)"
    if "\<forall>(l, r)\<in>set ps. \<not> equiv_key (cmp (treap_right b)) r k'"
  proof -
    from that have "\<not> dup_right M b (inorder TL) k'" unfolding ps dup_right_def by auto
    then show ?thesis by (rule R(2))
  qed
  from 1 2 3 4 show ?thesis by blast
qed

lemma example43_reachable:
  "reachable (fst example43) (snd example43)"
  "cmp (treap_left (snd example43)) = (<)" "cmp (treap_right (snd example43)) = (<)"
proof -
  have f: "fresh (fst new_bimap) (snd new_bimap) (Some (1, 5, 6))" by code_simp
  note I = do_insert_reachable[OF new_bimap_reachable(1) f, of 4 3]
  show "reachable (fst example43) (snd example43)" unfolding example43_def by (rule I(1))
  show "cmp (treap_left (snd example43)) = (<)" "cmp (treap_right (snd example43)) = (<)"
    unfolding example43_def I(2,3) by (rule new_bimap_reachable(2,3))+
qed

lemma example43_entries: "left_entries (fst example43) (snd example43) = Some [(4, 3)]"
  by code_simp

theorem at_returns_pair_or_out_of_range_witness:
  "left_entries (fst example43) (snd example43) = Some [(4, 3)] \<and>
   at_left (fst example43) (snd example43) 4 = Some (Inr 3) \<and>
   at_right (fst example43) (snd example43) 3 = Some (Inr 4) \<and>
   at_left (fst example43) (snd example43) 1 = Some (Inl out_of_range) \<and>
   at_right (fst example43) (snd example43) 4 = Some (Inl out_of_range)"
  using at_returns_pair_or_out_of_range[OF example43_reachable(1) example43_entries, of 4 3]
    at_returns_pair_or_out_of_range[OF example43_reachable(1) example43_entries, of 1 4]
  by (simp add: example43_entries example43_reachable(2,3) equiv_key_def)

lemma first_or_filter_bound:
  assumes "sorted_wrt (\<lambda>x y. c (the (g x)) (the (g y))) xs"
  shows "spec_bound c g P xs e (first_or (filter (\<lambda>a. P (the (g a))) xs) e)"
  using assms
proof (induction xs)
  case Nil
  then show ?case by (simp add: spec_bound_def first_or_def)
next
  case (Cons x xs)
  show ?case
  proof (cases "P (the (g x))")
    case True
    with Cons.prems show ?thesis by (auto simp: spec_bound_def first_or_def)
  next
    case False
    from Cons have "spec_bound c g P xs e (first_or (filter (\<lambda>a. P (the (g a))) xs) e)" by simp
    with False show ?thesis by (auto simp: spec_bound_def)
  qed
qed

text \<open>
  Claim C6.  In every state that satisfies \<open>reachable\<close> (built by the constructor, \<open>insert\<close>,
  \<open>erase\<close> and \<open>at_or_default\<close>; no assignment), where the left view visits the nodes \<open>xs\<close> and
  the right view the nodes \<open>ys\<close>: \<open>lower_bound_left k\<close> returns the node
  of \<open>xs\<close> whose key is not less than \<open>k\<close> and is less than the key of every other such node, or
  \<open>end_left\<close> when every key is less than \<open>k\<close>; \<open>upper_bound_left k\<close> does the same for the keys
  that \<open>k\<close> is less than; the right view is symmetric; and \<open>find_left\<close>, \<open>find_right\<close> return the end
  cursor of their view for a key that is equivalent to no stored key.
\<close>

theorem bounds_and_find_absent:
  assumes "reachable M b" and "left_view M b = Some xs" and "right_view M b = Some ys"
  shows "(\<exists>res. lower_bound_left M b k = Some res \<and>
            spec_bound (cmp (treap_left b)) (key_left M) (\<lambda>x. \<not> cmp (treap_left b) x k)
              xs (end_left b) res) \<and>
         (\<exists>res. upper_bound_left M b k = Some res \<and>
            spec_bound (cmp (treap_left b)) (key_left M) (\<lambda>x. cmp (treap_left b) k x)
              xs (end_left b) res) \<and>
         (\<exists>res. lower_bound_right M b k' = Some res \<and>
            spec_bound (cmp (treap_right b)) (key_right M) (\<lambda>x. \<not> cmp (treap_right b) x k')
              ys (end_right b) res) \<and>
         (\<exists>res. upper_bound_right M b k' = Some res \<and>
            spec_bound (cmp (treap_right b)) (key_right M) (\<lambda>x. cmp (treap_right b) k' x)
              ys (end_right b) res) \<and>
         ((\<forall>a\<in>set xs. \<not> equiv_key (cmp (treap_left b)) (the (key_left M a)) k) \<longrightarrow>
            find_left M b k = Some (end_left b)) \<and>
         ((\<forall>a\<in>set ys. \<not> equiv_key (cmp (treap_right b)) (the (key_right M a)) k') \<longrightarrow>
            find_right M b k' = Some (end_right b))"
proof -
  from reachable_valid[OF assms(1)] obtain TL TR where inv: "bimap_inv M b TL TR"
    by (auto simp: bimap_valid_def)
  note D = bimap_inv_D[OF inv]
  from assms(2) left_view_inv[OF inv] have xs: "xs = inorder TL" by simp
  from assms(3) right_view_inv[OF inv] have ys: "ys = inorder TR" by simp
  from D(1) have sl: "sorted_wrt (\<lambda>x y. cmp (treap_left b) (the (key_left M x))
      (the (key_left M y))) xs" by (simp add: treap_inv_def xs)
  from D(2) have sr: "sorted_wrt (\<lambda>x y. cmp (treap_right b) (the (key_right M x))
      (the (key_right M y))) ys" by (simp add: treap_inv_def ys)
  have 1: "\<exists>res. lower_bound_left M b k = Some res \<and>
            spec_bound (cmp (treap_left b)) (key_left M) (\<lambda>x. \<not> cmp (treap_left b) x k)
              xs (end_left b) res"
    unfolding lower_bound_left_def treap_lower_bound_inv[OF D(1)] D(5) xs[symmetric]
    using first_or_filter_bound[OF sl] by simp
  have 2: "\<exists>res. upper_bound_left M b k = Some res \<and>
            spec_bound (cmp (treap_left b)) (key_left M) (\<lambda>x. cmp (treap_left b) k x)
              xs (end_left b) res"
    unfolding upper_bound_left_def treap_upper_bound_inv[OF D(1)] D(5) xs[symmetric]
    using first_or_filter_bound[OF sl] by simp
  have 3: "\<exists>res. lower_bound_right M b k' = Some res \<and>
            spec_bound (cmp (treap_right b)) (key_right M) (\<lambda>x. \<not> cmp (treap_right b) x k')
              ys (end_right b) res"
    unfolding lower_bound_right_def treap_lower_bound_inv[OF D(2)] D(6) ys[symmetric]
    using first_or_filter_bound[OF sr] by simp
  have 4: "\<exists>res. upper_bound_right M b k' = Some res \<and>
            spec_bound (cmp (treap_right b)) (key_right M) (\<lambda>x. cmp (treap_right b) k' x)
              ys (end_right b) res"
    unfolding upper_bound_right_def treap_upper_bound_inv[OF D(2)] D(6) ys[symmetric]
    using first_or_filter_bound[OF sr] by simp
  have 5: "find_left M b k = Some (end_left b)"
    if "\<forall>a\<in>set xs. \<not> equiv_key (cmp (treap_left b)) (the (key_left M a)) k"
    using find_left_inv[OF inv, of k] that by (auto simp: xs)
  have 6: "find_right M b k' = Some (end_right b)"
    if "\<forall>a\<in>set ys. \<not> equiv_key (cmp (treap_right b)) (the (key_right M a)) k'"
  proof -
    have "set ys = set_tree TL" using D(3) by (simp add: ys)
    with find_right_inv[OF inv, of k'] that show ?thesis by auto
  qed
  from 1 2 3 4 5 6 show ?thesis by blast
qed

lemma ok_int_new: "ok_int new_bimap"
  by (simp add: ok_int_def new_bimap_reachable)

lemma ok_int_insert:
  assumes "ok_int s" and "fresh (fst s) (snd s) (Some al)"
  shows "ok_int (do_insert s l r al)"
proof -
  from assms(1) have r: "reachable (fst s) (snd s)" by (simp add: ok_int_def)
  note I = do_insert_reachable[OF r assms(2), of l r]
  from assms(1) show ?thesis unfolding ok_int_def I(2,3) using I(1) by simp
qed

lemma ok_intD:
  assumes "ok_int s"
  shows "reachable (fst s) (snd s)" "cmp (treap_left (snd s)) = (<)"
    "cmp (treap_right (snd s)) = (<)"
  using assms by (simp_all add: ok_int_def)

lemma example5_ok: "ok_int example5"
  unfolding example5_def by (intro ok_int_insert ok_int_new; code_simp)

lemma example5_views:
  "left_view (fst example5) (snd example5) = Some [1, 2, 3, 4, 5]"
  "right_view (fst example5) (snd example5) = Some [1, 2, 3, 4, 5]"
  "end_left (snd example5) = Some 0" "end_right (snd example5) = Some 0"
  by code_simp+

lemma example5_keys:
  "map (key_left (fst example5)) [1, 2, 3, 4, 5] = [Some 1, Some 2, Some 3, Some 8, Some 32]"
  "map (key_right (fst example5)) [1, 2, 3, 4, 5] = [Some 2, Some 3, Some 4, Some 16, Some 66]"
  by code_simp+

theorem bounds_and_find_absent_witness:
  "left_view (fst example5) (snd example5) = Some [1, 2, 3, 4, 5] \<and>
   lower_bound_left (fst example5) (snd example5) 4 = Some (Some 4) \<and>
   deref_left (fst example5) (Some 4) = Some 8 \<and>
   lower_bound_left (fst example5) (snd example5) 100 = Some (end_left (snd example5)) \<and>
   upper_bound_left (fst example5) (snd example5) 3 = Some (Some 4) \<and>
   lower_bound_right (fst example5) (snd example5) 5 = Some (Some 4) \<and>
   upper_bound_right (fst example5) (snd example5) 66 = Some (end_right (snd example5)) \<and>
   find_left (fst example5) (snd example5) 6 = Some (end_left (snd example5)) \<and>
   find_right (fst example5) (snd example5) 5 = Some (end_right (snd example5))"
  using bounds_and_find_absent[OF ok_intD(1)[OF example5_ok] example5_views(1,2), of 4 5]
    bounds_and_find_absent[OF ok_intD(1)[OF example5_ok] example5_views(1,2), of 100 66]
    bounds_and_find_absent[OF ok_intD(1)[OF example5_ok] example5_views(1,2), of 3 5]
    bounds_and_find_absent[OF ok_intD(1)[OF example5_ok] example5_views(1,2), of 6 5]
    example5_keys
  by (simp add: example5_views ok_intD(2,3)[OF example5_ok] spec_bound_def equiv_key_def
      deref_left_def)

lemma right_entries_inv:
  assumes "bimap_inv M b TL TR"
  shows "right_entries M b =
           Some (map (\<lambda>a. (the (key_left M a), the (key_right M a))) (inorder TR))"
proof -
  note D = bimap_inv_D[OF assms]
  have "pair_at M a = Some (the (key_left M a), the (key_right M a))"
    if "a \<in> set (inorder TR)" for a
    using that D(10) D(3) by (auto simp: pair_at_def deref_left_def deref_right_def flip_def)
  then have "those (map (pair_at M) (inorder TR)) =
      Some (map (\<lambda>a. (the (key_left M a), the (key_right M a))) (inorder TR))"
    by (rule those_map_Some)
  then show ?thesis by (simp add: right_entries_def right_view_inv[OF assms])
qed

lemma dup_entries:
  assumes "bimap_inv M b TL TR" and "left_entries M b = Some ps"
  shows "dup_left M b (inorder TL) l = (\<exists>(l', r')\<in>set ps. equiv_key (cmp (treap_left b)) l' l)"
    and "dup_right M b (inorder TL) r = (\<exists>(l', r')\<in>set ps. equiv_key (cmp (treap_right b)) r' r)"
proof -
  from assms(2) left_entries_inv[OF assms(1)]
  have ps: "ps = map (\<lambda>a. (the (key_left M a), the (key_right M a))) (inorder TL)" by simp
  show "dup_left M b (inorder TL) l = (\<exists>(l', r')\<in>set ps. equiv_key (cmp (treap_left b)) l' l)"
    unfolding ps dup_left_def by auto
  show "dup_right M b (inorder TL) r = (\<exists>(l', r')\<in>set ps. equiv_key (cmp (treap_right b)) r' r)"
    unfolding ps dup_right_def by auto
qed

text \<open>
  Claim C2.  In every state that satisfies \<open>reachable\<close> (built by the constructor, \<open>insert\<close>,
  \<open>erase\<close> and \<open>at_or_default\<close>; no assignment), where the left view yields the pairs \<open>ps\<close> and
  the right view the pairs \<open>qs\<close>: when some stored pair has a left
  component equivalent to \<open>l\<close> or a right component equivalent to \<open>r\<close>, \<open>insert l r\<close> returns
  \<open>end_left\<close> and neither the memory nor the object changes; otherwise, when the allocation
  yields a node that is not in use, \<open>insert l r\<close> returns a cursor to that node, the cursor
  dereferences to \<open>l\<close> and its flip to \<open>r\<close>, \<open>size\<close> grows by one, and each view yields its
  former pairs, in their former order, with \<open>(l, r)\<close> put in at one place.
\<close>

theorem insert_rejects_duplicates_or_adds:
  assumes "reachable M b" and "left_entries M b = Some ps" and "right_entries M b = Some qs"
  shows "((\<exists>(l', r')\<in>set ps. equiv_key (cmp (treap_left b)) l' l \<or>
                             equiv_key (cmp (treap_right b)) r' r) \<longrightarrow>
            bimap_insert M b l r alloc = Some (M, b, Inr (end_left b))) \<and>
         (\<not> (\<exists>(l', r')\<in>set ps. equiv_key (cmp (treap_left b)) l' l \<or>
                               equiv_key (cmp (treap_right b)) r' r) \<and>
          fresh M b (Some (a, pl, pr)) \<longrightarrow>
            (\<exists>M' b' ps1 ps2 qs1 qs2.
               bimap_insert M b l r (Some (a, pl, pr)) = Some (M', b', Inr (Some a)) \<and>
               deref_left M' (Some a) = Some l \<and> deref_right M' (flip (Some a)) = Some r \<and>
               bimap_size b' = bimap_size b + 1 \<and>
               ps = ps1 @ ps2 \<and> left_entries M' b' = Some (ps1 @ (l, r) # ps2) \<and>
               qs = qs1 @ qs2 \<and> right_entries M' b' = Some (qs1 @ (l, r) # qs2)))"
proof -
  from reachable_valid[OF assms(1)] obtain TL TR where inv: "bimap_inv M b TL TR"
    by (auto simp: bimap_valid_def)
  note D = bimap_inv_D[OF inv]
  note dup = dup_entries[OF inv assms(2)]
  let ?pr = "\<lambda>M a. (the (key_left M a), the (key_right M a))"
  from assms(2) left_entries_inv[OF inv] have ps: "ps = map (?pr M) (inorder TL)" by simp
  from assms(3) right_entries_inv[OF inv] have qs: "qs = map (?pr M) (inorder TR)" by simp
  have 1: "bimap_insert M b l r alloc = Some (M, b, Inr (end_left b))"
    if "\<exists>(l', r')\<in>set ps. equiv_key (cmp (treap_left b)) l' l \<or>
                           equiv_key (cmp (treap_right b)) r' r"
  proof -
    from that have "dup_left M b (inorder TL) l \<or> dup_right M b (inorder TL) r"
      unfolding dup by blast
    from insert_impl_dup[OF inv this] show ?thesis by (simp add: bimap_insert_def)
  qed
  have 2: "\<exists>M' b' ps1 ps2 qs1 qs2.
               bimap_insert M b l r (Some (a, pl, pr)) = Some (M', b', Inr (Some a)) \<and>
               deref_left M' (Some a) = Some l \<and> deref_right M' (flip (Some a)) = Some r \<and>
               bimap_size b' = bimap_size b + 1 \<and>
               ps = ps1 @ ps2 \<and> left_entries M' b' = Some (ps1 @ (l, r) # ps2) \<and>
               qs = qs1 @ qs2 \<and> right_entries M' b' = Some (qs1 @ (l, r) # qs2)"
    if nd: "\<not> (\<exists>(l', r')\<in>set ps. equiv_key (cmp (treap_left b)) l' l \<or>
                           equiv_key (cmp (treap_right b)) r' r)"
      and fr: "fresh M b (Some (a, pl, pr))"
  proof -
    from nd have d: "\<not> dup_left M b (inorder TL) l" "\<not> dup_right M b (inorder TL) r"
      unfolding dup by blast+
    from fr have f: "a \<noteq> end_node b" "key_left M a = None" "key_right M a = None"
      by (simp_all add: fresh_def)
    from insert_impl_inv[OF inv d f, of pl pr] obtain M' TL' TR' xs ys us vs where
      i: "insert_impl M b l r (Some (a, pl, pr)) =
             Some (M', b\<lparr>size_m := size_m b + 1\<rparr>, Inr (Some a))"
      and inv': "bimap_inv M' (b\<lparr>size_m := size_m b + 1\<rparr>) TL' TR'"
      and io: "inorder TL' = xs @ a # ys" "xs @ ys = inorder TL"
        "inorder TR' = us @ a # vs" "us @ vs = inorder TR"
      and k: "key_left M' = (key_left M)(a \<mapsto> l)" "key_right M' = (key_right M)(a \<mapsto> r)"
      by blast
    have an: "a \<notin> set_tree TL" using D(10) f(2) by auto
    have "a \<notin> set (xs @ ys)" using an unfolding io(2) by simp
    then have axy: "a \<notin> set xs" "a \<notin> set ys" by simp_all
    have "a \<notin> set (us @ vs)" using an D(3) unfolding io(4) by simp
    then have auv: "a \<notin> set us" "a \<notin> set vs" by simp_all
    have same: "map (?pr M') zs = map (?pr M) zs" if "a \<notin> set zs" for zs
      using that unfolding k by (induction zs) auto
    have pa: "?pr M' a = (l, r)" by (simp add: k)
    have le: "left_entries M' (b\<lparr>size_m := size_m b + 1\<rparr>) =
        Some (map (?pr M) xs @ (l, r) # map (?pr M) ys)"
      unfolding left_entries_inv[OF inv'] io(1) using same[OF axy(1)] same[OF axy(2)] pa
      by simp
    have re: "right_entries M' (b\<lparr>size_m := size_m b + 1\<rparr>) =
        Some (map (?pr M) us @ (l, r) # map (?pr M) vs)"
      unfolding right_entries_inv[OF inv'] io(3) using same[OF auv(1)] same[OF auv(2)] pa
      by simp
    have p: "ps = map (?pr M) xs @ map (?pr M) ys" unfolding ps io(2)[symmetric] by simp
    have q: "qs = map (?pr M) us @ map (?pr M) vs" unfolding qs io(4)[symmetric] by simp
    show ?thesis
      apply (rule exI[of _ M'], rule exI[of _ "b\<lparr>size_m := size_m b + 1\<rparr>"])
      apply (rule exI[of _ "map (?pr M) xs"], rule exI[of _ "map (?pr M) ys"])
      apply (rule exI[of _ "map (?pr M) us"], rule exI[of _ "map (?pr M) vs"])
      using i le re p q
      by (simp add: bimap_insert_def deref_left_def deref_right_def flip_def k bimap_size_def)
  qed
  from 1 2 show ?thesis by blast
qed

lemma example43_right_entries: "right_entries (fst example43) (snd example43) = Some [(4, 3)]"
  by code_simp

lemma example43_fresh: "fresh (fst example43) (snd example43) (Some (2, 1, 1))"
  by code_simp

theorem insert_rejects_duplicates_or_adds_witness:
  "bimap_insert (fst example43) (snd example43) 4 7 None =
     Some (fst example43, snd example43, Inr (end_left (snd example43))) \<and>
   bimap_insert (fst example43) (snd example43) 9 3 None =
     Some (fst example43, snd example43, Inr (end_left (snd example43))) \<and>
   (\<exists>M' b' ps1 ps2 qs1 qs2.
      bimap_insert (fst example43) (snd example43) 1 2 (Some (2, 1, 1)) =
        Some (M', b', Inr (Some 2)) \<and>
      deref_left M' (Some 2) = Some 1 \<and> deref_right M' (flip (Some 2)) = Some 2 \<and>
      bimap_size b' = bimap_size (snd example43) + 1 \<and>
      [(4, 3)] = ps1 @ ps2 \<and> left_entries M' b' = Some (ps1 @ (1, 2) # ps2) \<and>
      [(4, 3)] = qs1 @ qs2 \<and> right_entries M' b' = Some (qs1 @ (1, 2) # qs2))"
  using insert_rejects_duplicates_or_adds[OF example43_reachable(1) example43_entries
      example43_right_entries, of 4 7 None 2 1 1]
    insert_rejects_duplicates_or_adds[OF example43_reachable(1) example43_entries
      example43_right_entries, of 9 3 None 2 1 1]
    insert_rejects_duplicates_or_adds[OF example43_reachable(1) example43_entries
      example43_right_entries, of 1 2 None 2 1 1]
    example43_fresh
  by (simp add: example43_reachable(2,3) equiv_key_def)

text \<open>
  Claim C4.  In every state that satisfies \<open>reachable\<close> (built by the constructor, \<open>insert\<close>,
  \<open>erase\<close> and \<open>at_or_default\<close>; no assignment), where the left view yields the pairs \<open>ps\<close>,
  none of them with a left component equivalent to \<open>k1\<close> or a right
  component equivalent to \<open>k2\<close>, and the allocation yields a node \<open>a\<close> that is not in use:
  \<open>insert k1 k2\<close> returns the cursor \<open>a\<close>; afterwards \<open>find_left k1\<close> and \<open>find_right k2\<close> both
  return \<open>a\<close>, whose flip dereferences to \<open>k2\<close> in the right view and to \<open>k1\<close> in the left view;
  and \<open>find_left\<close> still returns \<open>end_left\<close> for a key equivalent to no stored left key.
\<close>

theorem insert_then_find_flip:
  assumes "reachable M b" and "left_entries M b = Some ps"
    and "\<not> (\<exists>(l', r')\<in>set ps. equiv_key (cmp (treap_left b)) l' k1 \<or>
                               equiv_key (cmp (treap_right b)) r' k2)"
    and "fresh M b (Some (a, pl, pr))"
  shows "\<exists>M' b'.
           bimap_insert M b k1 k2 (Some (a, pl, pr)) = Some (M', b', Inr (Some a)) \<and>
           find_left M' b' k1 = Some (Some a) \<and> deref_right M' (flip (Some a)) = Some k2 \<and>
           find_right M' b' k2 = Some (Some a) \<and> deref_left M' (flip (Some a)) = Some k1 \<and>
           (\<forall>k. \<not> equiv_key (cmp (treap_left b)) k1 k \<and>
                \<not> (\<exists>(l', r')\<in>set ps. equiv_key (cmp (treap_left b)) l' k) \<longrightarrow>
                find_left M' b' k = Some (end_left b'))"
proof -
  from reachable_valid[OF assms(1)] obtain TL TR where inv: "bimap_inv M b TL TR"
    and swl: "strict_weak_order (cmp (treap_left b))"
    and swr: "strict_weak_order (cmp (treap_right b))"
    by (auto simp: bimap_valid_def)
  note D = bimap_inv_D[OF inv]
  note dup = dup_entries[OF inv assms(2)]
  from assms(3) have d: "\<not> dup_left M b (inorder TL) k1" "\<not> dup_right M b (inorder TL) k2"
    unfolding dup by blast+
  from assms(4) have f: "a \<noteq> end_node b" "key_left M a = None" "key_right M a = None"
    by (simp_all add: fresh_def)
  let ?b = "b\<lparr>size_m := size_m b + 1\<rparr>"
  from insert_impl_inv[OF inv d f, of pl pr] obtain M' TL' TR' xs ys us vs where
    i: "insert_impl M b k1 k2 (Some (a, pl, pr)) = Some (M', ?b, Inr (Some a))"
    and inv': "bimap_inv M' ?b TL' TR'"
    and io: "inorder TL' = xs @ a # ys" "xs @ ys = inorder TL"
    and k: "key_left M' = (key_left M)(a \<mapsto> k1)" "key_right M' = (key_right M)(a \<mapsto> k2)"
    by blast
  note D' = bimap_inv_D[OF inv']
  have a_in: "a \<in> set (inorder TL')" unfolding io(1) by simp
  then have a_in': "a \<in> set_tree TL'" by simp
  have st: "set_tree TL' = insert a (set_tree TL)"
  proof -
    have "set (inorder TL') = insert a (set (inorder TL))" unfolding io(1) io(2)[symmetric] by auto
    then show ?thesis by simp
  qed
  from D'(1) have sl: "sorted_wrt (\<lambda>x y. cmp (treap_left b) (the (key_left M' x))
      (the (key_left M' y))) (inorder TL')" by (simp add: treap_inv_def)
  from D'(2) have sr: "sorted_wrt (\<lambda>x y. cmp (treap_right b) (the (key_right M' x))
      (the (key_right M' y))) (inorder TR')" by (simp add: treap_inv_def)
  have el: "equiv_key (cmp (treap_left b)) (the (key_left M' a)) k1"
    using swl by (simp add: k equiv_key_def strict_weak_order_def irreflp_def)
  have er: "equiv_key (cmp (treap_right b)) (the (key_right M' a)) k2"
    using swr by (simp add: k equiv_key_def strict_weak_order_def irreflp_def)
  have fl: "find_left M' ?b k1 = Some (Some a)"
  proof -
    from find_left_inv[OF inv', of k1] obtain res where r: "find_left M' ?b k1 = Some res"
      and c: "(res = end_left ?b \<and> \<not> dup_left M' ?b (inorder TL') k1) \<or>
        (\<exists>x\<in>set_tree TL'. res = Some x \<and>
           equiv_key (cmp (treap_left ?b)) (the (key_left M' x)) k1)" by blast
    have "dup_left M' ?b (inorder TL') k1" unfolding dup_left_def using a_in el by auto
    with c obtain x where x: "x \<in> set_tree TL'" "res = Some x"
      "equiv_key (cmp (treap_left b)) (the (key_left M' x)) k1" by auto
    from x(1) have "x \<in> set (inorder TL')" by simp
    from equiv_unique[OF sl swl this a_in x(3) el] have "x = a" .
    with r x(2) show ?thesis by simp
  qed
  have fr: "find_right M' ?b k2 = Some (Some a)"
  proof -
    from find_right_inv[OF inv', of k2] obtain res where r: "find_right M' ?b k2 = Some res"
      and c: "(res = end_right ?b \<and> \<not> dup_right M' ?b (inorder TL') k2) \<or>
        (\<exists>x\<in>set_tree TL'. res = Some x \<and>
           equiv_key (cmp (treap_right ?b)) (the (key_right M' x)) k2)" by blast
    have "dup_right M' ?b (inorder TL') k2" unfolding dup_right_def using a_in er by auto
    with c obtain x where x: "x \<in> set_tree TL'" "res = Some x"
      "equiv_key (cmp (treap_right b)) (the (key_right M' x)) k2" by auto
    from x(1) D'(3) have xr: "x \<in> set (inorder TR')" by simp
    from a_in' D'(3) have ar: "a \<in> set (inorder TR')" by simp
    from equiv_unique[OF sr swr xr ar x(3) er] have "x = a" .
    with r x(2) show ?thesis by simp
  qed
  have ab: "find_left M' ?b k = Some (end_left ?b)"
    if n1: "\<not> equiv_key (cmp (treap_left b)) k1 k"
      and n2: "\<not> (\<exists>(l', r')\<in>set ps. equiv_key (cmp (treap_left b)) l' k)" for k
  proof -
    from n2 have nd: "\<not> dup_left M b (inorder TL) k" unfolding dup(1) .
    have "\<not> equiv_key (cmp (treap_left b)) (the (key_left M' x)) k" if "x \<in> set_tree TL'" for x
    proof (cases "x = a")
      case True
      with n1 show ?thesis by (simp add: k)
    next
      case False
      with that st have "x \<in> set (inorder TL)" by simp
      with nd False show ?thesis by (auto simp: dup_left_def k)
    qed
    with find_left_inv[OF inv', of k] show ?thesis by auto
  qed
  show ?thesis
    apply (rule exI[of _ M'], rule exI[of _ ?b])
    using i fl fr ab
    by (simp add: bimap_insert_def deref_left_def deref_right_def flip_def k)
qed

lemma example2_ok: "ok_int example2"
  unfolding example2_def by (intro ok_int_insert ok_int_new; code_simp)

lemma example2_entries: "left_entries (fst example2) (snd example2) = Some [(1, 2), (2, 3)]"
  by code_simp

lemma example2_fresh: "fresh (fst example2) (snd example2) (Some (3, 5, 9))"
  by code_simp

theorem insert_then_find_flip_witness:
  "left_entries (fst example2) (snd example2) = Some [(1, 2), (2, 3)] \<and>
   (\<exists>M' b'.
      bimap_insert (fst example2) (snd example2) 42 1000 (Some (3, 5, 9)) =
        Some (M', b', Inr (Some 3)) \<and>
      find_left M' b' 42 = Some (Some 3) \<and> deref_right M' (flip (Some 3)) = Some 1000 \<and>
      find_right M' b' 1000 = Some (Some 3) \<and> deref_left M' (flip (Some 3)) = Some 42 \<and>
      find_left M' b' 3436 = Some (end_left b'))"
proof -
  from insert_then_find_flip[OF ok_intD(1)[OF example2_ok] example2_entries _ example2_fresh,
      of 42 1000]
  obtain M' b' where
    "bimap_insert (fst example2) (snd example2) 42 1000 (Some (3, 5, 9)) =
        Some (M', b', Inr (Some 3))"
    "find_left M' b' 42 = Some (Some 3)" "deref_right M' (flip (Some 3)) = Some 1000"
    "find_right M' b' 1000 = Some (Some 3)" "deref_left M' (flip (Some 3)) = Some 42"
    "\<forall>k. \<not> equiv_key (cmp (treap_left (snd example2))) 42 k \<and>
                \<not> (\<exists>(l', r')\<in>set [(1, 2), (2, 3)].
                      equiv_key (cmp (treap_left (snd example2))) l' k) \<longrightarrow>
                find_left M' b' k = Some (end_left b')"
    by (auto simp: ok_intD(2,3)[OF example2_ok] equiv_key_def)
  moreover from this(6) have "find_left M' b' 3436 = Some (end_left b')"
    by (simp add: ok_intD(2,3)[OF example2_ok] equiv_key_def)
  ultimately show ?thesis using example2_entries by blast
qed

lemma after_erase:
  assumes inv: "bimap_inv M b TL TR"
    and swl: "strict_weak_order (cmp (treap_left b))"
    and swr: "strict_weak_order (cmp (treap_right b))"
    and iol: "inorder TL = xs @ a # ys" and ior: "inorder TR = us @ a # vs"
    and inv': "bimap_inv M' (b\<lparr>size_m := size_m b - 1\<rparr>) TL' TR'"
    and io': "inorder TL' = xs @ ys" "inorder TR' = us @ vs"
    and k: "key_left M' = (key_left M)(a := None)" "key_right M' = (key_right M)(a := None)"
    and pa: "pair_at M a = Some (l, r)"
  shows "find_left M' (b\<lparr>size_m := size_m b - 1\<rparr>) l = Some (end_left b)"
    and "find_right M' (b\<lparr>size_m := size_m b - 1\<rparr>) r = Some (end_right b)"
    and "left_view M' (b\<lparr>size_m := size_m b - 1\<rparr>) = Some (xs @ ys)"
    and "right_view M' (b\<lparr>size_m := size_m b - 1\<rparr>) = Some (us @ vs)"
    and "\<forall>x. x \<noteq> a \<longrightarrow> pair_at M' x = pair_at M x"
    and "bimap_size (b\<lparr>size_m := size_m b - 1\<rparr>) + 1 = bimap_size b"
    and "filter (\<lambda>x. x \<noteq> a) (inorder TL) = xs @ ys"
    and "filter (\<lambda>x. x \<noteq> a) (inorder TR) = us @ vs"
proof -
  let ?b = "b\<lparr>size_m := size_m b - 1\<rparr>"
  note D = bimap_inv_D[OF inv] and D' = bimap_inv_D[OF inv']
  from pa have kl: "key_left M a = Some l" and kr: "key_right M a = Some r"
    by (auto simp: pair_at_def deref_left_def deref_right_def flip_def split: bind_splits)
  from D(8) have axy: "a \<notin> set xs" "a \<notin> set ys" unfolding iol by auto
  from D(9) have auv: "a \<notin> set us" "a \<notin> set vs" unfolding ior by auto
  have a_in: "a \<in> set (inorder TL)" unfolding iol by simp
  have a_inr: "a \<in> set (inorder TR)" unfolding ior by simp
  from D(1) have sl: "sorted_wrt (\<lambda>x y. cmp (treap_left b) (the (key_left M x))
      (the (key_left M y))) (inorder TL)" by (simp add: treap_inv_def)
  from D(2) have sr: "sorted_wrt (\<lambda>x y. cmp (treap_right b) (the (key_right M x))
      (the (key_right M y))) (inorder TR)" by (simp add: treap_inv_def)
  have el: "equiv_key (cmp (treap_left b)) (the (key_left M a)) l"
    using swl by (simp add: kl equiv_key_def strict_weak_order_def irreflp_def)
  have er: "equiv_key (cmp (treap_right b)) (the (key_right M a)) r"
    using swr by (simp add: kr equiv_key_def strict_weak_order_def irreflp_def)
  have nl: "\<not> equiv_key (cmp (treap_left b)) (the (key_left M' x)) l" if "x \<in> set_tree TL'" for x
  proof
    assume e: "equiv_key (cmp (treap_left b)) (the (key_left M' x)) l"
    from that have x: "x \<in> set (xs @ ys)" using io'(1) by (metis set_inorder)
    with axy have xa: "x \<noteq> a" by auto
    from x have xin: "x \<in> set (inorder TL)" unfolding iol by auto
    from e xa have "equiv_key (cmp (treap_left b)) (the (key_left M x)) l" by (simp add: k)
    from equiv_unique[OF sl swl xin a_in this el] xa show False by simp
  qed
  have nr: "\<not> equiv_key (cmp (treap_right b)) (the (key_right M' x)) r" if "x \<in> set_tree TL'" for x
  proof
    assume e: "equiv_key (cmp (treap_right b)) (the (key_right M' x)) r"
    from that D'(3) have "x \<in> set_tree TR'" by simp
    then have x: "x \<in> set (us @ vs)" using io'(2) by (metis set_inorder)
    with auv have xa: "x \<noteq> a" by auto
    from x have xin: "x \<in> set (inorder TR)" unfolding ior by auto
    from e xa have "equiv_key (cmp (treap_right b)) (the (key_right M x)) r" by (simp add: k)
    from equiv_unique[OF sr swr xin a_inr this er] xa show False by simp
  qed
  from find_left_inv[OF inv', of l] nl D'(5) D(5)
  show "find_left M' ?b l = Some (end_left b)" by auto
  from find_right_inv[OF inv', of r] nr D'(6) D(6)
  show "find_right M' ?b r = Some (end_right b)" by auto
  show "left_view M' ?b = Some (xs @ ys)" using left_view_inv[OF inv'] io'(1) by simp
  show "right_view M' ?b = Some (us @ vs)" using right_view_inv[OF inv'] io'(2) by simp
  show "\<forall>x. x \<noteq> a \<longrightarrow> pair_at M' x = pair_at M x"
    by (simp add: pair_at_def deref_left_def deref_right_def flip_def k)
  from D(4) show "bimap_size ?b + 1 = bimap_size b" by (simp add: bimap_size_def iol)
  have fid: "filter (\<lambda>x. x \<noteq> a) zs = zs" if "a \<notin> set zs" for zs
    using that by (induction zs) auto
  show "filter (\<lambda>x. x \<noteq> a) (inorder TL) = xs @ ys" unfolding iol
    by (simp add: fid[OF axy(1)] fid[OF axy(2)])
  show "filter (\<lambda>x. x \<noteq> a) (inorder TR) = us @ vs" unfolding ior
    by (simp add: fid[OF auv(1)] fid[OF auv(2)])
qed

text \<open>
  Erasure by cursor in a state that satisfies \<open>reachable\<close>, which has no rule for an
  assignment (a state left by a move assignment is evaluated at the end of this theory).
  Where the left view
  visits \<open>xs @ a # ys\<close>, the right view visits \<open>us @ a' # vs\<close>, and the cursors \<open>a\<close>, \<open>a'\<close> point at
  the pairs \<open>(l, r)\<close>, \<open>(l', r')\<close>: \<open>erase_left a\<close> returns the cursor that followed \<open>a\<close> in the left
  view (\<open>end_left\<close> when \<open>a\<close> was last); afterwards \<open>find_left l\<close> is \<open>end_left\<close>, \<open>find_right r\<close> is
  \<open>end_right\<close>, \<open>size\<close> is one less, both views visit what they visited before apart from \<open>a\<close>,
  and every other cursor still points at its pair.  \<open>erase_right a'\<close> does the same with the
  successor of \<open>a'\<close> in the right view.
\<close>

theorem erase_cursor_removes_pair:
  assumes "reachable M b"
    and "left_view M b = Some (xs @ a # ys)" and "right_view M b = Some (us @ a' # vs)"
    and "pair_at M a = Some (l, r)" and "pair_at M a' = Some (l', r')"
  shows "(\<exists>M' b'.
            erase_left M b (Some a) = Some (M', b', first_or ys (end_left b)) \<and>
            find_left M' b' l = Some (end_left b') \<and> find_right M' b' r = Some (end_right b') \<and>
            bimap_size b' + 1 = bimap_size b \<and>
            left_view M' b' = Some (xs @ ys) \<and>
            right_view M' b' = Some (filter (\<lambda>x. x \<noteq> a) (us @ a' # vs)) \<and>
            (\<forall>x. x \<noteq> a \<longrightarrow> pair_at M' x = pair_at M x)) \<and>
         (\<exists>M' b'.
            erase_right M b (Some a') = Some (M', b', first_or vs (end_right b)) \<and>
            find_left M' b' l' = Some (end_left b') \<and> find_right M' b' r' = Some (end_right b') \<and>
            bimap_size b' + 1 = bimap_size b \<and>
            left_view M' b' = Some (filter (\<lambda>x. x \<noteq> a') (xs @ a # ys)) \<and>
            right_view M' b' = Some (us @ vs) \<and>
            (\<forall>x. x \<noteq> a' \<longrightarrow> pair_at M' x = pair_at M x))"
proof -
  from reachable_valid[OF assms(1)] obtain TL TR where inv: "bimap_inv M b TL TR"
    and swl: "strict_weak_order (cmp (treap_left b))"
    and swr: "strict_weak_order (cmp (treap_right b))"
    by (auto simp: bimap_valid_def)
  note D = bimap_inv_D[OF inv]
  from assms(2) left_view_inv[OF inv] have iol: "inorder TL = xs @ a # ys" by simp
  from assms(3) right_view_inv[OF inv] have ior: "inorder TR = us @ a' # vs" by simp
  let ?b = "b\<lparr>size_m := size_m b - 1\<rparr>"
  have e: "\<And>n. end_left (b\<lparr>size_m := n\<rparr>) = end_left b"
    "\<And>n. end_right (b\<lparr>size_m := n\<rparr>) = end_right b"
    by (simp_all add: end_left_def end_right_def)
  have 1: "\<exists>M' b'.
            erase_left M b (Some a) = Some (M', b', first_or ys (end_left b)) \<and>
            find_left M' b' l = Some (end_left b') \<and> find_right M' b' r = Some (end_right b') \<and>
            bimap_size b' + 1 = bimap_size b \<and>
            left_view M' b' = Some (xs @ ys) \<and>
            right_view M' b' = Some (filter (\<lambda>x. x \<noteq> a) (us @ a' # vs)) \<and>
            (\<forall>x. x \<noteq> a \<longrightarrow> pair_at M' x = pair_at M x)"
  proof -
    have "a \<in> set (inorder TL)" unfolding iol by simp
    then have "a \<in> set_tree TR" using D(3) by simp
    from in_inorder_split[OF this] obtain us' vs' where ior': "inorder TR = us' @ a # vs'"
      by blast
    from erase_left_inv[OF inv iol ior'] obtain M' TL' TR' where
      er: "erase_left M b (Some a) = Some (M', ?b, first_or ys (Some (end_node b)))"
      and inv': "bimap_inv M' ?b TL' TR'"
      and io': "inorder TL' = xs @ ys" "inorder TR' = us' @ vs'"
      and k: "key_left M' = (key_left M)(a := None)" "key_right M' = (key_right M)(a := None)"
      by blast
    note A = after_erase[OF inv swl swr iol ior' inv' io' k assms(4)]
    show ?thesis
      apply (rule exI[of _ M'], rule exI[of _ ?b])
      using er A(1-6) A(8) by (simp add: e D(5) D(6) ior)
  qed
  have 2: "\<exists>M' b'.
            erase_right M b (Some a') = Some (M', b', first_or vs (end_right b)) \<and>
            find_left M' b' l' = Some (end_left b') \<and> find_right M' b' r' = Some (end_right b') \<and>
            bimap_size b' + 1 = bimap_size b \<and>
            left_view M' b' = Some (filter (\<lambda>x. x \<noteq> a') (xs @ a # ys)) \<and>
            right_view M' b' = Some (us @ vs) \<and>
            (\<forall>x. x \<noteq> a' \<longrightarrow> pair_at M' x = pair_at M x)"
  proof -
    have "a' \<in> set (inorder TR)" unfolding ior by simp
    then have "a' \<in> set_tree TL" using D(3) by simp
    from in_inorder_split[OF this] obtain xs' ys' where iol': "inorder TL = xs' @ a' # ys'"
      by blast
    from erase_right_inv[OF inv iol' ior] obtain M' TL' TR' where
      er: "erase_right M b (Some a') = Some (M', ?b, first_or vs (Some (end_node b)))"
      and inv': "bimap_inv M' ?b TL' TR'"
      and io': "inorder TL' = xs' @ ys'" "inorder TR' = us @ vs"
      and k: "key_left M' = (key_left M)(a' := None)" "key_right M' = (key_right M)(a' := None)"
      by blast
    note A = after_erase[OF inv swl swr iol' ior inv' io' k assms(5)]
    show ?thesis
      apply (rule exI[of _ M'], rule exI[of _ ?b])
      using er A(1-7) by (simp add: e D(5) D(6) iol)
  qed
  from 1 2 show ?thesis by blast
qed

lemma example5_pairs:
  "pair_at (fst example5) 3 = Some (3, 4)" "pair_at (fst example5) 5 = Some (32, 66)"
  by code_simp+

theorem erase_cursor_removes_pair_witness:
  "(\<exists>M' b'.
      erase_left (fst example5) (snd example5) (Some 3) = Some (M', b', Some 4) \<and>
      find_left M' b' 3 = Some (end_left b') \<and> find_right M' b' 4 = Some (end_right b') \<and>
      bimap_size b' + 1 = bimap_size (snd example5) \<and>
      left_view M' b' = Some [1, 2, 4, 5] \<and> right_view M' b' = Some [1, 2, 4, 5]) \<and>
   (\<exists>M' b'.
      erase_right (fst example5) (snd example5) (Some 5) =
        Some (M', b', end_right (snd example5)) \<and>
      find_left M' b' 32 = Some (end_left b') \<and> find_right M' b' 66 = Some (end_right b') \<and>
      left_view M' b' = Some [1, 2, 3, 4] \<and> right_view M' b' = Some [1, 2, 3, 4])"
proof -
  have lv: "left_view (fst example5) (snd example5) = Some ([1, 2] @ 3 # [4, 5])"
    and rv: "right_view (fst example5) (snd example5) = Some ([1, 2, 3, 4] @ 5 # [])"
    by (simp_all add: example5_views)
  note E = erase_cursor_removes_pair[OF ok_intD(1)[OF example5_ok] lv rv example5_pairs]
  from E obtain M1 b1 where
    "erase_left (fst example5) (snd example5) (Some 3) =
       Some (M1, b1, first_or [4, 5] (end_left (snd example5)))"
    "find_left M1 b1 3 = Some (end_left b1)" "find_right M1 b1 4 = Some (end_right b1)"
    "bimap_size b1 + 1 = bimap_size (snd example5)"
    "left_view M1 b1 = Some ([1, 2] @ [4, 5])"
    "right_view M1 b1 = Some (filter (\<lambda>x. x \<noteq> 3) ([1, 2, 3, 4] @ 5 # []))"
    by blast
  then have 1: "erase_left (fst example5) (snd example5) (Some 3) = Some (M1, b1, Some 4) \<and>
      find_left M1 b1 3 = Some (end_left b1) \<and> find_right M1 b1 4 = Some (end_right b1) \<and>
      bimap_size b1 + 1 = bimap_size (snd example5) \<and>
      left_view M1 b1 = Some [1, 2, 4, 5] \<and> right_view M1 b1 = Some [1, 2, 4, 5]"
    by (simp add: first_or_def)
  from E obtain M2 b2 where
    "erase_right (fst example5) (snd example5) (Some 5) =
       Some (M2, b2, first_or [] (end_right (snd example5)))"
    "find_left M2 b2 32 = Some (end_left b2)" "find_right M2 b2 66 = Some (end_right b2)"
    "left_view M2 b2 = Some (filter (\<lambda>x. x \<noteq> 5) ([1, 2] @ 3 # [4, 5]))"
    "right_view M2 b2 = Some ([1, 2, 3, 4] @ [])"
    by blast
  then have 2: "erase_right (fst example5) (snd example5) (Some 5) =
        Some (M2, b2, end_right (snd example5)) \<and>
      find_left M2 b2 32 = Some (end_left b2) \<and> find_right M2 b2 66 = Some (end_right b2) \<and>
      left_view M2 b2 = Some [1, 2, 3, 4] \<and> right_view M2 b2 = Some [1, 2, 3, 4]"
    by (simp add: first_or_def)
  from 1 2 show ?thesis by blast
qed

lemma entries_after_default:
  fixes pr pr' :: "addr \<Rightarrow> 'l \<times> 'r"
  assumes "ws = xs @ n # ys" and "xs @ ys = filter (\<lambda>a. Q (pr a)) zs"
    and "pr' n = p" and "\<forall>x\<in>set (xs @ ys). pr' x = pr x"
  shows "\<exists>ps1 ps2. filter Q (map pr zs) = ps1 @ ps2 \<and> map pr' ws = ps1 @ p # ps2"
proof -
  have "filter Q (map pr zs) = map pr (filter (\<lambda>a. Q (pr a)) zs)"
    by (simp add: filter_map comp_def)
  also have "\<dots> = map pr xs @ map pr ys" unfolding assms(2)[symmetric] by simp
  finally have 1: "filter Q (map pr zs) = map pr xs @ map pr ys" .
  have "map pr' xs = map pr xs" "map pr' ys = map pr ys" using assms(4) by simp_all
  then have 2: "map pr' ws = map pr xs @ p # map pr ys" unfolding assms(1) using assms(3)
    by simp
  from 1 2 show ?thesis by blast
qed

lemma at_left_or_default_present:
  assumes inv: "bimap_inv M b TL TR" and swl: "strict_weak_order (cmp (treap_left b))"
    and a: "a \<in> set_tree TL" "equiv_key (cmp (treap_left b)) (the (key_left M a)) key"
  shows "at_left_or_default M b key val alloc = Some (M, b, Inr (the (key_right M a)))"
proof -
  have cl: "contains_left M b key = Some True"
    using contains_left_inv[OF inv, of key] a by auto
  from at_left_inv(1)[OF inv swl a] cl show ?thesis by (simp add: at_left_or_default_def)
qed

lemma at_right_or_default_present:
  assumes inv: "bimap_inv M b TL TR" and swr: "strict_weak_order (cmp (treap_right b))"
    and a: "a \<in> set_tree TL" "equiv_key (cmp (treap_right b)) (the (key_right M a)) key"
  shows "at_right_or_default M b key val alloc = Some (M, b, Inr (the (key_left M a)))"
proof -
  have cl: "contains_right M b key = Some True"
    using contains_right_inv[OF inv, of key] a by auto
  from at_right_inv(1)[OF inv swr a] cl show ?thesis by (simp add: at_right_or_default_def)
qed

lemma at_left_or_default_entries:
  assumes inv: "bimap_inv M b TL TR"
    and swr: "strict_weak_order (cmp (treap_right b))"
    and nd: "\<not> dup_left M b (inorder TL) k"
    and fr: "fresh M b (Some (n, pl, pr))"
  shows "\<exists>M' b' ps1 ps2 qs1 qs2.
           at_left_or_default M b k d (Some (n, pl, pr)) = Some (M', b', Inr d) \<and>
           filter (\<lambda>(l, r). \<not> equiv_key (cmp (treap_right b)) r d)
             (map (\<lambda>a. (the (key_left M a), the (key_right M a))) (inorder TL)) = ps1 @ ps2 \<and>
           left_entries M' b' = Some (ps1 @ (k, d) # ps2) \<and>
           filter (\<lambda>(l, r). \<not> equiv_key (cmp (treap_right b)) r d)
             (map (\<lambda>a. (the (key_left M a), the (key_right M a))) (inorder TR)) = qs1 @ qs2 \<and>
           right_entries M' b' = Some (qs1 @ (k, d) # qs2)"
proof -
  note D = bimap_inv_D[OF inv]
  let ?pr = "\<lambda>M a. (the (key_left M a), the (key_right M a))"
  let ?Q = "\<lambda>(l :: 'a, r). \<not> equiv_key (cmp (treap_right b)) r d"
  from fr have f: "n \<noteq> end_node b" "key_left M n = None" "key_right M n = None"
    by (simp_all add: fresh_def)
  from at_left_or_default_absent[OF inv swr nd f, of d pl pr]
  obtain M' b' TL' TR' xs ys us vs where
    r: "at_left_or_default M b k d (Some (n, pl, pr)) = Some (M', b', Inr d)"
    and inv': "bimap_inv M' b' TL' TR'"
    and iol: "inorder TL' = xs @ n # ys"
      "xs @ ys = filter (\<lambda>a. ?Q (?pr M a)) (inorder TL)"
    and ior: "inorder TR' = us @ n # vs"
      "us @ vs = filter (\<lambda>a. ?Q (?pr M a)) (inorder TR)"
    and k: "\<forall>x. key_left M' x = (if x = n then Some k else if x \<in> set_tree TL - set (xs @ ys) then None else key_left M x) \<and>
                key_right M' x = (if x = n then Some d else if x \<in> set_tree TL - set (xs @ ys) then None else key_right M x)"
    by auto
  have nn: "n \<notin> set_tree TL" using D(10) f(2) by auto
  have sub: "set (xs @ ys) \<subseteq> set_tree TL" unfolding iol(2) by auto
  have "set (us @ vs) = set (xs @ ys)" unfolding iol(2) ior(2) using D(3) by auto
  then have sub': "\<forall>x\<in>set (us @ vs). x \<in> set (xs @ ys)" by simp
  have pn: "?pr M' n = (k, d)" using k by simp
  have same: "\<forall>x\<in>set (xs @ ys). ?pr M' x = ?pr M x"
  proof
    fix x assume x: "x \<in> set (xs @ ys)"
    with sub nn have "x \<noteq> n" by auto
    with x k show "?pr M' x = ?pr M x" by simp
  qed
  from same sub' have same': "\<forall>x\<in>set (us @ vs). ?pr M' x = ?pr M x" by blast
  from entries_after_default[OF iol pn same] obtain ps1 ps2 where
    p: "filter ?Q (map (?pr M) (inorder TL)) = ps1 @ ps2"
      "map (?pr M') (inorder TL') = ps1 @ (k, d) # ps2" by blast
  from entries_after_default[OF ior pn same'] obtain qs1 qs2 where
    q: "filter ?Q (map (?pr M) (inorder TR)) = qs1 @ qs2"
      "map (?pr M') (inorder TR') = qs1 @ (k, d) # qs2" by blast
  show ?thesis
    apply (rule exI[of _ M'], rule exI[of _ b'])
    apply (rule exI[of _ ps1], rule exI[of _ ps2], rule exI[of _ qs1], rule exI[of _ qs2])
    using r p q by (simp add: left_entries_inv[OF inv'] right_entries_inv[OF inv'])
qed

lemma at_right_or_default_entries:
  assumes inv: "bimap_inv M b TL TR"
    and swl: "strict_weak_order (cmp (treap_left b))"
    and nd: "\<not> dup_right M b (inorder TL) k"
    and fr: "fresh M b (Some (n, pl, pr))"
  shows "\<exists>M' b' ps1 ps2 qs1 qs2.
           at_right_or_default M b k d (Some (n, pl, pr)) = Some (M', b', Inr d) \<and>
           filter (\<lambda>(l, r). \<not> equiv_key (cmp (treap_left b)) l d)
             (map (\<lambda>a. (the (key_left M a), the (key_right M a))) (inorder TL)) = ps1 @ ps2 \<and>
           left_entries M' b' = Some (ps1 @ (d, k) # ps2) \<and>
           filter (\<lambda>(l, r). \<not> equiv_key (cmp (treap_left b)) l d)
             (map (\<lambda>a. (the (key_left M a), the (key_right M a))) (inorder TR)) = qs1 @ qs2 \<and>
           right_entries M' b' = Some (qs1 @ (d, k) # qs2)"
proof -
  note D = bimap_inv_D[OF inv]
  let ?pr = "\<lambda>M a. (the (key_left M a), the (key_right M a))"
  let ?Q = "\<lambda>(l, r :: 'b). \<not> equiv_key (cmp (treap_left b)) l d"
  from fr have f: "n \<noteq> end_node b" "key_left M n = None" "key_right M n = None"
    by (simp_all add: fresh_def)
  from at_right_or_default_absent[OF inv swl nd f, of d pl pr]
  obtain M' b' TL' TR' xs ys us vs where
    r: "at_right_or_default M b k d (Some (n, pl, pr)) = Some (M', b', Inr d)"
    and inv': "bimap_inv M' b' TL' TR'"
    and iol: "inorder TL' = xs @ n # ys"
      "xs @ ys = filter (\<lambda>a. ?Q (?pr M a)) (inorder TL)"
    and ior: "inorder TR' = us @ n # vs"
      "us @ vs = filter (\<lambda>a. ?Q (?pr M a)) (inorder TR)"
    and k: "\<forall>x. key_left M' x = (if x = n then Some d else if x \<in> set_tree TL - set (xs @ ys) then None else key_left M x) \<and>
                key_right M' x = (if x = n then Some k else if x \<in> set_tree TL - set (xs @ ys) then None else key_right M x)"
    by auto
  have nn: "n \<notin> set_tree TL" using D(10) f(2) by auto
  have sub: "set (xs @ ys) \<subseteq> set_tree TL" unfolding iol(2) by auto
  have "set (us @ vs) = set (xs @ ys)" unfolding iol(2) ior(2) using D(3) by auto
  then have sub': "\<forall>x\<in>set (us @ vs). x \<in> set (xs @ ys)" by simp
  have pn: "?pr M' n = (d, k)" using k by simp
  have same: "\<forall>x\<in>set (xs @ ys). ?pr M' x = ?pr M x"
  proof
    fix x assume x: "x \<in> set (xs @ ys)"
    with sub nn have "x \<noteq> n" by auto
    with x k show "?pr M' x = ?pr M x" by simp
  qed
  from same sub' have same': "\<forall>x\<in>set (us @ vs). ?pr M' x = ?pr M x" by blast
  from entries_after_default[OF iol pn same] obtain ps1 ps2 where
    p: "filter ?Q (map (?pr M) (inorder TL)) = ps1 @ ps2"
      "map (?pr M') (inorder TL') = ps1 @ (d, k) # ps2" by blast
  from entries_after_default[OF ior pn same'] obtain qs1 qs2 where
    q: "filter ?Q (map (?pr M) (inorder TR)) = qs1 @ qs2"
      "map (?pr M') (inorder TR') = qs1 @ (d, k) # qs2" by blast
  show ?thesis
    apply (rule exI[of _ M'], rule exI[of _ b'])
    apply (rule exI[of _ ps1], rule exI[of _ ps2], rule exI[of _ qs1], rule exI[of _ qs2])
    using r p q by (simp add: left_entries_inv[OF inv'] right_entries_inv[OF inv'])
qed

text \<open>
  \<open>at_or_default\<close> in a state that satisfies \<open>reachable\<close>, which has no rule for an assignment
  (a state left by a move assignment is evaluated at the end of this theory), where the left view yields the pairs \<open>ps\<close> and the right view the pairs \<open>qs\<close>, and \<open>d\<close>,
  \<open>d'\<close> are the value-initialised right and left keys.  When a stored pair \<open>(l, r)\<close> has \<open>l\<close> equivalent to \<open>k\<close>,
  \<open>at_left_or_default k\<close> returns \<open>r\<close> and changes neither the memory nor the object.  When no
  stored left key is equivalent to \<open>k\<close> and the allocation yields a node that was not in use
  before the call (so not the node the call itself has just deleted), \<open>at_left_or_default k\<close>
  returns \<open>d\<close>, and afterwards each view yields its former pairs without
  those whose right component is equivalent to \<open>d\<close>, in their former order, with \<open>(k, d)\<close> put
  in at one place.  \<open>at_right_or_default k'\<close> is symmetric, with \<open>d'\<close> on the left.
\<close>

theorem at_or_default_returns_or_replaces:
  assumes "reachable M b" and "left_entries M b = Some ps" and "right_entries M b = Some qs"
  shows "(\<forall>(l, r)\<in>set ps.
            (equiv_key (cmp (treap_left b)) l k \<longrightarrow>
               at_left_or_default M b k d alloc = Some (M, b, Inr r)) \<and>
            (equiv_key (cmp (treap_right b)) r k' \<longrightarrow>
               at_right_or_default M b k' d' alloc = Some (M, b, Inr l))) \<and>
         (\<not> (\<exists>(l, r)\<in>set ps. equiv_key (cmp (treap_left b)) l k) \<and>
          fresh M b (Some (n, pl, pr)) \<longrightarrow>
            (\<exists>M' b' ps1 ps2 qs1 qs2.
               at_left_or_default M b k d (Some (n, pl, pr)) = Some (M', b', Inr d) \<and>
               filter (\<lambda>(l, r). \<not> equiv_key (cmp (treap_right b)) r d) ps = ps1 @ ps2 \<and>
               left_entries M' b' = Some (ps1 @ (k, d) # ps2) \<and>
               filter (\<lambda>(l, r). \<not> equiv_key (cmp (treap_right b)) r d) qs = qs1 @ qs2 \<and>
               right_entries M' b' = Some (qs1 @ (k, d) # qs2))) \<and>
         (\<not> (\<exists>(l, r)\<in>set ps. equiv_key (cmp (treap_right b)) r k') \<and>
          fresh M b (Some (n, pl, pr)) \<longrightarrow>
            (\<exists>M' b' ps1 ps2 qs1 qs2.
               at_right_or_default M b k' d' (Some (n, pl, pr)) = Some (M', b', Inr d') \<and>
               filter (\<lambda>(l, r). \<not> equiv_key (cmp (treap_left b)) l d') ps = ps1 @ ps2 \<and>
               left_entries M' b' = Some (ps1 @ (d', k') # ps2) \<and>
               filter (\<lambda>(l, r). \<not> equiv_key (cmp (treap_left b)) l d') qs = qs1 @ qs2 \<and>
               right_entries M' b' = Some (qs1 @ (d', k') # qs2)))"
proof -
  from reachable_valid[OF assms(1)] obtain TL TR where inv: "bimap_inv M b TL TR"
    and swl: "strict_weak_order (cmp (treap_left b))"
    and swr: "strict_weak_order (cmp (treap_right b))"
    by (auto simp: bimap_valid_def)
  note dup = dup_entries[OF inv assms(2)]
  let ?pr = "\<lambda>a. (the (key_left M a), the (key_right M a))"
  from assms(2) left_entries_inv[OF inv] have ps: "ps = map ?pr (inorder TL)" by simp
  from assms(3) right_entries_inv[OF inv] have qs: "qs = map ?pr (inorder TR)" by simp
  have 1: "at_left_or_default M b k d alloc = Some (M, b, Inr r)"
    if "(l, r) \<in> set ps" "equiv_key (cmp (treap_left b)) l k" for l r
  proof -
    from that(1) obtain a where "a \<in> set_tree TL" "l = the (key_left M a)"
      "r = the (key_right M a)" unfolding ps by auto
    with at_left_or_default_present[OF inv swl, of a k d alloc] that(2) show ?thesis by simp
  qed
  have 2: "at_right_or_default M b k' d' alloc = Some (M, b, Inr l)"
    if "(l, r) \<in> set ps" "equiv_key (cmp (treap_right b)) r k'" for l r
  proof -
    from that(1) obtain a where "a \<in> set_tree TL" "l = the (key_left M a)"
      "r = the (key_right M a)" unfolding ps by auto
    with at_right_or_default_present[OF inv swr, of a k' d' alloc] that(2) show ?thesis by simp
  qed
  have 3: "\<exists>M' b' ps1 ps2 qs1 qs2.
               at_left_or_default M b k d (Some (n, pl, pr)) = Some (M', b', Inr d) \<and>
               filter (\<lambda>(l, r). \<not> equiv_key (cmp (treap_right b)) r d) ps = ps1 @ ps2 \<and>
               left_entries M' b' = Some (ps1 @ (k, d) # ps2) \<and>
               filter (\<lambda>(l, r). \<not> equiv_key (cmp (treap_right b)) r d) qs = qs1 @ qs2 \<and>
               right_entries M' b' = Some (qs1 @ (k, d) # qs2)"
    if "\<not> (\<exists>(l, r)\<in>set ps. equiv_key (cmp (treap_left b)) l k)"
      and fr: "fresh M b (Some (n, pl, pr))"
  proof -
    from that(1) have nd: "\<not> dup_left M b (inorder TL) k" unfolding dup .
    from at_left_or_default_entries[OF inv swr nd fr, of d] show ?thesis unfolding ps qs .
  qed
  have 4: "\<exists>M' b' ps1 ps2 qs1 qs2.
               at_right_or_default M b k' d' (Some (n, pl, pr)) = Some (M', b', Inr d') \<and>
               filter (\<lambda>(l, r). \<not> equiv_key (cmp (treap_left b)) l d') ps = ps1 @ ps2 \<and>
               left_entries M' b' = Some (ps1 @ (d', k') # ps2) \<and>
               filter (\<lambda>(l, r). \<not> equiv_key (cmp (treap_left b)) l d') qs = qs1 @ qs2 \<and>
               right_entries M' b' = Some (qs1 @ (d', k') # qs2)"
    if "\<not> (\<exists>(l, r)\<in>set ps. equiv_key (cmp (treap_right b)) r k')"
      and fr: "fresh M b (Some (n, pl, pr))"
  proof -
    from that(1) have nd: "\<not> dup_right M b (inorder TL) k'" unfolding dup .
    from at_right_or_default_entries[OF inv swl nd fr, of d'] show ?thesis unfolding ps qs .
  qed
  from 1 2 have 12: "\<forall>(l, r)\<in>set ps.
            (equiv_key (cmp (treap_left b)) l k \<longrightarrow>
               at_left_or_default M b k d alloc = Some (M, b, Inr r)) \<and>
            (equiv_key (cmp (treap_right b)) r k' \<longrightarrow>
               at_right_or_default M b k' d' alloc = Some (M, b, Inr l))" by blast
  from 3 4 have 34: "(\<not> (\<exists>(l, r)\<in>set ps. equiv_key (cmp (treap_left b)) l k) \<and>
          fresh M b (Some (n, pl, pr)) \<longrightarrow>
            (\<exists>M' b' ps1 ps2 qs1 qs2.
               at_left_or_default M b k d (Some (n, pl, pr)) = Some (M', b', Inr d) \<and>
               filter (\<lambda>(l, r). \<not> equiv_key (cmp (treap_right b)) r d) ps = ps1 @ ps2 \<and>
               left_entries M' b' = Some (ps1 @ (k, d) # ps2) \<and>
               filter (\<lambda>(l, r). \<not> equiv_key (cmp (treap_right b)) r d) qs = qs1 @ qs2 \<and>
               right_entries M' b' = Some (qs1 @ (k, d) # qs2))) \<and>
         (\<not> (\<exists>(l, r)\<in>set ps. equiv_key (cmp (treap_right b)) r k') \<and>
          fresh M b (Some (n, pl, pr)) \<longrightarrow>
            (\<exists>M' b' ps1 ps2 qs1 qs2.
               at_right_or_default M b k' d' (Some (n, pl, pr)) = Some (M', b', Inr d') \<and>
               filter (\<lambda>(l, r). \<not> equiv_key (cmp (treap_left b)) l d') ps = ps1 @ ps2 \<and>
               left_entries M' b' = Some (ps1 @ (d', k') # ps2) \<and>
               filter (\<lambda>(l, r). \<not> equiv_key (cmp (treap_left b)) l d') qs = qs1 @ qs2 \<and>
               right_entries M' b' = Some (qs1 @ (d', k') # qs2)))" by blast
  from 12 34 show ?thesis by (rule conjI)
qed

lemma example_default_ok: "ok_int example_default"
  unfolding example_default_def example2_def by (intro ok_int_insert ok_int_new; code_simp)

lemma example_default_entries:
  "left_entries (fst example_default) (snd example_default) = Some [(1, 2), (2, 3), (5, 0)]"
  "right_entries (fst example_default) (snd example_default) = Some [(5, 0), (1, 2), (2, 3)]"
  by code_simp+

lemma example_default_fresh:
  "fresh (fst example_default) (snd example_default) (Some (4, 1, 1))"
  by code_simp

theorem at_or_default_returns_or_replaces_witness:
  "at_left_or_default (fst example_default) (snd example_default) 2 0 None =
     Some (fst example_default, snd example_default, Inr 3) \<and>
   at_right_or_default (fst example_default) (snd example_default) 2 0 None =
     Some (fst example_default, snd example_default, Inr 1) \<and>
   (\<exists>M' b' ps1 ps2 qs1 qs2.
      at_left_or_default (fst example_default) (snd example_default) 7 0 (Some (4, 1, 1)) =
        Some (M', b', Inr 0) \<and>
      [(1, 2), (2, 3)] = ps1 @ ps2 \<and> left_entries M' b' = Some (ps1 @ (7, 0) # ps2) \<and>
      [(1, 2), (2, 3)] = qs1 @ qs2 \<and> right_entries M' b' = Some (qs1 @ (7, 0) # qs2))"
  using at_or_default_returns_or_replaces[OF ok_intD(1)[OF example_default_ok]
      example_default_entries,
      where k = 2 and k' = 2 and d = 0 and d' = 0 and alloc = None and n = 4 and pl = 1 and pr = 1]
    at_or_default_returns_or_replaces[OF ok_intD(1)[OF example_default_ok]
      example_default_entries,
      where k = 7 and k' = 7 and d = 0 and d' = 0 and alloc = None and n = 4 and pl = 1 and pr = 1]
    example_default_fresh
  by (simp add: ok_intD(2,3)[OF example_default_ok] equiv_key_def)

text \<open>
  Claim C10.  The move constructor never completes: \<open>treap_storage(treap_storage &&)\<close> calls
  \<open>swap\<close> while its own \<open>end_elem\<close> is still the null pointer, and \<open>swap\<close> dereferences it.
  The move assignment completes, but it exchanges only the two \<open>end_elem->left\<close> and the
  sizes: with \<open>{(4, 3)}\<close> (end node \<open>0\<close>, pair node \<open>1\<close>) move-assigned to an empty object with
  end node \<open>10\<close>, the destination has size \<open>1\<close>, \<open>find_left 4\<close> finds node \<open>1\<close> and \<open>at_left 4\<close> is
  \<open>3\<close>, but the parent of node \<open>1\<close> is still the end node \<open>0\<close> of the source and not
  \<open>end_left\<close> of the destination, and \<open>erase_left\<close> of node \<open>1\<close> returns the cursor \<open>0\<close>, which is not
  \<open>end_left\<close> of the destination.
\<close>

theorem move_ctor_undefined_move_assign_keeps_parent:
  "bimap_move_ctor M other e default_left default_right ps = None \<and>
   map_option (\<lambda>(M, c, b).
       (bimap_size c, find_left M c 4, at_left M c 4, parent (nodes_left M 1),
        parent (nodes_right M 1), end_left c,
        map_option (\<lambda>(M', c', it). (it, end_left c')) (erase_left M c (Some 1))))
     example_moved =
   Some (1, Some (Some 1), Some (Inr 3), Some 0, Some 0, Some 10, Some (Some 0, Some 10))"
proof
  show "bimap_move_ctor M other e default_left default_right ps = None"
    by (simp add: bimap_move_ctor_def treap_move_ctor_def treap_storage_swap_def)
  show "map_option (\<lambda>(M, c, b).
       (bimap_size c, find_left M c 4, at_left M c 4, parent (nodes_left M 1),
        parent (nodes_right M 1), end_left c,
        map_option (\<lambda>(M', c', it). (it, end_left c')) (erase_left M c (Some 1))))
     example_moved =
   Some (1, Some (Some 1), Some (Inr 3), Some 0, Some 0, Some 10, Some (Some 0, Some 10))"
    by code_simp
qed

text \<open>
  Claim C3.  The move assignment and the copy assignment are public operations that complete
  and leave an object that cannot be iterated: after \<open>{(4, 3)}\<close> is move-assigned, or
  copy-assigned, to an empty object, the destination has size \<open>1\<close>, but walking the left view or
  the right view from \<open>begin\<close> to \<open>end\<close> leaves the tree through the stale parent pointer of its
  root, passes the end node of another object and dereferences a null pointer.
\<close>

theorem assignment_breaks_iteration:
  "map_option (\<lambda>(M, c, b). (bimap_size c, left_view M c, right_view M c)) example_moved =
     Some (1, None, None) \<and>
   map_option (\<lambda>(M, c, r). (bimap_size c, left_view M c, right_view M c, r))
     example_copy_assigned_empty = Some (1, None, None, Inr ())"
  by code_simp

text \<open>
  Claim C9.  The copy assignment does not always complete: with
  the destination \<open>{(7, 8)}\<close> and the source \<open>{(4, 3)}\<close>, the copy is built, the move assignment
  exchanges the roots, and the destructor of the temporary then erases a tree whose root has
  the destination's end node as parent, steps to that end node and erases it as if it were a pair.
\<close>

theorem copy_assign_nonempty_undefined: "example_copy_assigned = None"
  by code_simp

lemma sorted_wrt_set_unique:
  assumes "irreflp R" and "transp R"
  shows "sorted_wrt R xs \<Longrightarrow> sorted_wrt R ys \<Longrightarrow> set xs = set ys \<Longrightarrow> xs = ys"
proof (induction xs arbitrary: ys)
  case Nil
  then show ?case by simp
next
  case (Cons x xs)
  from Cons.prems(3) obtain y ys' where ys: "ys = y # ys'" by (cases ys) auto
  have irr: "\<not> R a a" for a using assms(1) by (simp add: irreflp_def)
  have asym: "R a b \<Longrightarrow> \<not> R b a" for a b
    using assms(2) irr[of a] by (auto simp: transp_def)
  from Cons.prems(1) have sx: "sorted_wrt R xs" "\<forall>a\<in>set xs. R x a" by simp_all
  from Cons.prems(2) have sy: "sorted_wrt R ys'" "\<forall>a\<in>set ys'. R y a" by (simp_all add: ys)
  have xy: "x = y"
  proof (rule ccontr)
    assume ne: "x \<noteq> y"
    with Cons.prems(3) have "x \<in> set ys'" "y \<in> set xs" by (auto simp: ys)
    with sx(2) sy(2) have "R y x" "R x y" by auto
    with asym show False by blast
  qed
  have "x \<notin> set xs" using sx(2) irr by auto
  moreover have "y \<notin> set ys'" using sy(2) irr by auto
  ultimately have "set xs = set ys'" using Cons.prems(3) xy by (auto simp: ys)
  from Cons.IH[OF sx(1) sy(1) this] xy show ?case by (simp add: ys)
qed

lemma equal_loop_inv:
  assumes inv1: "bimap_inv M b1 TL1 TR1" and inv2: "bimap_inv M b2 TL2 TR2"
  shows "inorder TL1 = xs0 @ xs \<Longrightarrow> inorder TL2 = ys0 @ ys \<Longrightarrow> length xs = length ys \<Longrightarrow>
         equal_loop M (first_or xs (Some (end_node b1))) (first_or ys (Some (end_node b2)))
             (Some (end_node b1)) =
           Some (map (\<lambda>a. (the (key_left M a), the (key_right M a))) xs =
                 map (\<lambda>a. (the (key_left M a), the (key_right M a))) ys)"
proof (induction xs arbitrary: ys xs0 ys0)
  case Nil
  then show ?case by (subst equal_loop.simps) (simp add: first_or_def)
next
  case (Cons x xs)
  from Cons.prems(3) obtain y ys' where ys: "ys = y # ys'" by (cases ys) auto
  note D1 = bimap_inv_D[OF inv1] and D2 = bimap_inv_D[OF inv2]
  from D1(1) have wf1: "treap_wf (nodes_left M) (end_node b1) TL1" by (simp add: treap_inv_def)
  from D2(1) have wf2: "treap_wf (nodes_left M) (end_node b2) TL2" by (simp add: treap_inv_def)
  have xin: "x \<in> set (inorder TL1)" unfolding Cons.prems(1) by simp
  then have xt: "x \<in> set_tree TL1" by simp
  have yin: "y \<in> set (inorder TL2)" unfolding Cons.prems(2) ys by simp
  then have yt: "y \<in> set_tree TL2" by simp
  from xt D1(7) have xe: "x \<noteq> end_node b1" by auto
  from xt D1(10) obtain lx rx where kx: "key_left M x = Some lx" "key_right M x = Some rx"
    by auto
  from yt D2(10) obtain ly ry where ky: "key_left M y = Some ly" "key_right M y = Some ry"
    by auto
  have nx: "node_next (nodes_left M) x = Some (first_or xs (Some (end_node b1)))"
    by (rule node_next_wf[OF wf1 Cons.prems(1)])
  have ny: "node_next (nodes_left M) y = Some (first_or ys' (Some (end_node b2)))"
    by (rule node_next_wf[OF wf2 Cons.prems(2)[unfolded ys]])
  have io1: "inorder TL1 = (xs0 @ [x]) @ xs" using Cons.prems(1) by simp
  have io2: "inorder TL2 = (ys0 @ [y]) @ ys'" using Cons.prems(2) ys by simp
  from Cons.prems(3) have len: "length xs = length ys'" by (simp add: ys)
  note IH = Cons.IH[OF io1 io2 len]
  show ?case
    apply (subst equal_loop.simps)
    using xe kx ky nx ny IH
    by (auto simp: ys first_or_def deref_left_def deref_right_def flip_def incr_left_def)
qed

lemma bimap_equal_inv:
  assumes inv1: "bimap_inv M b1 TL1 TR1" and inv2: "bimap_inv M b2 TL2 TR2"
  shows "bimap_equal M b1 b2 =
           Some (bimap_size b1 = bimap_size b2 \<and>
                 map (\<lambda>a. (the (key_left M a), the (key_right M a))) (inorder TL1) =
                 map (\<lambda>a. (the (key_left M a), the (key_right M a))) (inorder TL2))"
proof (cases "bimap_size b1 = bimap_size b2")
  case False
  then show ?thesis by (simp add: bimap_equal_def)
next
  case True
  note D1 = bimap_inv_D[OF inv1] and D2 = bimap_inv_D[OF inv2]
  from True D1(4) D2(4) have len: "length (inorder TL1) = length (inorder TL2)"
    by (simp add: bimap_size_def)
  have b1: "begin_left M b1 = Some (first_or (inorder TL1) (Some (end_node b1)))"
    unfolding begin_left_def by (rule treap_first_inv[OF D1(1)])
  have b2: "begin_left M b2 = Some (first_or (inorder TL2) (Some (end_node b2)))"
    unfolding begin_left_def by (rule treap_first_inv[OF D2(1)])
  from equal_loop_inv[OF inv1 inv2, of "[]" "inorder TL1" "[]" "inorder TL2"] len True b1 b2 D1(5)
  show ?thesis by (simp add: bimap_equal_def)
qed

text \<open>
  \<open>operator==\<close> on two objects in one memory that both satisfy \<open>reachable\<close>, which has no rule
  for an assignment (an object filled by a move assignment is evaluated at the end of this
  theory), whose left views yield the pairs \<open>ps\<close> and \<open>qs\<close>: \<open>size\<close> is the number of pairs of
  each, and \<open>operator==\<close> returns true exactly when the sizes are equal and \<open>ps\<close> and \<open>qs\<close> are the
  same list, that is, hold an equal left key and an equal right key at every position.  In
  particular it returns true when the two objects have the same left comparator and the same
  set of pairs, whatever the order of insertion and the shape of the trees.
\<close>

theorem equal_iff_same_size_and_pairs:
  assumes "reachable M b1" and "reachable M b2"
    and "left_entries M b1 = Some ps" and "left_entries M b2 = Some qs"
  shows "length ps = bimap_size b1 \<and> length qs = bimap_size b2 \<and>
         bimap_equal M b1 b2 = Some (bimap_size b1 = bimap_size b2 \<and> ps = qs) \<and>
         (cmp (treap_left b1) = cmp (treap_left b2) \<and> set ps = set qs \<longrightarrow>
            bimap_equal M b1 b2 = Some True)"
proof -
  from reachable_valid[OF assms(1)] obtain TL1 TR1 where inv1: "bimap_inv M b1 TL1 TR1"
    by (auto simp: bimap_valid_def)
  from reachable_valid[OF assms(2)] obtain TL2 TR2 where inv2: "bimap_inv M b2 TL2 TR2"
    by (auto simp: bimap_valid_def)
  note D1 = bimap_inv_D[OF inv1] and D2 = bimap_inv_D[OF inv2]
  let ?pr = "\<lambda>a. (the (key_left M a), the (key_right M a))"
  from assms(3) left_entries_inv[OF inv1] have ps: "ps = map ?pr (inorder TL1)" by simp
  from assms(4) left_entries_inv[OF inv2] have qs: "qs = map ?pr (inorder TL2)" by simp
  have l1: "length ps = bimap_size b1" using D1(4) by (simp add: ps bimap_size_def)
  have l2: "length qs = bimap_size b2" using D2(4) by (simp add: qs bimap_size_def)
  have eq: "bimap_equal M b1 b2 = Some (bimap_size b1 = bimap_size b2 \<and> ps = qs)"
    unfolding ps qs by (rule bimap_equal_inv[OF inv1 inv2])
  have part: "bimap_equal M b1 b2 = Some True"
    if c: "cmp (treap_left b1) = cmp (treap_left b2)" and s: "set ps = set qs"
  proof -
    let ?R = "\<lambda>p q. cmp (treap_left b1) (fst p) (fst q)"
    from D1(1) have ir: "irreflp (cmp (treap_left b1))" and tr: "transp (cmp (treap_left b1))"
      and s1: "sorted_wrt (\<lambda>x y. cmp (treap_left b1) (the (key_left M x)) (the (key_left M y)))
          (inorder TL1)" by (simp_all add: treap_inv_def)
    from D2(1) c have s2: "sorted_wrt (\<lambda>x y. cmp (treap_left b1) (the (key_left M x))
        (the (key_left M y))) (inorder TL2)" by (simp add: treap_inv_def)
    have R: "irreflp ?R" "transp ?R"
      using ir tr by (auto simp: irreflp_def transp_def)
    have "sorted_wrt ?R ps" "sorted_wrt ?R qs"
      using s1 s2 by (simp_all add: ps qs sorted_wrt_map)
    from sorted_wrt_set_unique[OF R this s] have "ps = qs" .
    with l1 l2 eq show ?thesis by simp
  qed
  from l1 l2 eq part show ?thesis by blast
qed

lemma ok_int_ctor:
  assumes "key_left M e = None" and "key_right M e = None"
  shows "ok_int (do_ctor M e ps)"
proof -
  from bimap_ctor_inv[OF strict_weak_orderD[OF strict_weak_order_int]
      strict_weak_orderD[OF strict_weak_order_int] assms, of ps]
  obtain M' b where c: "bimap_ctor M e (<) (<) ps = Some (M', b)"
    and cc: "cmp (treap_left b) = (<)" "cmp (treap_right b) = (<)" by blast
  then have e: "do_ctor M e ps = (M', b)" by (simp add: do_ctor_def)
  from r_ctor[OF strict_weak_order_int strict_weak_order_int assms c] cc
  show ?thesis by (simp add: ok_int_def e)
qed

lemma example_second_ok: "ok_int example_second"
  unfolding example_second_def by (intro ok_int_insert ok_int_ctor; code_simp)

lemma example_first_in_second:
  "reachable (fst example_second) (snd example2)"
proof (rule r_frame[OF ok_intD(1)[OF example2_ok]])
  show "left_view (fst example2) (snd example2) = Some [1, 2]" by code_simp
  show "\<forall>x\<in>insert (end_node (snd example2)) (set [1, 2]).
          same_at (fst example2) (fst example_second) x" by code_simp
qed

lemma example_second_entries:
  "left_entries (fst example_second) (snd example2) = Some [(1, 2), (2, 3)]"
  "left_entries (fst example_second) (snd example_second) = Some [(1, 2), (2, 3)]"
  "deref_left (fst example_second) (left (nodes_left (fst example_second) 0)) = Some 2"
  "deref_left (fst example_second) (left (nodes_left (fst example_second) 10)) = Some 1"
  by code_simp+

theorem equal_iff_same_size_and_pairs_witness:
  "left_entries (fst example_second) (snd example2) = Some [(1, 2), (2, 3)] \<and>
   left_entries (fst example_second) (snd example_second) = Some [(1, 2), (2, 3)] \<and>
   bimap_size (snd example2) = 2 \<and> bimap_size (snd example_second) = 2 \<and>
   deref_left (fst example_second) (left (nodes_left (fst example_second) 0)) = Some 2 \<and>
   deref_left (fst example_second) (left (nodes_left (fst example_second) 10)) = Some 1 \<and>
   bimap_equal (fst example_second) (snd example2) (snd example_second) = Some True"
  using equal_iff_same_size_and_pairs[OF example_first_in_second
      ok_intD(1)[OF example_second_ok] example_second_entries(1,2)]
  by (simp add: example_second_entries)

lemma sorted_inorder_bst:
  "sorted_wrt (\<lambda>x y. c (k x) (k y)) (inorder t) \<Longrightarrow> bst_wrt c k t"
  by (induction t) (auto simp: sorted_wrt_append)

lemma heap_ordered_children: "heap_ordered pr t \<Longrightarrow> children_below pr t"
  by (induction t) (auto split: tree.splits)

lemma reachable_invariants:
  assumes "reachable M b"
  shows "\<exists>TL TR.
           tree_at (nodes_left M) (left (nodes_left M (end_node b))) TL \<and>
           tree_at (nodes_right M) (left (nodes_right M (end_node b))) TR \<and>
           bst_wrt (cmp (treap_left b)) (\<lambda>a. the (key_left M a)) TL \<and>
           bst_wrt (cmp (treap_right b)) (\<lambda>a. the (key_right M a)) TR \<and>
           children_below (\<lambda>a. priority (nodes_left M a)) TL \<and>
           children_below (\<lambda>a. priority (nodes_right M a)) TR \<and>
           bimap_size b = size TL \<and> bimap_size b = size TR \<and>
           left_view M b = Some (inorder TL) \<and> right_view M b = Some (inorder TR) \<and>
           sorted_wrt (\<lambda>x y. cmp (treap_left b) (the (key_left M x)) (the (key_left M y)))
             (inorder TL) \<and>
           sorted_wrt (\<lambda>x y. cmp (treap_right b) (the (key_right M x)) (the (key_right M y)))
             (inorder TR)"
proof -
  from reachable_valid[OF assms] obtain TL TR where inv: "bimap_inv M b TL TR"
    by (auto simp: bimap_valid_def)
  note D = bimap_inv_D[OF inv]
  from D(1) have wl: "treap_wf (nodes_left M) (end_node b) TL"
    and sl: "sorted_wrt (\<lambda>x y. cmp (treap_left b) (the (key_left M x)) (the (key_left M y)))
      (inorder TL)"
    and hl: "heap_ordered (\<lambda>a. priority (nodes_left M a)) TL" by (simp_all add: treap_inv_def)
  from D(2) have wr: "treap_wf (nodes_right M) (end_node b) TR"
    and sr: "sorted_wrt (\<lambda>x y. cmp (treap_right b) (the (key_right M x)) (the (key_right M y)))
      (inorder TR)"
    and hr: "heap_ordered (\<lambda>a. priority (nodes_right M a)) TR" by (simp_all add: treap_inv_def)
  note WL = treap_wf_D[OF wl] and WR = treap_wf_D[OF wr]
  have tl: "tree_at (nodes_left M) (left (nodes_left M (end_node b))) TL" using WL(1,4) by simp
  have tr: "tree_at (nodes_right M) (left (nodes_right M (end_node b))) TR" using WR(1,4) by simp
  have "length (inorder TR) = length (inorder TL)"
    using D(3) D(8) D(9) by (metis distinct_card set_inorder)
  then have sz: "bimap_size b = size TL" "bimap_size b = size TR"
    using D(4) by (simp_all add: bimap_size_def length_inorder[symmetric] del: length_inorder)
  show ?thesis
    apply (rule exI[of _ TL], rule exI[of _ TR])
    using tl tr
      sorted_inorder_bst[where c = "cmp (treap_left b)" and k = "\<lambda>a. the (key_left M a)", OF sl]
      sorted_inorder_bst[where c = "cmp (treap_right b)" and k = "\<lambda>a. the (key_right M a)", OF sr]
      heap_ordered_children[OF hl]
      heap_ordered_children[OF hr] sz left_view_inv[OF inv] right_view_inv[OF inv] sl sr
    by simp
qed

text \<open>
  Claim C1.  The claim does not hold of an object that a move assignment has filled.  With
  \<open>{(4, 3)}\<close> (end node \<open>0\<close>, pair node \<open>1\<close>) move-assigned to an empty object with end node \<open>10\<close>,
  the destination has size \<open>1\<close> and \<open>begin_left\<close> is the cursor \<open>1\<close>, which points at \<open>(4, 3)\<close> and is
  the last of its view.  \<open>erase_left\<close> of that cursor returns the cursor \<open>0\<close>, the end node of the
  source, where \<open>end_left\<close> of the destination is \<open>10\<close>; \<open>treap::remove\<close> clears the left link of
  the parent it finds, which is the end node of the source, so the deleted node \<open>1\<close> stays the
  root of both trees of the destination, and \<open>find_left 4\<close> and \<open>find_right 3\<close> then read the key
  of a deleted node.  \<open>erase_right\<close> does the same.
\<close>

theorem erase_after_move_assign_returns_other_end:
  "map_option (\<lambda>(M, c, b).
       (bimap_size c, begin_left M c, pair_at M 1, end_left c, end_right c,
        map_option (\<lambda>(M', c', it).
            (it, end_left c', left (nodes_left M' 10), left (nodes_right M' 10), pair_at M' 1,
             map_option (\<lambda>x. ()) (find_left M' c' 4),
             map_option (\<lambda>x. ()) (find_right M' c' 3)))
          (erase_left M c (Some 1)),
        map_option (\<lambda>(M', c', it). (it, end_right c', left (nodes_right M' 10)))
          (erase_right M c (Some 1))))
     example_moved =
   Some (1, Some (Some 1), Some (4, 3), Some 10, Some 10,
         Some (Some 0, Some 10, Some 1, Some 1, None, None, None),
         Some (Some 0, Some 10, Some 1))"
  by code_simp

text \<open>
  Claim C5.  The claim does not hold of an object that a move assignment has filled.  With
  \<open>{(5, 0)}\<close> (end node \<open>0\<close>, pair node \<open>1\<close>) move-assigned to an empty object with end node \<open>10\<close>,
  the destination has size \<open>1\<close>, no left key \<open>7\<close>, and \<open>find_right 0\<close> finds node \<open>1\<close>.
  \<open>at_left_or_default 7\<close> with the value-initialised right key \<open>0\<close> erases node \<open>1\<close>; the erasure
  leaves the deleted node as the root, and the \<open>insert (7, 0)\<close> that follows reads its key.
\<close>

theorem at_or_default_after_move_assign_undefined:
  "map_option (\<lambda>(M, c, b).
       (bimap_size c, find_left M c 7, end_left c, find_right M c 0, pair_at M 1,
        map_option (\<lambda>x. ()) (at_left_or_default M c 7 0 (Some (2, 1, 1)))))
     example50_moved =
   Some (1, Some (Some 10), Some 10, Some (Some 1), Some (5, 0), None)"
  by code_simp

text \<open>
  Claim C8.  The claim does not hold of an object that a move assignment has filled.  With
  \<open>{(4, 3)}\<close> move-assigned to an empty object, the destination has size \<open>1\<close>, and comparing it
  with itself does not return: after the first pair both cursors step to the end node of the
  source, which is not \<open>end_left\<close> of the destination, and the loop dereferences them.
\<close>

theorem equal_after_move_assign_undefined:
  "map_option (\<lambda>(M, c, b). (bimap_size c, begin_left M c, pair_at M 1, bimap_equal M c c))
     example_moved =
   Some (1, Some (Some 1), Some (4, 3), None)"
  by code_simp


end
